(* ===== verification/CPrelude.thy ===== *)
theory CPrelude
  imports Main "HOL-Library.Word" "HOL-Library.Monad_Syntax"
begin

text \<open>
  Shared vocabulary of the development: the C integer types as words, byte buffers as lists
  with bounds-checked accesses, C strings, and the generic lemmas about them.

  A buffer is the list of its bytes, so its length is the size of the C object.  An access
  outside it is the value \<open>None\<close>: it stands for undefined behaviour, and the theorems that
  a routine returns \<open>Some\<close> are its memory-safety theorems.
\<close>

unbundle bit_operations_syntax

named_theorems buf_simps \<open>how the bounds-checked buffer operations compute\<close>
named_theorems word_defs \<open>the word-level macros of the sources\<close>

subsection \<open>Types\<close>

type_synonym u8 = "8 word"
type_synonym u16 = "16 word"
type_synonym u32 = "32 word"
type_synonym bytes = "u8 list"

definition byte_of :: "char \<Rightarrow> u8" where
  "byte_of c = of_nat (of_char c)"

definition cstr :: "string \<Rightarrow> bytes" where
  \<comment> \<open>a string literal, without its terminating NUL\<close>
  "cstr s = map byte_of s"

lemma length_cstr [simp]: "length (cstr s) = length s"
  by (simp add: cstr_def)

lemma cstr_Nil [simp]: "cstr [] = []"
  by (simp add: cstr_def)

lemma cstr_Cons [simp]: "cstr (c # s) = byte_of c # cstr s"
  by (simp add: cstr_def)

lemma all_bytes:
  \<comment> \<open>a property of bytes, decided by evaluation\<close>
  assumes "\<forall>y \<in> set (map word_of_nat [0..<256]). P y"
  shows "P (x :: u8)"
proof -
  have "unat x < 2 ^ LENGTH(8)" by (rule unsigned_less)
  then have "word_of_nat (unat x) \<in> set (map word_of_nat [0..<256] :: u8 list)" by force
  then have "x \<in> set (map word_of_nat [0..<256])" by simp
  with assms show ?thesis by blast
qed

subsection \<open>Buffers\<close>

definition read_at :: "'a list \<Rightarrow> nat \<Rightarrow> 'a option" where
  \<comment> \<open>\<open>b[i]\<close>\<close>
  "read_at b i = (if i < length b then Some (b ! i) else None)"

definition read_range :: "'a list \<Rightarrow> nat \<Rightarrow> nat \<Rightarrow> 'a list option" where
  \<comment> \<open>the \<open>n\<close> bytes at \<open>b + i\<close>, as \<open>memcpy\<close> reads them\<close>
  "read_range b i n = (if i + n \<le> length b then Some (take n (drop i b)) else None)"

definition write_at :: "'a list \<Rightarrow> nat \<Rightarrow> 'a list \<Rightarrow> 'a list option" where
  \<comment> \<open>\<open>memcpy (b + i, xs, length xs)\<close>\<close>
  "write_at b i xs =
     (if i + length xs \<le> length b then Some (take i b @ xs @ drop (i + length xs) b) else None)"

lemma read_at_Some_iff: "read_at b i = Some x \<longleftrightarrow> i < length b \<and> x = b ! i"
  by (auto simp: read_at_def)

lemma read_at_in [buf_simps]: "i < length b \<Longrightarrow> read_at b i = Some (b ! i)"
  by (simp add: read_at_def)

lemma read_at_out [buf_simps]: "length b \<le> i \<Longrightarrow> read_at b i = None"
  by (simp add: read_at_def)

lemma read_at_append [buf_simps]: "read_at (xs @ y # ys) (length xs) = Some y"
  by (simp add: read_at_def)

lemma length_write_at: "write_at b i xs = Some b' \<Longrightarrow> length b' = length b"
  by (auto simp: write_at_def split: if_splits)

lemma write_at_in: "i + length xs \<le> length b \<Longrightarrow>
    write_at b i xs = Some (take i b @ xs @ drop (i + length xs) b)"
  by (simp add: write_at_def)

lemma write_at_append [buf_simps]:
  "length xs \<le> length rest \<Longrightarrow>
   write_at (pre @ rest) (length pre) xs = Some (pre @ xs @ drop (length xs) rest)"
  by (simp add: write_at_def)

subsection \<open>C strings\<close>

fun c_strlen :: "bytes \<Rightarrow> nat option" where
  \<comment> \<open>\<open>strlen\<close>: running off the end of the object is \<open>None\<close>\<close>
  "c_strlen [] = None"
| "c_strlen (b # bs) = (if b = 0 then Some 0 else map_option Suc (c_strlen bs))"

definition c_string :: "bytes \<Rightarrow> bool" where
  \<comment> \<open>the bytes of a C string before its NUL\<close>
  "c_string s \<longleftrightarrow> 0 \<notin> set s"

definition string_of_buf :: "bytes \<Rightarrow> bytes" where
  \<comment> \<open>the C string a buffer holds\<close>
  "string_of_buf b = takeWhile (\<lambda>x. x \<noteq> 0) b"

lemma c_string_append [simp]: "c_string (s @ t) \<longleftrightarrow> c_string s \<and> c_string t"
  by (auto simp: c_string_def)

lemma c_string_Nil [simp]: "c_string []"
  by (simp add: c_string_def)

lemma c_string_Cons [simp]: "c_string (b # s) \<longleftrightarrow> b \<noteq> 0 \<and> c_string s"
  by (auto simp: c_string_def)

lemma c_strlen_append [buf_simps]: "c_string s \<Longrightarrow> c_strlen (s @ 0 # t) = Some (length s)"
  by (induction s) (auto simp: c_string_def)

lemma c_strlen_Some: "c_strlen b = Some n \<Longrightarrow> n < length b \<and> b ! n = 0 \<and> c_string (take n b)"
  by (induction b arbitrary: n) (auto split: if_splits simp: nth_Cons')

lemma c_strlen_string_of_buf: "c_strlen b = Some n \<Longrightarrow> n = length (string_of_buf b)"
  by (induction b arbitrary: n) (auto simp: string_of_buf_def split: if_splits)

lemma c_strlen_first: "c_strlen b = Some n \<Longrightarrow> k \<le> n \<Longrightarrow> b ! k = 0 \<Longrightarrow> k = n"
proof (induction b arbitrary: n k)
  case (Cons x b)
  then show ?case by (cases k) (auto split: if_splits)
qed simp

lemma c_strlen_ex: "0 \<in> set b \<Longrightarrow> \<exists>n. c_strlen b = Some n"
  by (induction b) auto

lemma string_of_buf_append [buf_simps]: "c_string s \<Longrightarrow> string_of_buf (s @ 0 # t) = s"
  by (induction s) (auto simp: string_of_buf_def)

lemma c_string_string_of_buf: "c_string (string_of_buf b)"
  by (induction b) (auto simp: string_of_buf_def)

subsection \<open>Lists and blocks\<close>

fun blocks_of :: "nat \<Rightarrow> 'a list \<Rightarrow> 'a list list" where
  \<comment> \<open>the full blocks of \<open>n\<close> elements, a shorter rest dropped\<close>
  "blocks_of n xs = (if n = 0 \<or> length xs < n then [] else take n xs # blocks_of n (drop n xs))"

declare blocks_of.simps [simp del]

lemma blocks_of_short: "length xs < n \<Longrightarrow> blocks_of n xs = []"
  by (subst blocks_of.simps) simp

lemma blocks_of_append:
  assumes "0 < n" and "length xs = n"
  shows "blocks_of n (xs @ ys) = xs # blocks_of n ys"
  using assms by (subst blocks_of.simps) simp

lemma blocks_of_append_dvd:
  assumes "0 < n" and "n dvd length xs"
  shows "blocks_of n (xs @ ys) = blocks_of n xs @ blocks_of n ys"
  using assms
proof (induction n xs rule: blocks_of.induct)
  case (1 n xs)
  show ?case
  proof (cases "xs = []")
    case True
    with "1.prems" show ?thesis by (simp add: blocks_of_short)
  next
    case False
    with "1.prems" have le: "n \<le> length xs"
      by (simp add: dvd_imp_le)
    have dvd: "n dvd length (drop n xs)"
      using "1.prems" by (simp add: dvd_diff_nat)
    have "blocks_of n (take n xs @ (drop n xs @ ys)) = take n xs # blocks_of n (drop n xs @ ys)"
      using "1.prems" le by (intro blocks_of_append) auto
    moreover have "blocks_of n (drop n xs @ ys) = blocks_of n (drop n xs) @ blocks_of n ys"
      using "1.IH" "1.prems" le dvd by simp
    moreover have "blocks_of n xs = take n xs # blocks_of n (drop n xs)"
      using "1.prems" le by (subst blocks_of.simps) simp
    moreover have "take n xs @ (drop n xs @ ys) = xs @ ys"
      by (simp flip: append_assoc)
    ultimately show ?thesis by simp
  qed
qed

lemma concat_blocks_of: "n dvd length xs \<Longrightarrow> 0 < n \<Longrightarrow> concat (blocks_of n xs) = xs"
proof (induction n xs rule: blocks_of.induct)
  case (1 n xs)
  show ?case
  proof (cases "xs = []")
    case True
    with "1.prems" show ?thesis by (simp add: blocks_of_short)
  next
    case False
    with "1.prems" have le: "n \<le> length xs"
      by (simp add: dvd_imp_le)
    have "n dvd length (drop n xs)"
      using "1.prems" by (simp add: dvd_diff_nat)
    then have "concat (blocks_of n (drop n xs)) = drop n xs"
      using "1.IH" "1.prems" le by simp
    then show ?thesis
      using "1.prems" le by (subst blocks_of.simps) simp
  qed
qed

lemma length_in_blocks_of: "b \<in> set (blocks_of n xs) \<Longrightarrow> length b = n"
proof (induction n xs rule: blocks_of.induct)
  case (1 n xs)
  then show ?case
    by (subst (asm) (2) blocks_of.simps) (auto split: if_splits)
qed

end
