(* ===== verification/Sha256.thy ===== *)
theory Sha256
  imports CPrelude
begin

text \<open>
  The SHA-256 of \<open>mqtt/aliyun_auth.c\<close>: the context, the compression of one 64-byte block
  with its in-place rotation of the working variables, the streaming update and the
  padding.  Definitions follow the functions and macros of the source one by one; the
  macros keep their names with the prefix \<open>sha_\<close>.

  The \<open>input\<close> of an update is the object its pointer points into; every copy from it goes
  through \<open>read_range\<close>, every copy into the 64-byte \<open>buffer\<close> through \<open>write_at\<close>.
\<close>

unbundle bit_operations_syntax

subsection \<open>The context\<close>

record iot_sha256_context =
  total0 :: u32        \<comment> \<open>\<open>total[0]\<close>\<close>
  total1 :: u32        \<comment> \<open>\<open>total[1]\<close>\<close>
  sha_state :: "u32 list"  \<comment> \<open>\<open>state[8]\<close>\<close>
  sha_buffer :: bytes  \<comment> \<open>\<open>buffer[64]\<close>\<close>
  is224 :: int

definition utils_sha256_init :: "iot_sha256_context \<Rightarrow> iot_sha256_context" where
  \<comment> \<open>\<open>memset (ctx, 0, sizeof (iot_sha256_context))\<close>\<close>
  "utils_sha256_init ctx =
     \<lparr>total0 = 0, total1 = 0, sha_state = replicate 8 0, sha_buffer = replicate 64 0, is224 = 0\<rparr>"

definition utils_sha256_zeroize :: "iot_sha256_context \<Rightarrow> iot_sha256_context" where
  \<comment> \<open>the byte loop over the whole context, as \<open>utils_sha256_free\<close> calls it\<close>
  "utils_sha256_zeroize ctx =
     \<lparr>total0 = 0, total1 = 0, sha_state = map (\<lambda>_. 0) (sha_state ctx),
      sha_buffer = map (\<lambda>_. 0) (sha_buffer ctx), is224 = 0\<rparr>"

definition utils_sha256_free :: "iot_sha256_context option \<Rightarrow> iot_sha256_context option" where
  "utils_sha256_free ctx = (case ctx of None \<Rightarrow> None | Some c \<Rightarrow> Some (utils_sha256_zeroize c))"

definition sha_H0 :: "u32 list" where
  "sha_H0 = [0x6A09E667, 0xBB67AE85, 0x3C6EF372, 0xA54FF53A,
             0x510E527F, 0x9B05688C, 0x1F83D9AB, 0x5BE0CD19]"

definition utils_sha256_starts :: "iot_sha256_context \<Rightarrow> iot_sha256_context" where
  "utils_sha256_starts ctx = ctx\<lparr>total0 := 0, total1 := 0, sha_state := sha_H0, is224 := 0\<rparr>"

subsection \<open>Macros\<close>

definition GET_UINT32_BE :: "bytes \<Rightarrow> nat \<Rightarrow> u32" where
  "GET_UINT32_BE b i =
     push_bit 24 (ucast (b ! i)) OR push_bit 16 (ucast (b ! (i + 1)))
     OR push_bit 8 (ucast (b ! (i + 2))) OR ucast (b ! (i + 3))"

definition PUT_UINT32_BE :: "u32 \<Rightarrow> bytes" where
  \<comment> \<open>the four bytes the macro stores\<close>
  "PUT_UINT32_BE n =
     [ucast (drop_bit 24 n), ucast (drop_bit 16 n), ucast (drop_bit 8 n), ucast n]"

definition sha_SHR :: "u32 \<Rightarrow> nat \<Rightarrow> u32" where
  "sha_SHR x n = drop_bit n (x AND 0xFFFFFFFF)"

definition sha_ROTR :: "u32 \<Rightarrow> nat \<Rightarrow> u32" where
  "sha_ROTR x n = sha_SHR x n OR push_bit (32 - n) x"

definition sha_S0 :: "u32 \<Rightarrow> u32" where
  "sha_S0 x = sha_ROTR x 7 XOR sha_ROTR x 18 XOR sha_SHR x 3"

definition sha_S1 :: "u32 \<Rightarrow> u32" where
  "sha_S1 x = sha_ROTR x 17 XOR sha_ROTR x 19 XOR sha_SHR x 10"

definition sha_S2 :: "u32 \<Rightarrow> u32" where
  "sha_S2 x = sha_ROTR x 2 XOR sha_ROTR x 13 XOR sha_ROTR x 22"

definition sha_S3 :: "u32 \<Rightarrow> u32" where
  "sha_S3 x = sha_ROTR x 6 XOR sha_ROTR x 11 XOR sha_ROTR x 25"

definition sha_F0 :: "u32 \<Rightarrow> u32 \<Rightarrow> u32 \<Rightarrow> u32" where
  "sha_F0 x y z = (x AND y) OR (z AND (x OR y))"

definition sha_F1 :: "u32 \<Rightarrow> u32 \<Rightarrow> u32 \<Rightarrow> u32" where
  "sha_F1 x y z = z XOR (x AND (y XOR z))"

definition sha_K :: "u32 list" where
  "sha_K = [
    0x428A2F98, 0x71374491, 0xB5C0FBCF, 0xE9B5DBA5,
    0x3956C25B, 0x59F111F1, 0x923F82A4, 0xAB1C5ED5,
    0xD807AA98, 0x12835B01, 0x243185BE, 0x550C7DC3,
    0x72BE5D74, 0x80DEB1FE, 0x9BDC06A7, 0xC19BF174,
    0xE49B69C1, 0xEFBE4786, 0x0FC19DC6, 0x240CA1CC,
    0x2DE92C6F, 0x4A7484AA, 0x5CB0A9DC, 0x76F988DA,
    0x983E5152, 0xA831C66D, 0xB00327C8, 0xBF597FC7,
    0xC6E00BF3, 0xD5A79147, 0x06CA6351, 0x14292967,
    0x27B70A85, 0x2E1B2138, 0x4D2C6DFC, 0x53380D13,
    0x650A7354, 0x766A0ABB, 0x81C2C92E, 0x92722C85,
    0xA2BFE8A1, 0xA81A664B, 0xC24B8B70, 0xC76C51A3,
    0xD192E819, 0xD6990624, 0xF40E3585, 0x106AA070,
    0x19A4C116, 0x1E376C08, 0x2748774C, 0x34B0BCB5,
    0x391C0CB3, 0x4ED8AA4A, 0x5B9CCA4F, 0x682E6FF3,
    0x748F82EE, 0x78A5636F, 0x84C87814, 0x8CC70208,
    0x90BEFFFA, 0xA4506CEB, 0xBEF9A3F7, 0xC67178F2]"

definition sha_R :: "u32 list \<Rightarrow> nat \<Rightarrow> u32" where
  \<comment> \<open>the value \<open>R (t)\<close> stores in \<open>W[t]\<close>\<close>
  "sha_R W t = sha_S1 (W ! (t - 2)) + W ! (t - 7) + sha_S0 (W ! (t - 15)) + W ! (t - 16)"

definition sha_P :: "u32 list \<Rightarrow> u32 \<Rightarrow> u32 \<Rightarrow> u32 list" where
  \<comment> \<open>\<open>P (A[0], \<dots>, A[7], x, K)\<close>: \<open>d += temp1; h = temp1 + temp2\<close>\<close>
  "sha_P A x k =
     (let temp1 = A ! 7 + sha_S3 (A ! 4) + sha_F1 (A ! 4) (A ! 5) (A ! 6) + k + x;
          temp2 = sha_S2 (A ! 0) + sha_F0 (A ! 0) (A ! 1) (A ! 2)
      in A[3 := A ! 3 + temp1, 7 := temp1 + temp2])"

subsection \<open>One block\<close>

definition sha_shift :: "u32 list \<Rightarrow> u32 list" where
  \<comment> \<open>\<open>temp1 = A[7]; A[7] = A[6]; \<dots> A[1] = A[0]; A[0] = temp1\<close>\<close>
  "sha_shift A = [A ! 7, A ! 0, A ! 1, A ! 2, A ! 3, A ! 4, A ! 5, A ! 6]"

definition sha_round :: "bytes \<Rightarrow> nat \<Rightarrow> u32 list \<times> u32 list \<Rightarrow> u32 list \<times> u32 list" where
  \<comment> \<open>one pass of the 64-fold loop; \<open>W\<close> holds the entries stored so far, so an entry is only
     read after it was stored\<close>
  "sha_round data i s =
     (case s of (A, W) \<Rightarrow>
        let w = (if i < 16 then GET_UINT32_BE data (4 * i) else sha_R W i)
        in (sha_shift (sha_P A w (sha_K ! i)), W @ [w]))"

definition utils_sha256_process :: "iot_sha256_context \<Rightarrow> bytes \<Rightarrow> iot_sha256_context" where
  "utils_sha256_process ctx data =
     (let A = fst (fold (sha_round data) [0..<64] (sha_state ctx, []))
      in ctx\<lparr>sha_state := map2 (+) (sha_state ctx) A\<rparr>)"

subsection \<open>Streaming\<close>

function sha_blocks ::
    "iot_sha256_context \<Rightarrow> bytes \<Rightarrow> nat \<Rightarrow> u32 \<Rightarrow> (iot_sha256_context \<times> nat \<times> u32) option" where
  \<comment> \<open>\<open>while (ilen >= 64) { process (ctx, input); input += 64; ilen -= 64; }\<close>, the pointer as
     a position in the input object\<close>
  "sha_blocks ctx input pos ilen =
     (if ilen \<ge> 64
      then do { data \<leftarrow> read_range input pos 64;
                sha_blocks (utils_sha256_process ctx data) input (pos + 64) (ilen - 64) }
      else Some (ctx, pos, ilen))"
  by pat_completeness auto
termination
  by (relation "measure (\<lambda>(ctx, input, pos, ilen). unat ilen)")
     (auto simp: word_le_nat_alt unat_sub)

declare sha_blocks.simps [simp del]

definition sha_fill ::
    "iot_sha256_context \<Rightarrow> bytes \<Rightarrow> u32 \<Rightarrow> u32 \<Rightarrow> (iot_sha256_context \<times> nat \<times> u32 \<times> u32) option" where
  \<comment> \<open>\<open>if (left && ilen >= fill) { \<dots> }\<close>: completes a started block\<close>
  "sha_fill ctx input left ilen =
     (let fill = 64 - left
      in if left \<noteq> 0 \<and> ilen \<ge> fill
         then do { chunk \<leftarrow> read_range input 0 (unat fill);
                   buf \<leftarrow> write_at (sha_buffer ctx) (unat left) chunk;
                   Some (utils_sha256_process (ctx\<lparr>sha_buffer := buf\<rparr>) buf, unat fill, ilen - fill, 0) }
         else Some (ctx, 0, ilen, left))"

definition sha_tail ::
    "iot_sha256_context \<Rightarrow> bytes \<Rightarrow> nat \<Rightarrow> u32 \<Rightarrow> u32 \<Rightarrow> iot_sha256_context option" where
  \<comment> \<open>\<open>if (ilen > 0) memcpy (ctx->buffer + left, input, ilen)\<close>\<close>
  "sha_tail ctx input pos ilen left =
     (if ilen > 0
      then do { chunk \<leftarrow> read_range input pos (unat ilen);
                buf \<leftarrow> write_at (sha_buffer ctx) (unat left) chunk;
                Some (ctx\<lparr>sha_buffer := buf\<rparr>) }
      else Some ctx)"

definition sha_count :: "iot_sha256_context \<Rightarrow> u32 \<Rightarrow> iot_sha256_context" where
  \<comment> \<open>the byte counter with its carry\<close>
  "sha_count ctx ilen =
     (let t0 = (total0 ctx + ilen) AND 0xFFFFFFFF
      in ctx\<lparr>total0 := t0, total1 := (if t0 < ilen then total1 ctx + 1 else total1 ctx)\<rparr>)"

definition utils_sha256_update ::
    "iot_sha256_context \<Rightarrow> bytes \<Rightarrow> u32 \<Rightarrow> iot_sha256_context option" where
  "utils_sha256_update ctx input ilen =
     (if ilen = 0 then Some ctx
      else do {
        let left = total0 ctx AND 0x3F;
        (ctx, pos, ilen, left) \<leftarrow> sha_fill (sha_count ctx ilen) input left ilen;
        (ctx, pos, ilen) \<leftarrow> sha_blocks ctx input pos ilen;
        sha_tail ctx input pos ilen left })"

definition sha256_padding :: bytes where
  "sha256_padding = 0x80 # replicate 63 0"

definition sha_digest :: "iot_sha256_context \<Rightarrow> bytes" where
  \<comment> \<open>the bytes \<open>utils_sha256_finish\<close> stores in \<open>output\<close>\<close>
  "sha_digest ctx =
     concat (map PUT_UINT32_BE (take 7 (sha_state ctx)))
     @ (if is224 ctx = 0 then PUT_UINT32_BE (sha_state ctx ! 7) else [])"

definition utils_sha256_finish ::
    "iot_sha256_context \<Rightarrow> bytes \<Rightarrow> (iot_sha256_context \<times> bytes) option" where
  "utils_sha256_finish ctx out = do {
     let high = drop_bit 29 (total0 ctx) OR push_bit 3 (total1 ctx);
     let low = push_bit 3 (total0 ctx);
     let msglen = PUT_UINT32_BE high @ PUT_UINT32_BE low;
     let rest = total0 ctx AND 0x3F;
     let padn = (if rest < 56 then 56 - rest else 120 - rest);
     ctx \<leftarrow> utils_sha256_update ctx sha256_padding padn;
     ctx \<leftarrow> utils_sha256_update ctx msglen 8;
     out \<leftarrow> write_at out 0 (sha_digest ctx);
     Some (ctx, out) }"

definition utils_sha256 :: "iot_sha256_context \<Rightarrow> bytes \<Rightarrow> u32 \<Rightarrow> bytes \<Rightarrow> bytes option" where
  \<comment> \<open>the first argument is the uninitialised context on the stack\<close>
  "utils_sha256 ctx input ilen out = do {
     let ctx = utils_sha256_starts (utils_sha256_init ctx);
     ctx \<leftarrow> utils_sha256_update ctx input ilen;
     (ctx, out) \<leftarrow> utils_sha256_finish ctx out;
     let ctx = utils_sha256_free (Some ctx);
     Some out }"

end
