(* ===== verification/Sha256Spec.thy ===== *)
theory Sha256Spec
  imports Sha256
begin

text \<open>
  The SHA-256 of FIPS 180-4 as a specification, and the refinement of the code to it: the
  macros are the standard's functions, one pass of the code's loop is one round, the block
  function is the standard's compression, and a whole message is padded and hashed as
  the standard says.  What the streaming context represents is the subject of \<open>Sha256Stream\<close>.
\<close>

unbundle bit_operations_syntax

subsection \<open>FIPS 180-4\<close>

definition Ch :: "u32 \<Rightarrow> u32 \<Rightarrow> u32 \<Rightarrow> u32" where
  "Ch x y z = (x AND y) XOR (NOT x AND z)"

definition Maj :: "u32 \<Rightarrow> u32 \<Rightarrow> u32 \<Rightarrow> u32" where
  "Maj x y z = (x AND y) XOR (x AND z) XOR (y AND z)"

definition Sigma0 :: "u32 \<Rightarrow> u32" where
  "Sigma0 x = word_rotr 2 x XOR word_rotr 13 x XOR word_rotr 22 x"

definition Sigma1 :: "u32 \<Rightarrow> u32" where
  "Sigma1 x = word_rotr 6 x XOR word_rotr 11 x XOR word_rotr 25 x"

definition sigma0 :: "u32 \<Rightarrow> u32" where
  "sigma0 x = word_rotr 7 x XOR word_rotr 18 x XOR drop_bit 3 x"

definition sigma1 :: "u32 \<Rightarrow> u32" where
  "sigma1 x = word_rotr 17 x XOR word_rotr 19 x XOR drop_bit 10 x"

definition be_word :: "bytes \<Rightarrow> u32" where
  \<comment> \<open>a big-endian 32-bit number\<close>
  "be_word bs = word_rcat bs"

fun schedule :: "bytes \<Rightarrow> nat \<Rightarrow> u32" where
  "schedule b t =
     (if t < 16 then be_word (take 4 (drop (4 * t) b))
      else sigma1 (schedule b (t - 2)) + schedule b (t - 7)
           + sigma0 (schedule b (t - 15)) + schedule b (t - 16))"

declare schedule.simps [simp del]

type_synonym vars = "u32 \<times> u32 \<times> u32 \<times> u32 \<times> u32 \<times> u32 \<times> u32 \<times> u32"

fun fips_round :: "u32 \<Rightarrow> u32 \<Rightarrow> vars \<Rightarrow> vars" where
  "fips_round k w (a, b, c, d, e, f, g, h) =
     (let T1 = h + Sigma1 e + Ch e f g + k + w;
          T2 = Sigma0 a + Maj a b c
      in (T1 + T2, a, b, c, d + T1, e, f, g))"

fun list_of_vars :: "vars \<Rightarrow> u32 list" where
  "list_of_vars (a, b, c, d, e, f, g, h) = [a, b, c, d, e, f, g, h]"

definition vars_of_list :: "u32 list \<Rightarrow> vars" where
  "vars_of_list A = (A ! 0, A ! 1, A ! 2, A ! 3, A ! 4, A ! 5, A ! 6, A ! 7)"

definition fips_compress :: "u32 list \<Rightarrow> bytes \<Rightarrow> u32 list" where
  "fips_compress H M =
     map2 (+) H
       (list_of_vars (fold (\<lambda>t. fips_round (sha_K ! t) (schedule M t)) [0..<64] (vars_of_list H)))"

definition be64 :: "64 word \<Rightarrow> bytes" where
  "be64 w = map (\<lambda>i. ucast (drop_bit (56 - 8 * i) w)) [0..<8]"

definition zero_pad :: "nat \<Rightarrow> nat" where
  \<comment> \<open>the least \<open>k\<close> with \<open>(n + 1 + k) mod 64 = 56\<close>\<close>
  "zero_pad n = (119 - n mod 64) mod 64"

definition fips_pad :: "bytes \<Rightarrow> bytes" where
  "fips_pad m =
     m @ [0x80] @ replicate (zero_pad (length m)) 0 @ be64 (of_nat (8 * length m))"

definition fips_hash_blocks :: "bytes \<Rightarrow> u32 list" where
  "fips_hash_blocks m = foldl fips_compress sha_H0 (blocks_of 64 m)"

definition fips_sha256 :: "bytes \<Rightarrow> bytes" where
  "fips_sha256 m = concat (map PUT_UINT32_BE (fips_hash_blocks (fips_pad m)))"

lemma pad_residue:
  assumes "r < (64::nat)"
  shows "(r + (1 + (119 - r) mod 64)) mod 64 = 56"
proof (cases "r \<le> 55")
  case True
  then obtain k where k: "55 = r + k" by (auto simp: le_iff_add)
  then have "119 - r = k + 64" by linarith
  then have "(119 - r) mod 64 = k" using k by simp
  then show ?thesis using k by simp
next
  case False
  then obtain k where k: "r = 56 + k" using le_Suc_ex [of 56 r] by auto
  with assms have "119 - r = 63 - k" and "k < 8" by simp_all
  then show ?thesis using k by simp
qed

lemma zero_pad_spec: "(n + 1 + zero_pad n) mod 64 = 56"
  using pad_residue [of "n mod 64"] mod_add_left_eq [of n 64 "1 + (119 - n mod 64) mod 64"]
  by (simp only: zero_pad_def add.assoc mod_less_divisor zero_less_numeral)

lemma fips_pad_blocks: "64 dvd length (fips_pad m)"
proof -
  have "(length m + 1 + zero_pad (length m) + 8) mod 64 = (56 + 8) mod 64"
    using zero_pad_spec [of "length m"] by (metis mod_add_left_eq)
  then have "length (fips_pad m) mod 64 = 0"
    by (simp add: fips_pad_def be64_def add_ac)
  then show ?thesis by (simp add: dvd_eq_mod_eq_0)
qed

subsection \<open>The macros are the standard's functions\<close>

lemma sha_F1_Ch: "sha_F1 x y z = Ch x y z"
  by (rule bit_word_eqI) (auto simp: sha_F1_def Ch_def bit_simps)

lemma sha_F0_Maj: "sha_F0 x y z = Maj x y z"
  by (rule bit_word_eqI) (auto simp: sha_F0_def Maj_def bit_simps)

lemma sha_SHR_drop: "sha_SHR x n = drop_bit n x"
proof -
  have "(0xFFFFFFFF :: u32) = - 1" by simp
  then have "x AND 0xFFFFFFFF = x" by (metis and.right_neutral)
  then show ?thesis by (simp add: sha_SHR_def)
qed

lemma sha_ROTR_rotr:
  assumes "0 < n" and "n < 32"
  shows "sha_ROTR x n = word_rotr n x"
proof (rule bit_word_eqI)
  fix i
  assume i: "i < LENGTH(32)"
  show "bit (sha_ROTR x n) i = bit (word_rotr n x) i"
  proof (cases "i + n < 32")
    case True
    then have "(i + n) mod 32 = i + n" by simp
    with True assms i show ?thesis
      by (auto simp: sha_ROTR_def sha_SHR_drop bit_simps ac_simps)
  next
    case False
    then have "(i + n) mod 32 = i + n - 32" using assms i by (simp add: mod_if)
    with False assms i show ?thesis
      by (auto simp: sha_ROTR_def sha_SHR_drop bit_simps ac_simps dest: bit_imp_le_length)
  qed
qed

lemmas sha_macros = sha_F0_Maj sha_F1_Ch sha_SHR_drop sha_ROTR_rotr

lemma sha_S_eq:
  "sha_S0 x = sigma0 x" "sha_S1 x = sigma1 x" "sha_S2 x = Sigma0 x" "sha_S3 x = Sigma1 x"
  by (simp_all add: sha_macros sha_S0_def sha_S1_def sha_S2_def sha_S3_def
      sigma0_def sigma1_def Sigma0_def Sigma1_def)

subsection \<open>One block\<close>

lemma bit_be_word:
  "n < 32 \<Longrightarrow> bit (be_word bs) n \<longleftrightarrow> n div 8 < length bs \<and> bit (rev bs ! (n div 8)) (n mod 8)"
  using bit_horner_sum_uint_exp_iff [of "rev bs" n]
  by (simp add: be_word_def word_rcat_def bit_simps)

lemma GET_UINT32_BE_word:
  assumes "i + 4 \<le> length b"
  shows "GET_UINT32_BE b i = be_word (take 4 (drop i b))"
proof -
  have "take 4 (drop i b) = [b ! i, b ! (i + 1), b ! (i + 2), b ! (i + 3)]"
    using assms by (intro nth_equalityI) (auto simp: nth_Cons' eval_nat_numeral less_Suc_eq)
  moreover have "GET_UINT32_BE b i = be_word [b ! i, b ! (i + 1), b ! (i + 2), b ! (i + 3)]"
    (is "?g = be_word ?bs")
  proof (rule bit_word_eqI)
    fix n
    assume "n < LENGTH(32)"
    then have n: "n < 32" by simp
    define q r where "q = n div 8" and "r = n mod 8"
    have qr: "n = 8 * q + r" and r: "r < 8"
      by (simp_all add: q_def r_def)
    then have q: "q = 0 \<or> q = 1 \<or> q = 2 \<or> q = 3" using n by linarith
    have out: "\<not> bit (x :: u8) k" if "8 \<le> k" for x k
      using that bit_imp_le_length [of x k] by auto
    have "bit (be_word ?bs) n = bit (rev ?bs ! q) r"
      using n q by (auto simp: bit_be_word q_def r_def)
    also have "\<dots> = bit ?g n"
      using q r by (elim disjE) (auto simp: qr GET_UINT32_BE_def bit_simps out)
    finally show "bit ?g n = bit (be_word ?bs) n" by simp
  qed
  ultimately show ?thesis by simp
qed

lemma vars_of_list_of_vars [simp]: "vars_of_list (list_of_vars v) = v"
  by (cases v rule: list_of_vars.cases) (simp add: vars_of_list_def)

lemma list_of_vars_of_list: "length A = 8 \<Longrightarrow> list_of_vars (vars_of_list A) = A"
  by (rule nth_equalityI) (auto simp: vars_of_list_def nth_Cons' eval_nat_numeral less_Suc_eq)

lemma length_list_of_vars [simp]: "length (list_of_vars v) = 8"
  by (cases v rule: list_of_vars.cases) simp

lemma sha_round_fips:
  "sha_shift (sha_P (list_of_vars v) w k) = list_of_vars (fips_round k w v)"
  by (cases v rule: list_of_vars.cases) (simp add: sha_shift_def sha_P_def sha_macros sha_S_eq Let_def add_ac)

lemma sha_rounds:
  assumes "length M = 64" and "n \<le> 64"
  shows "fold (sha_round M) [0..<n] (list_of_vars v, [])
       = (list_of_vars (fold (\<lambda>t. fips_round (sha_K ! t) (schedule M t)) [0..<n] v),
          map (schedule M) [0..<n])"
  using assms(2)
proof (induction n)
  case 0
  then show ?case by simp
next
  case (Suc n)
  have "sha_R (map (schedule M) [0..<n]) n = schedule M n" if "\<not> n < 16"
    using that by (subst schedule.simps) (simp add: sha_R_def sha_S_eq)
  moreover have "GET_UINT32_BE M (4 * n) = schedule M n" if "n < 16"
    using that assms by (subst schedule.simps) (simp add: GET_UINT32_BE_word)
  ultimately have "sha_round M n (list_of_vars u, map (schedule M) [0..<n])
      = (list_of_vars (fips_round (sha_K ! n) (schedule M n) u), map (schedule M) [0..<Suc n])" for u
    by (simp add: sha_round_def sha_round_fips Let_def)
  with Suc show ?case by simp
qed

lemma utils_sha256_process_fips:
  assumes "length M = 64" and "length (sha_state ctx) = 8"
  shows "utils_sha256_process ctx M = ctx\<lparr>sha_state := fips_compress (sha_state ctx) M\<rparr>"
  using sha_rounds [OF assms(1) order.refl, of "vars_of_list (sha_state ctx)"] assms(2)
  by (simp add: utils_sha256_process_def fips_compress_def list_of_vars_of_list Let_def)

lemma length_fips_compress [simp]: "length H = 8 \<Longrightarrow> length (fips_compress H M) = 8"
  by (simp add: fips_compress_def)

lemma length_fips_hash: "length H = 8 \<Longrightarrow> length (foldl fips_compress H bs) = 8"
  by (induction bs arbitrary: H) auto

end
