(* ===== verification/Sha256Stream.thy ===== *)
theory Sha256Stream
  imports Sha256Spec
begin

text \<open>
  The streaming context as a representation of the bytes absorbed so far: \<open>absorbed ctx m\<close>.
  Every update extends \<open>m\<close>, \<open>utils_sha256_finish\<close> returns the digest of \<open>m\<close>, and none of
  them touches memory outside its objects.  The laws are collected as the interface
  \<open>stream_hash\<close>, interpreted here on the code's own functions.
\<close>

unbundle bit_operations_syntax

subsection \<open>What a context represents\<close>

definition rest_of :: "bytes \<Rightarrow> bytes" where
  \<comment> \<open>the bytes after the last full block\<close>
  "rest_of m = drop (64 * (length m div 64)) m"

definition holds :: "iot_sha256_context \<Rightarrow> bytes \<Rightarrow> bool" where
  "holds ctx m \<longleftrightarrow> sha_state ctx = fips_hash_blocks m \<and> length (sha_buffer ctx) = 64
     \<and> take (length m mod 64) (sha_buffer ctx) = rest_of m \<and> is224 ctx = 0"

definition counts :: "iot_sha256_context \<Rightarrow> nat \<Rightarrow> bool" where
  "counts ctx n \<longleftrightarrow> unat (total0 ctx) = n mod 2 ^ 32 \<and> unat (total1 ctx) = n div 2 ^ 32 mod 2 ^ 32"

definition absorbed :: "iot_sha256_context \<Rightarrow> bytes \<Rightarrow> bool" where
  "absorbed ctx m \<longleftrightarrow> holds ctx m \<and> counts ctx (length m)"

lemma length_rest_of [simp]: "length (rest_of m) = length m mod 64"
  by (simp add: rest_of_def minus_mult_div_eq_mod)

lemma full_rest: obtains f where "m = f @ rest_of m" and "64 dvd length f"
proof
  show "m = take (64 * (length m div 64)) m @ rest_of m" by (simp add: rest_of_def)
  show "64 dvd length (take (64 * (length m div 64)) m)" by simp
qed

lemma rest_of_append: "64 dvd length f \<Longrightarrow> rest_of (f @ xs) = rest_of xs"
  by (auto simp: rest_of_def dvd_def)

lemma rest_of_short: "length xs < 64 \<Longrightarrow> rest_of xs = xs"
  by (simp add: rest_of_def)

lemma rest_of_dvd: "64 dvd length m \<Longrightarrow> rest_of m = []"
  using length_rest_of [of m] by (simp del: length_rest_of)

lemma blocks_of_rest: "0 < n \<Longrightarrow> n dvd length xs \<Longrightarrow> length ys < n \<Longrightarrow> blocks_of n (xs @ ys) = blocks_of n xs"
  by (simp add: blocks_of_append_dvd blocks_of_short)

lemma length_fips_hash_blocks [simp]: "length (fips_hash_blocks m) = 8"
  by (simp add: fips_hash_blocks_def length_fips_hash sha_H0_def)

lemma fips_hash_short: "64 dvd length f \<Longrightarrow> length r < 64 \<Longrightarrow> fips_hash_blocks (f @ r) = fips_hash_blocks f"
  by (simp add: fips_hash_blocks_def blocks_of_rest)

lemma fips_hash_block:
  "64 dvd length f \<Longrightarrow> length b = 64 \<Longrightarrow> fips_hash_blocks (f @ b) = fips_compress (fips_hash_blocks f) b"
  using blocks_of_append [of 64 b "[]"] by (simp add: fips_hash_blocks_def blocks_of_append_dvd blocks_of_short)

lemma unat_and_63: "unat (x AND 0x3F :: u32) = unat x mod 64"
proof -
  have "x AND 0x3F = take_bit 6 x" by (simp add: take_bit_eq_mask mask_eq_exp_minus_1)
  then show ?thesis by (simp only: unsigned_take_bit_eq) (simp add: take_bit_eq_mod)
qed

lemma counts_left: "counts ctx n \<Longrightarrow> unat (total0 ctx AND 0x3F) = n mod 64"
  by (simp add: counts_def unat_and_63 mod_mod_cancel)

lemma and_full: "(x :: u32) AND 0xFFFFFFFF = x"
proof -
  have "(0xFFFFFFFF :: u32) = - 1" by simp
  then show ?thesis by (metis and.right_neutral)
qed

lemma carry_arith:
  fixes n t k :: nat
  assumes "t = n mod B" and "k < B"
  shows "(n + k) div B = n div B + (if (t + k) mod B < k then 1 else 0)" and "(n + k) mod B = (t + k) mod B"
proof -
  have B: "0 < B" using assms(2) by simp
  then have t: "t < B" by (simp add: assms(1))
  show "(n + k) mod B = (t + k) mod B" by (simp add: assms(1) mod_add_left_eq)
  have eq: "n + k = B * (n div B) + (t + k)" by (simp add: assms(1))
  have "(n + k) div B = n div B + (t + k) div B"
    using B by (subst eq) simp
  moreover have "(t + k) div B = (if (t + k) mod B < k then 1 else 0)"
  proof (cases "t + k < B")
    case True
    then show ?thesis by simp
  next
    case False
    then have "(t + k) div B = 1" using t assms(2)
      by (intro div_nat_eqI) auto
    moreover have "(t + k) mod B = t + k - B"
      using False t assms(2) by (simp add: mod_if)
    ultimately show ?thesis using False t by simp
  qed
  ultimately show "(n + k) div B = n div B + (if (t + k) mod B < k then 1 else 0)" by simp
qed

lemma sha_count_counts:
  assumes "counts ctx n"
  shows "counts (sha_count ctx ilen) (n + unat ilen)"
proof -
  have lt: "unat ilen < 2 ^ 32" using unsigned_less [of ilen] by simp
  let ?t = "unat (total0 ctx)"
  have t: "?t = n mod 2 ^ 32" using assms by (simp add: counts_def)
  have t0: "unat (total0 ctx + ilen) = (?t + unat ilen) mod 2 ^ 32"
    by (simp add: unat_word_ariths)
  have c: "total0 ctx + ilen < ilen \<longleftrightarrow> (?t + unat ilen) mod 2 ^ 32 < unat ilen"
    by (simp add: word_less_nat_alt t0)
  note ca = carry_arith [OF t lt, simplified]
  have "unat (total1 ctx + 1) = (n div 2 ^ 32 + 1) mod 2 ^ 32"
    using assms by (simp add: counts_def unat_word_ariths mod_simps)
  then show ?thesis
    using assms by (simp add: counts_def sha_count_def and_full Let_def t0 c ca)
qed

lemma sha_count_holds [simp]: "holds (sha_count ctx ilen) m = holds ctx m"
  by (simp add: holds_def sha_count_def Let_def)

subsection \<open>One update\<close>

lemma process_totals [simp]:
  "total0 (utils_sha256_process ctx b) = total0 ctx" "total1 (utils_sha256_process ctx b) = total1 ctx"
  by (simp_all add: utils_sha256_process_def Let_def)

lemma unat_minus_of_nat:
  fixes x :: "'a::len word"
  assumes "k \<le> unat x"
  shows "unat (x - of_nat k) = unat x - k"
proof -
  have "x - of_nat k = of_nat (unat x - k)" using assms by (simp add: of_nat_diff)
  moreover have "unat x - k < 2 ^ LENGTH('a)"
    using unsigned_less [of x] by (simp add: less_imp_diff_less)
  ultimately show ?thesis by (simp add: unat_of_nat)
qed

lemma holds_block:
  assumes "holds ctx m" and "64 dvd length m" and "length b = 64"
  shows "holds (utils_sha256_process ctx b) (m @ b)"
  using assms
  by (simp add: holds_def utils_sha256_process_fips fips_hash_block rest_of_append rest_of_dvd)

lemma sha_blocks_holds:
  assumes "holds ctx m" and "pos + unat ilen \<le> length input"
    and "64 dvd length m \<or> unat ilen < 64"
  shows "\<exists>ctx' k. sha_blocks ctx input pos ilen = Some (ctx', pos + k, ilen - of_nat k)
           \<and> k \<le> unat ilen \<and> unat ilen - k < 64 \<and> holds ctx' (m @ take k (drop pos input))
           \<and> total0 ctx' = total0 ctx \<and> total1 ctx' = total1 ctx
           \<and> (64 dvd length m \<longrightarrow> 64 dvd k) \<and> (unat ilen < 64 \<longrightarrow> k = 0)"
  using assms
proof (induction ctx input pos ilen arbitrary: m rule: sha_blocks.induct)
  case (1 ctx input pos ilen)
  show ?case
  proof (cases "64 \<le> ilen")
    case False
    then have "unat ilen < 64" by (simp add: word_le_nat_alt)
    with False "1.prems" show ?thesis
      by (subst sha_blocks.simps) (auto intro!: exI [of _ 0])
  next
    case True
    then have ge: "64 \<le> unat ilen" by (simp add: word_le_nat_alt)
    have dvd: "64 dvd length m" using "1.prems"(3) ge by simp
    define blk where "blk = take 64 (drop pos input)"
    have rd: "read_range input pos 64 = Some blk" and len: "length blk = 64"
      using "1.prems"(2) ge by (simp_all add: read_range_def blk_def)
    have sub: "unat (ilen - 64) = unat ilen - 64" using True by (simp add: unat_sub)
    have "holds (utils_sha256_process ctx blk) (m @ blk)"
      using "1.prems"(1) dvd len by (rule holds_block)
    moreover have "pos + 64 + unat (ilen - 64) \<le> length input" using "1.prems"(2) ge sub by simp
    moreover have "64 dvd length (m @ blk)" using dvd len by simp
    ultimately obtain ctx' k where
      IH: "sha_blocks (utils_sha256_process ctx blk) input (pos + 64) (ilen - 64)
             = Some (ctx', pos + 64 + k, ilen - 64 - of_nat k)"
      and k: "k \<le> unat ilen - 64" "unat ilen - 64 - k < 64" "64 dvd k"
      and h: "holds ctx' ((m @ blk) @ take k (drop (pos + 64) input))"
      and t: "total0 ctx' = total0 ctx" "total1 ctx' = total1 ctx"
      using "1.IH" [OF True, of blk "m @ blk"] sub rd
      by auto
    have "take (64 + k) (drop pos input) = blk @ take k (drop (pos + 64) input)"
      unfolding blk_def take_add drop_drop by (simp add: add.commute)
    with h have "holds ctx' (m @ take (64 + k) (drop pos input))" by simp
    moreover have "sha_blocks ctx input pos ilen = Some (ctx', pos + (64 + k), ilen - of_nat (64 + k))"
      using True rd IH by (subst sha_blocks.simps) (simp add: add.assoc diff_diff_eq)
    moreover have "64 dvd 64 + k" using k(3) by simp
    ultimately show ?thesis
      using k t ge by (intro exI [of _ ctx'] exI [of _ "64 + k"]) auto
  qed
qed

lemma sha_fill_holds:
  assumes "holds ctx m" and "unat left = length m mod 64" and "unat ilen \<le> length input"
  shows "\<exists>ctx' k left'. sha_fill ctx input left ilen = Some (ctx', k, ilen - of_nat k, left')
           \<and> k \<le> unat ilen \<and> holds ctx' (m @ take k input)
           \<and> unat left' = length (m @ take k input) mod 64
           \<and> total0 ctx' = total0 ctx \<and> total1 ctx' = total1 ctx
           \<and> (64 dvd length (m @ take k input) \<or> (unat ilen - k) + unat left' < 64)"
proof -
  have lt: "unat left < 64" using assms(2) by simp
  then have fill: "unat (64 - left) = 64 - unat left"
    by (simp add: unat_sub word_le_nat_alt)
  show ?thesis
  proof (cases "left \<noteq> 0 \<and> 64 - left \<le> ilen")
    case False
    then have "unat left = 0 \<or> unat ilen < 64 - unat left"
      using fill by (auto simp: word_le_nat_alt unat_eq_0)
    then have "64 dvd length m \<or> unat ilen + unat left < 64"
      using assms(2) by (auto simp: dvd_eq_mod_eq_0)
    with False assms show ?thesis
      by (auto simp: sha_fill_def Let_def intro!: exI [of _ 0])
  next
    case True
    define n where "n = 64 - unat left"
    have n: "n \<le> unat ilen" "0 < n" "unat (64 - left) = n"
      using True fill lt by (auto simp: word_le_nat_alt n_def)
    obtain f where f: "m = f @ rest_of m" and dvd: "64 dvd length f" by (rule full_rest)
    define buf where "buf = rest_of m @ take n input"
    have len: "length buf = 64" using assms lt n by (simp add: buf_def n_def)
    have wr: "write_at (sha_buffer ctx) (unat left) (take n input) = Some buf"
      using assms n lt by (simp add: write_at_def holds_def buf_def n_def)
    have "holds (ctx\<lparr>sha_buffer := buf\<rparr>) f"
      using assms(1) dvd len fips_hash_short [OF dvd, of "rest_of m"] f
      by (simp add: holds_def rest_of_dvd)
    then have "holds (utils_sha256_process (ctx\<lparr>sha_buffer := buf\<rparr>) buf) (f @ buf)"
      using dvd len by (rule holds_block)
    moreover have "f @ buf = m @ take n input" using f by (simp add: buf_def)
    moreover have "64 dvd length (f @ buf)" using dvd len by simp
    moreover have "64 - left = of_nat n" by (simp flip: n(3))
    ultimately show ?thesis
      using True n wr assms(3)
      by (auto simp: sha_fill_def Let_def read_range_def intro!: exI [of _ n] dest: dvd_imp_mod_0)
  qed
qed

lemma sha_tail_holds:
  assumes "holds ctx m" and "unat left = length m mod 64"
    and "pos + unat ilen \<le> length input" and "unat ilen + unat left < 64"
  shows "\<exists>ctx'. sha_tail ctx input pos ilen left = Some ctx'
           \<and> holds ctx' (m @ take (unat ilen) (drop pos input))
           \<and> total0 ctx' = total0 ctx \<and> total1 ctx' = total1 ctx"
proof (cases "ilen = 0")
  case True
  with assms show ?thesis by (simp add: sha_tail_def)
next
  case False
  define chunk where "chunk = take (unat ilen) (drop pos input)"
  have len: "length chunk = unat ilen" using assms(3) by (simp add: chunk_def)
  obtain f where f: "m = f @ rest_of m" and dvd: "64 dvd length f" by (rule full_rest)
  define buf where "buf = rest_of m @ chunk @ drop (unat left + unat ilen) (sha_buffer ctx)"
  have wr: "write_at (sha_buffer ctx) (unat left) chunk = Some buf"
    using assms len by (simp add: write_at_def holds_def buf_def)
  have short: "length (rest_of m @ chunk) < 64" using assms(2,4) len by simp
  have m: "m @ chunk = f @ (rest_of m @ chunk)" using f by (metis append.assoc)
  have "fips_hash_blocks (m @ chunk) = fips_hash_blocks m"
    using fips_hash_short [OF dvd short] fips_hash_short [OF dvd, of "rest_of m"] f m
    by (metis length_rest_of mod_less_divisor zero_less_numeral)
  moreover have "rest_of (m @ chunk) = rest_of m @ chunk"
    using m dvd short by (metis rest_of_append rest_of_short)
  moreover have "length (m @ chunk) mod 64 = length (rest_of m @ chunk)"
    using short calculation(2) length_rest_of by metis
  moreover have "length buf = 64" using assms len by (simp add: buf_def holds_def)
  ultimately have "holds (ctx\<lparr>sha_buffer := buf\<rparr>) (m @ chunk)"
    using assms(1) by (simp add: holds_def buf_def)
  then show ?thesis
    using False wr assms(3)
    by (auto simp: sha_tail_def read_range_def chunk_def word_gt_0)
qed

lemma utils_sha256_update_absorbs:
  assumes "absorbed ctx m" and "unat ilen \<le> length input"
  shows "\<exists>ctx'. utils_sha256_update ctx input ilen = Some ctx'
           \<and> absorbed ctx' (m @ take (unat ilen) input)"
proof (cases "ilen = 0")
  case True
  with assms show ?thesis by (simp add: utils_sha256_update_def)
next
  case False
  define left where "left = total0 ctx AND 0x3F"
  have h: "holds (sha_count ctx ilen) m" and c: "counts ctx (length m)"
    using assms(1) by (simp_all add: absorbed_def)
  have l: "unat left = length m mod 64" using c by (simp add: left_def counts_left)
  obtain c1 k left' where
    s1: "sha_fill (sha_count ctx ilen) input left ilen = Some (c1, k, ilen - of_nat k, left')"
    and k: "k \<le> unat ilen" and h1: "holds c1 (m @ take k input)"
    and l1: "unat left' = length (m @ take k input) mod 64"
    and t1: "total0 c1 = total0 (sha_count ctx ilen)" "total1 c1 = total1 (sha_count ctx ilen)"
    and d1: "64 dvd length (m @ take k input) \<or> (unat ilen - k) + unat left' < 64"
    using sha_fill_holds [OF h l assms(2)] by blast
  have u1: "unat (ilen - of_nat k) = unat ilen - k"
    using k by (rule unat_minus_of_nat)
  have P: "k + unat (ilen - of_nat k) \<le> length input" using u1 k assms(2) by simp
  have D: "64 dvd length (m @ take k input) \<or> unat (ilen - of_nat k) < 64" using d1 u1 by auto
  obtain c2 j where
    s2: "sha_blocks c1 input k (ilen - of_nat k) = Some (c2, k + j, ilen - of_nat k - of_nat j)"
    and j: "j \<le> unat ilen - k" "unat ilen - k - j < 64"
    and h2: "holds c2 ((m @ take k input) @ take j (drop k input))"
    and t2: "total0 c2 = total0 c1" "total1 c2 = total1 c1"
    and d2: "64 dvd length (m @ take k input) \<longrightarrow> 64 dvd j" "unat ilen - k < 64 \<longrightarrow> j = 0"
    using sha_blocks_holds [OF h1 P D] unfolding u1 by blast
  have m2: "(m @ take k input) @ take j (drop k input) = m @ take (k + j) input"
    by (simp add: take_add)
  have u2: "unat (ilen - of_nat k - of_nat j) = unat ilen - k - j"
    using j u1 unat_minus_of_nat [of j "ilen - of_nat k"] by simp
  have l2: "unat left' = length (m @ take (k + j) input) mod 64"
  proof (cases "j = 0")
    case True
    then show ?thesis using l1 by simp
  next
    case False
    then have dv: "64 dvd length (m @ take k input)" "64 dvd j" using d1 d2 u1 by auto
    have "length (m @ take (k + j) input) = length (m @ take k input) + j"
      using k j assms(2) by simp
    then have "64 dvd length (m @ take (k + j) input)" using dv by (metis dvd_add)
    then show ?thesis using l1 dv by (metis dvd_imp_mod_0)
  qed
  have "unat (ilen - of_nat k - of_nat j) + unat left' < 64"
    using d1
  proof
    assume "64 dvd length (m @ take k input)"
    then have "unat left' = 0" using l1 by (metis dvd_imp_mod_0)
    then show ?thesis using u2 j(2) by linarith
  next
    assume a: "unat ilen - k + unat left' < 64"
    then have "j = 0" using d2(2) by linarith
    then show ?thesis using a u2 by linarith
  qed
  then obtain c3 where
    s3: "sha_tail c2 input (k + j) (ilen - of_nat k - of_nat j) left' = Some c3"
    and h3: "holds c3 ((m @ take (k + j) input) @ take (unat ilen - k - j) (drop (k + j) input))"
    and t3: "total0 c3 = total0 c2" "total1 c3 = total1 c2"
    using sha_tail_holds [of c2 "m @ take (k + j) input" left' "k + j" "ilen - of_nat k - of_nat j" input]
      h2 m2 l2 u2 k j assms(2) by auto
  have "(m @ take (k + j) input) @ take (unat ilen - k - j) (drop (k + j) input) = m @ take (unat ilen) input"
    using k j by (simp flip: take_add)
  then have "absorbed c3 (m @ take (unat ilen) input)"
    using h3 sha_count_counts [OF c, of ilen] t1 t2 t3 assms(2)
    by (simp add: absorbed_def counts_def)
  then show ?thesis
    using False s1 s2 s3 by (simp add: utils_sha256_update_def left_def Let_def)
qed

subsection \<open>Finishing\<close>

lemma counts_words:
  assumes "counts ctx n"
  shows "total0 ctx = ucast (of_nat n :: 64 word)"
    and "total1 ctx = ucast (drop_bit 32 (of_nat n :: 64 word))"
proof -
  have "unat (total0 ctx) = unat (ucast (of_nat n :: 64 word) :: u32)"
    using assms by (simp add: counts_def unsigned_ucast_eq unat_of_nat take_bit_eq_mod mod_mod_cancel)
  then show "total0 ctx = ucast (of_nat n :: 64 word)" by (simp only: unsigned_word_eqI)
  have "n mod 2 ^ 64 div 2 ^ 32 = n div 2 ^ 32 mod 2 ^ 32"
    using mod_mult2_eq [of n "2 ^ 32" "2 ^ 32"] by simp
  moreover have "unat (drop_bit 32 (of_nat n :: 64 word)) = n mod 2 ^ 64 div 2 ^ 32"
    by (simp add: drop_bit_eq_div unat_div_distrib unat_of_nat)
  ultimately have "unat (total1 ctx) = unat (ucast (drop_bit 32 (of_nat n :: 64 word)) :: u32)"
    using assms by (simp add: counts_def unsigned_ucast_eq take_bit_eq_mod del: drop_bit_of_nat)
  then show "total1 ctx = ucast (drop_bit 32 (of_nat n :: 64 word))" by (simp only: unsigned_word_eqI)
qed

lemma upt_8: "[0..<8] = [0, 1, 2, 3, 4, 5, 6, 7::nat]"
  by (simp add: upt_rec)

lemma msglen_be64:
  assumes "counts ctx n"
  shows "PUT_UINT32_BE (drop_bit 29 (total0 ctx) OR push_bit 3 (total1 ctx))
       @ PUT_UINT32_BE (push_bit 3 (total0 ctx)) = be64 (of_nat (8 * n))"
proof -
  define T where "T = (of_nat n :: 64 word)"
  have t: "total0 ctx = ucast T" "total1 ctx = ucast (drop_bit 32 T)"
    using counts_words [OF assms] by (simp_all add: T_def)
  have w: "(of_nat (8 * n) :: 64 word) = push_bit 3 T"
    by (simp add: T_def push_bit_eq_mult)
  have high: "drop_bit 29 (ucast T) OR push_bit 3 (ucast (drop_bit 32 T)) = (ucast (drop_bit 32 (push_bit 3 T)) :: u32)"
    by (rule bit_word_eqI) (auto simp: bit_simps not_le dest: bit_imp_le_length)
  have low: "push_bit 3 (ucast T) = (ucast (push_bit 3 T) :: u32)"
    by (rule bit_word_eqI) (auto simp: bit_simps)
  have "PUT_UINT32_BE (ucast (drop_bit 32 W)) @ PUT_UINT32_BE (ucast W) = be64 W" for W
    unfolding PUT_UINT32_BE_def be64_def upt_8
    by (simp, intro conjI; rule bit_word_eqI; simp add: bit_simps)
  then show ?thesis unfolding t w high low .
qed

lemma padding_length:
  assumes "unat rest = n mod 64"
  shows "unat (if rest < 56 then 56 - rest else 120 - rest :: u32) = 1 + zero_pad n"
proof -
  have "n mod 64 < 64" by simp
  then have z: "zero_pad n = (if n mod 64 < 56 then 55 - n mod 64 else 119 - n mod 64)"
    unfolding zero_pad_def
    by (cases "n mod 64 < 56") (simp_all add: le_mod_geq)
  have "rest < 56 \<longleftrightarrow> n mod 64 < 56" by (simp add: word_less_nat_alt assms)
  moreover have "rest < 56 \<Longrightarrow> unat (56 - rest) = 56 - n mod 64"
    by (simp add: unat_sub less_imp_le assms)
  moreover have "unat (120 - rest) = 120 - n mod 64"
    using \<open>n mod 64 < 64\<close> by (simp add: unat_sub word_le_nat_alt assms)
  ultimately show ?thesis
    using z \<open>n mod 64 < 64\<close> by (cases "n mod 64 < 56") (simp, linarith, simp)
qed

lemma take_sha256_padding: "k < 64 \<Longrightarrow> take (Suc k) sha256_padding = 0x80 # replicate k 0"
  by (simp add: sha256_padding_def)

lemma zero_pad_less: "zero_pad n < 64"
  by (simp add: zero_pad_def)

lemma length_PUT [simp]: "length (PUT_UINT32_BE w) = 4"
  by (simp add: PUT_UINT32_BE_def)

lemma length_concat_PUT [simp]: "length (concat (map PUT_UINT32_BE ws)) = 4 * length ws"
  by (induction ws) auto

lemma length_fips_sha256 [simp]: "length (fips_sha256 m) = 32"
  by (simp add: fips_sha256_def)

lemma sha_digest_holds:
  assumes "holds ctx (fips_pad m)"
  shows "sha_digest ctx = fips_sha256 m"
proof -
  let ?st = "fips_hash_blocks (fips_pad m)"
  have "take 7 ?st @ [?st ! 7] = ?st"
    by (simp flip: take_Suc_conv_app_nth)
  then have "concat (map PUT_UINT32_BE ?st) = concat (map PUT_UINT32_BE (take 7 ?st @ [?st ! 7]))"
    by simp
  then show ?thesis
    using assms by (simp add: sha_digest_def holds_def fips_sha256_def)
qed

lemma utils_sha256_finish_digest:
  assumes "absorbed ctx m" and "32 \<le> length out"
  shows "\<exists>ctx'. utils_sha256_finish ctx out = Some (ctx', fips_sha256 m @ drop 32 out)"
proof -
  define rest where "rest = total0 ctx AND 0x3F"
  define padn where "padn = (if rest < 56 then 56 - rest else 120 - rest)"
  define msglen where "msglen = PUT_UINT32_BE (drop_bit 29 (total0 ctx) OR push_bit 3 (total1 ctx))
       @ PUT_UINT32_BE (push_bit 3 (total0 ctx))"
  have c: "counts ctx (length m)" using assms(1) by (simp add: absorbed_def)
  have "unat rest = length m mod 64" unfolding rest_def using c by (rule counts_left)
  from padding_length [OF this] have padn: "unat padn = Suc (zero_pad (length m))"
    unfolding padn_def plus_1_eq_Suc .
  have "unat padn \<le> length sha256_padding"
    using padn zero_pad_less [of "length m"] by (simp add: sha256_padding_def)
  then obtain c1 where s1: "utils_sha256_update ctx sha256_padding padn = Some c1"
    and a1: "absorbed c1 (m @ 0x80 # replicate (zero_pad (length m)) 0)"
    using utils_sha256_update_absorbs [OF assms(1)] padn zero_pad_less [of "length m"]
    by (metis take_sha256_padding)
  have "length msglen = 8" by (simp add: msglen_def)
  then obtain c2 where s2: "utils_sha256_update c1 msglen 8 = Some c2"
    and a2: "absorbed c2 ((m @ 0x80 # replicate (zero_pad (length m)) 0) @ msglen)"
    using utils_sha256_update_absorbs [OF a1, of 8 msglen] by auto
  have "(m @ 0x80 # replicate (zero_pad (length m)) 0) @ msglen = fips_pad m"
    using msglen_be64 [OF c] by (simp add: fips_pad_def msglen_def)
  then have "sha_digest c2 = fips_sha256 m"
    using a2 by (simp add: absorbed_def sha_digest_holds)
  then have "write_at out 0 (sha_digest c2) = Some (fips_sha256 m @ drop 32 out)"
    using assms(2) by (simp add: write_at_def)
  then show ?thesis
    unfolding utils_sha256_finish_def
    by (simp only: Let_def s1 s2 bind.bind_lunit flip: rest_def padn_def msglen_def) simp
qed

lemma starts_absorbed: "absorbed (utils_sha256_starts (utils_sha256_init ctx)) []"
  by (simp add: absorbed_def holds_def counts_def utils_sha256_starts_def utils_sha256_init_def
      fips_hash_blocks_def blocks_of_short rest_of_def)

subsection \<open>The interface\<close>

locale stream_hash =
  fixes start :: "'c \<Rightarrow> 'c"
    and update :: "'c \<Rightarrow> bytes \<Rightarrow> u32 \<Rightarrow> 'c option"
    and finish :: "'c \<Rightarrow> bytes \<Rightarrow> ('c \<times> bytes) option"
    and represents :: "'c \<Rightarrow> bytes \<Rightarrow> bool"
    and hash :: "bytes \<Rightarrow> bytes"
    and size :: nat
  assumes start_represents: "represents (start c) []"
    and update_represents: "represents c m \<Longrightarrow> unat n \<le> length input \<Longrightarrow>
          \<exists>c'. update c input n = Some c' \<and> represents c' (m @ take (unat n) input)"
    and finish_hash: "represents c m \<Longrightarrow> size \<le> length out \<Longrightarrow>
          \<exists>c'. finish c out = Some (c', hash m @ drop size out)"
    and hash_size: "length (hash m) = size"
begin

lemma one_pass:
  \<comment> \<open>start, one update, finish\<close>
  assumes "unat n \<le> length input" and "size \<le> length out"
  shows "\<exists>c1 c2. update (start c) input n = Some c1
     \<and> finish c1 out = Some (c2, hash (take (unat n) input) @ drop size out)"
  using update_represents [OF start_represents assms(1)] finish_hash [OF _ assms(2)] by fastforce

lemma two_pass:
  \<comment> \<open>start, two updates, finish\<close>
  assumes "unat n \<le> length xs" and "unat k \<le> length ys" and "size \<le> length out"
  shows "\<exists>c1 c2 c3. update (start c) xs n = Some c1 \<and> update c1 ys k = Some c2
     \<and> finish c2 out = Some (c3, hash (take (unat n) xs @ take (unat k) ys) @ drop size out)"
proof -
  obtain c1 where "update (start c) xs n = Some c1" and r1: "represents c1 (take (unat n) xs)"
    using update_represents [OF start_represents assms(1)] by auto
  moreover obtain c2 where "update c1 ys k = Some c2"
    and r2: "represents c2 (take (unat n) xs @ take (unat k) ys)"
    using update_represents [OF r1 assms(2)] by auto
  moreover note finish_hash [OF r2 assms(3)]
  ultimately show ?thesis by blast
qed

end

interpretation sha: stream_hash
  "\<lambda>c. utils_sha256_starts (utils_sha256_init c)" utils_sha256_update utils_sha256_finish
  absorbed fips_sha256 32
  by unfold_locales
    (auto simp: starts_absorbed utils_sha256_update_absorbs utils_sha256_finish_digest)

subsection \<open>Properties\<close>

text \<open>
  C2: \<open>utils_sha256\<close> is the SHA-256 of FIPS 180-4: on any input of \<open>ilen\<close> bytes it stays
  inside its objects and stores in the first 32 bytes of \<open>output\<close> the digest of the standard
  (padding, message schedule, compression), whatever the uninitialised context held.
\<close>

theorem utils_sha256_fips:
  assumes "unat ilen \<le> length input" and "32 \<le> length out"
  shows "utils_sha256 ctx input ilen out = Some (fips_sha256 (take (unat ilen) input) @ drop 32 out)"
proof -
  obtain c1 c2 where "utils_sha256_update (utils_sha256_starts (utils_sha256_init ctx)) input ilen = Some c1"
    and "utils_sha256_finish c1 out = Some (c2, fips_sha256 (take (unat ilen) input) @ drop 32 out)"
    using sha.one_pass [OF assms] by blast
  then show ?thesis by (simp add: utils_sha256_def Let_def)
qed

theorem utils_sha256_fips_witness:
  "utils_sha256 \<lparr>total0 = 1, total1 = 2, sha_state = [], sha_buffer = [], is224 = 5\<rparr>
     [97, 98, 99, 100] 3 (replicate 33 7) = Some (fips_sha256 (take (unat (3 :: u32)) [97, 98, 99, 100]) @ drop 32 (replicate 33 7))"
  by (rule utils_sha256_fips) simp_all

fun absorb_chunks :: "iot_sha256_context \<Rightarrow> bytes list \<Rightarrow> iot_sha256_context option" where
  "absorb_chunks ctx [] = Some ctx"
| "absorb_chunks ctx (c # cs) = do { ctx \<leftarrow> utils_sha256_update ctx c (of_nat (length c)); absorb_chunks ctx cs }"

lemma absorb_chunks_absorbed:
  assumes "absorbed ctx m" and "\<forall>c \<in> set cs. length c < 2 ^ 32"
  shows "\<exists>ctx'. absorb_chunks ctx cs = Some ctx' \<and> absorbed ctx' (m @ concat cs)"
  using assms
proof (induction cs arbitrary: ctx m)
  case Nil
  then show ?case by simp
next
  case (Cons c cs)
  have "unat (of_nat (length c) :: u32) = length c"
    using Cons.prems(2) by (simp add: unat_of_nat)
  then obtain c1 where "utils_sha256_update ctx c (of_nat (length c)) = Some c1" and "absorbed c1 (m @ c)"
    using utils_sha256_update_absorbs [OF Cons.prems(1), of "of_nat (length c)" c] by auto
  with Cons.IH [of c1 "m @ c"] Cons.prems(2) show ?case by auto
qed

text \<open>
  C3: streaming does not depend on how the message is cut: feeding any list of chunks (each
  shorter than \<open>2 ^ 32\<close> bytes, empty ones included) to a started context and finishing gives
  the digest of their concatenation.
\<close>

theorem sha256_chunking:
  assumes "\<forall>c \<in> set cs. length c < 2 ^ 32" and "32 \<le> length out"
  shows "\<exists>c1 c2. absorb_chunks (utils_sha256_starts (utils_sha256_init ctx)) cs = Some c1
           \<and> utils_sha256_finish c1 out = Some (c2, fips_sha256 (concat cs) @ drop 32 out)"
proof -
  obtain c1 where "absorb_chunks (utils_sha256_starts (utils_sha256_init ctx)) cs = Some c1"
    and "absorbed c1 (concat cs)"
    using absorb_chunks_absorbed [OF starts_absorbed assms(1)] by auto
  then show ?thesis using sha.finish_hash [OF _ assms(2)] by blast
qed

theorem sha256_chunking_witness:
  "\<exists>c1 c2. absorb_chunks (utils_sha256_starts (utils_sha256_init
        \<lparr>total0 = 1, total1 = 2, sha_state = [], sha_buffer = [], is224 = 5\<rparr>)) [[97], [], [98, 99]] = Some c1
     \<and> utils_sha256_finish c1 (replicate 32 0) = Some (c2, fips_sha256 (concat [[97], [], [98, 99]]) @ drop 32 (replicate 32 0))"
  by (rule sha256_chunking) simp_all

subsection \<open>The constants\<close>

definition first_primes :: "nat \<Rightarrow> int list" where
  \<comment> \<open>the primes below \<open>n\<close>, for \<open>n \<le> 361\<close>: no divisor up to the square root\<close>
  "first_primes n =
     filter (\<lambda>p. list_all (\<lambda>d. p mod d \<noteq> 0) (takeWhile (\<lambda>d. d * d \<le> p) [2..18])) [2..int n - 1]"

definition root_fraction :: "nat \<Rightarrow> int \<Rightarrow> u32 \<Rightarrow> bool" where
  \<comment> \<open>\<open>k\<close> is the first 32 bits of the fractional part of the \<open>e\<close>-th root of \<open>p\<close>: for some
     integral part \<open>r\<close>, \<open>r * 2 ^ 32 + k\<close> is the root of \<open>p * 2 ^ (32 * e)\<close> rounded down\<close>
  "root_fraction e p k = list_ex (\<lambda>r. let c = r * 2 ^ 32 + uint k in c ^ e \<le> p * 2 ^ (32 * e) \<and> p * 2 ^ (32 * e) < (c + 1) ^ e) [1..6]"

text \<open>
  The tables are the constants of the standard: the 64 words of \<open>K\<close> are the first 32 bits
  of the fractional parts of the cube roots of the first 64 primes, and the initial state is
  that of the square roots of the first eight.
\<close>

lemma sha256_constants:
  "list_all2 (root_fraction 3) (first_primes 312) sha_K
   \<and> list_all2 (root_fraction 2) (first_primes 20) sha_H0"
  by code_simp

end
