(* ===== verification/MqttSign.thy ===== *)
theory MqttSign
  imports Sha256Stream
begin

text \<open>
  The rest of \<open>mqtt/aliyun_auth.c\<close>: HMAC-SHA256, the hexadecimal printer and
  \<open>aiotMqttSign\<close>, which derives the MQTT client id, user name and password of a device.

  A pointer argument is \<open>None\<close> for \<open>NULL\<close> and otherwise the object it points to; the
  \<open>None\<close> of a result is undefined behaviour (an access outside an object).
\<close>

unbundle bit_operations_syntax

subsection \<open>HMAC\<close>

definition xor_all :: "u8 \<Rightarrow> bytes \<Rightarrow> bytes" where
  \<comment> \<open>the loop \<open>for (i = 0; i < 64; i++) k_ipad[i] ^= c\<close>\<close>
  "xor_all c ks = map (\<lambda>x. x XOR c) ks"

definition utils_hmac_sha256 ::
    "iot_sha256_context \<Rightarrow> bytes option \<Rightarrow> u32 \<Rightarrow> bytes option \<Rightarrow> u32 \<Rightarrow> bytes option
     \<Rightarrow> bytes option option" where
  \<comment> \<open>the result is the output object after the call; the first argument is the uninitialised
     context\<close>
  "utils_hmac_sha256 context msg msg_len key key_len out =
     (case (msg, key, out) of
        (Some msg, Some key, Some out) \<Rightarrow>
          if key_len > 64 then Some (Some out)
          else do {
            key' \<leftarrow> read_range key 0 (unat key_len);
            k_ipad \<leftarrow> write_at (replicate 64 0) 0 key';
            k_opad \<leftarrow> write_at (replicate 64 0) 0 key';
            let k_ipad = xor_all 0x36 k_ipad;
            let k_opad = xor_all 0x5c k_opad;
            let context = utils_sha256_starts (utils_sha256_init context);
            context \<leftarrow> utils_sha256_update context k_ipad 64;
            context \<leftarrow> utils_sha256_update context msg msg_len;
            (context, out) \<leftarrow> utils_sha256_finish context out;
            let context = utils_sha256_starts (utils_sha256_init context);
            context \<leftarrow> utils_sha256_update context k_opad 64;
            context \<leftarrow> utils_sha256_update context out 32;
            (context, out) \<leftarrow> utils_sha256_finish context out;
            Some (Some out) }
      | _ \<Rightarrow> Some out)"

definition hmac_key :: "bytes \<Rightarrow> bytes" where
  \<comment> \<open>RFC 2104: the key filled with zeros to the block length\<close>
  "hmac_key k = k @ replicate (64 - length k) 0"

definition rfc_hmac :: "bytes \<Rightarrow> bytes \<Rightarrow> bytes" where
  "rfc_hmac k m =
     fips_sha256 (xor_all 0x5c (hmac_key k) @ fips_sha256 (xor_all 0x36 (hmac_key k) @ m))"

lemma length_xor_all [simp]: "length (xor_all c ks) = length ks"
  by (simp add: xor_all_def)

lemma length_rfc_hmac [simp]: "length (rfc_hmac k m) = 32"
  by (simp add: rfc_hmac_def)

lemma utils_hmac_sha256_rfc:
  assumes "length key = unat key_len" and "unat key_len \<le> 64"
    and "unat msg_len \<le> length msg" and "32 \<le> length out"
  shows "utils_hmac_sha256 c (Some msg) msg_len (Some (key @ slack)) key_len (Some out)
       = Some (Some (rfc_hmac key (take (unat msg_len) msg) @ drop 32 out))"
proof -
  have small: "\<not> key_len > 64" using assms(2) by (simp add: word_less_nat_alt)
  have rd: "read_range (key @ slack) 0 (unat key_len) = Some key"
    using assms(1) by (simp add: read_range_def)
  have pad: "write_at (replicate 64 0) 0 key = Some (hmac_key key)"
    using assms(1,2) by (simp add: write_at_def hmac_key_def)
  have len: "length (xor_all b (hmac_key key)) = 64" for b
    using assms(1,2) by (simp add: hmac_key_def)
  obtain c1 c2 c3 where
    inner: "utils_sha256_update (utils_sha256_starts (utils_sha256_init c)) (xor_all 0x36 (hmac_key key)) 64 = Some c1"
      "utils_sha256_update c1 msg msg_len = Some c2"
      "utils_sha256_finish c2 out
         = Some (c3, fips_sha256 (xor_all 0x36 (hmac_key key) @ take (unat msg_len) msg) @ drop 32 out)"
    using sha.two_pass [of 64 "xor_all 0x36 (hmac_key key)" msg_len msg out c] assms(3,4) len [of "0x36"]
    by auto
  define out1 where
    "out1 = fips_sha256 (xor_all 0x36 (hmac_key key) @ take (unat msg_len) msg) @ drop 32 out"
  have out1: "32 \<le> length out1" "take 32 out1 = fips_sha256 (xor_all 0x36 (hmac_key key) @ take (unat msg_len) msg)"
    "drop 32 out1 = drop 32 out"
    by (simp_all add: out1_def)
  obtain c4 c5 c6 where
    outer: "utils_sha256_update (utils_sha256_starts (utils_sha256_init c3)) (xor_all 0x5c (hmac_key key)) 64 = Some c4"
      "utils_sha256_update c4 out1 32 = Some c5"
      "utils_sha256_finish c5 out1 = Some (c6, rfc_hmac key (take (unat msg_len) msg) @ drop 32 out)"
    using sha.two_pass [of 64 "xor_all 0x5c (hmac_key key)" 32 out1 out1 c3] out1 len [of "0x5c"]
    by (auto simp: rfc_hmac_def)
  show ?thesis
    unfolding utils_hmac_sha256_def
    using small inner outer by (simp add: rd pad Let_def flip: out1_def)
qed

lemma utils_hmac_sha256_long_key:
  "key_len > 64 \<Longrightarrow> utils_hmac_sha256 c (Some msg) msg_len (Some key) key_len (Some out) = Some (Some out)"
  by (simp add: utils_hmac_sha256_def)

subsection \<open>Hexadecimal\<close>

definition zEncode :: bytes where
  "zEncode = cstr ''0123456789ABCDEF''"

fun hex2str :: "bytes \<Rightarrow> nat \<Rightarrow> nat \<Rightarrow> bytes \<Rightarrow> nat \<Rightarrow> bytes option" where
  \<comment> \<open>\<open>_hex2str\<close> with \<open>n\<close> bytes left to read at \<open>input + i\<close> and the next output position \<open>j\<close>\<close>
  "hex2str input i 0 out j = Some out"
| "hex2str input i (Suc n) out j = do {
     b \<leftarrow> read_at input i;
     out \<leftarrow> write_at out j [zEncode ! unat (drop_bit 4 b AND 0xf)];
     out \<leftarrow> write_at out (Suc j) [zEncode ! unat (b AND 0xf)];
     hex2str input (Suc i) n out (j + 2) }"

definition hex_upper :: "bytes \<Rightarrow> bytes" where
  \<comment> \<open>two upper-case digits per byte, the high nibble first\<close>
  "hex_upper bs = concat (map (\<lambda>b. [zEncode ! (unat b div 16), zEncode ! (unat b mod 16)]) bs)"

lemma length_hex_upper [simp]: "length (hex_upper bs) = 2 * length bs"
  by (induction bs) (auto simp: hex_upper_def)

lemma nibbles:
  "unat (drop_bit 4 b AND 0xf) = unat (b :: u8) div 16" "unat (b AND 0xf) = unat b mod 16"
proof -
  have m: "x AND 0xf = take_bit 4 x" for x :: u8
    by (simp add: take_bit_eq_mask mask_eq_exp_minus_1)
  show "unat (b AND 0xf) = unat b mod 16"
    by (simp only: m unsigned_take_bit_eq) (simp add: take_bit_eq_mod)
  have "unat b < 256" using unsigned_less [of b] by simp
  then have "unat b div 16 < 16" by simp
  moreover have "unat (drop_bit 4 b AND 0xf) = unat b div 16 mod 16"
    by (simp only: m unsigned_take_bit_eq unat_drop_bit_eq) (simp add: take_bit_eq_mod drop_bit_eq_div)
  ultimately show "unat (drop_bit 4 b AND 0xf) = unat b div 16" by simp
qed

lemma high_nibble [simp]: "unat (drop_bit 4 b) mod 16 = unat (b :: u8) div 16"
  using nibbles(1) [of b] nibbles(2) [of "drop_bit 4 b"] by simp

lemma hex2str_hex_upper:
  assumes "i + n \<le> length input" and "j + 2 * n \<le> length out"
  shows "hex2str input i n out j
       = Some (take j out @ hex_upper (take n (drop i input)) @ drop (j + 2 * n) out)"
  using assms
proof (induction n arbitrary: i j out)
  case 0
  then show ?case by (simp add: hex_upper_def)
next
  case (Suc n)
  define d where "d = [zEncode ! (unat (input ! i) div 16), zEncode ! (unat (input ! i) mod 16)]"
  define out' where "out' = take j out @ d @ drop (j + 2) out"
  have "take (Suc n) (drop i input) = input ! i # take n (drop (Suc i) input)"
    using Suc.prems(1) by (simp add: Cons_nth_drop_Suc [symmetric])
  then have hex: "hex_upper (take (Suc n) (drop i input)) = d @ hex_upper (take n (drop (Suc i) input))"
    by (simp add: hex_upper_def d_def)
  have j: "Suc j \<le> length out - Suc 0" "j + 2 \<le> length out" using Suc.prems by simp_all
  have "hex2str input i (Suc n) out j = hex2str input (Suc i) n out' (j + 2)"
    using Suc.prems(1) j
    by (simp add: read_at_def write_at_def out'_def d_def min_absorb2 nibbles(2))
  also have "\<dots> = Some (take (j + 2) out' @ hex_upper (take n (drop (Suc i) input)) @ drop (j + 2 + 2 * n) out')"
    using Suc.prems by (intro Suc.IH) (simp_all add: out'_def d_def)
  finally show ?case
    using Suc.prems hex by (simp add: out'_def d_def add.commute)
qed

subsection \<open>The credentials of a device\<close>

definition PRODUCTKEY_MAXLEN :: nat where "PRODUCTKEY_MAXLEN = 20"
definition DEVICENAME_MAXLEN :: nat where "DEVICENAME_MAXLEN = 32"
definition DEVICESECRET_MAXLEN :: nat where "DEVICESECRET_MAXLEN = 64"
definition SIGN_SOURCE_MAXLEN :: nat where "SIGN_SOURCE_MAXLEN = 200"
definition PASSWORD_MAXLEN :: nat where "PASSWORD_MAXLEN = 65"

definition TIMESTAMP_VALUE :: bytes where
  "TIMESTAMP_VALUE = cstr ''2524608000000''"

definition MQTT_CLINETID_KV :: bytes where
  "MQTT_CLINETID_KV =
     cstr ''|timestamp=2524608000000,_v=paho-c-1.0.0,securemode=3,signmethod=hmacsha256,lan=C|''"

definition copy_str :: "bytes \<Rightarrow> nat \<Rightarrow> bytes \<Rightarrow> bytes option" where
  \<comment> \<open>\<open>memcpy (dst + i, src, strlen (src))\<close>\<close>
  "copy_str dst i src = do { n \<leftarrow> c_strlen src; s \<leftarrow> read_range src 0 n; write_at dst i s }"

definition append_str :: "bytes \<Rightarrow> bytes \<Rightarrow> bytes option" where
  \<comment> \<open>\<open>memcpy (dst + strlen (dst), src, strlen (src))\<close>\<close>
  "append_str dst src = do { n \<leftarrow> c_strlen dst; copy_str dst n src }"

definition lit :: "bytes \<Rightarrow> bytes" where
  \<comment> \<open>the object of a string literal\<close>
  "lit s = s @ [0]"

type_synonym credentials = "bytes option \<times> bytes option \<times> bytes option"

definition sign_device_id :: "bytes \<Rightarrow> bytes \<Rightarrow> bytes option" where
  \<comment> \<open>lines 62-64\<close>
  "sign_device_id productKey deviceName = do {
     let deviceId = replicate (PRODUCTKEY_MAXLEN + DEVICENAME_MAXLEN + 2) 0;
     deviceId \<leftarrow> copy_str deviceId 0 deviceName;
     deviceId \<leftarrow> append_str deviceId (lit (cstr ''&''));
     append_str deviceId productKey }"

definition sign_source :: "bytes \<Rightarrow> bytes \<Rightarrow> bytes \<Rightarrow> bytes option" where
  \<comment> \<open>lines 76-83\<close>
  "sign_source deviceId deviceName productKey = do {
     macSrc \<leftarrow> copy_str (replicate SIGN_SOURCE_MAXLEN 0) 0 (lit (cstr ''clientId''));
     macSrc \<leftarrow> append_str macSrc deviceId;
     macSrc \<leftarrow> append_str macSrc (lit (cstr ''deviceName''));
     macSrc \<leftarrow> append_str macSrc deviceName;
     macSrc \<leftarrow> append_str macSrc (lit (cstr ''productKey''));
     macSrc \<leftarrow> append_str macSrc productKey;
     macSrc \<leftarrow> append_str macSrc (lit (cstr ''timestamp''));
     append_str macSrc (lit TIMESTAMP_VALUE) }"

definition aiotMqttSign ::
    "iot_sha256_context \<Rightarrow> bytes option \<Rightarrow> bytes option \<Rightarrow> bytes option \<Rightarrow> credentials
     \<Rightarrow> (int \<times> credentials) option" where
  "aiotMqttSign ctx productKey deviceName deviceSecret bufs =
     (case (productKey, deviceName, deviceSecret, bufs) of
        (Some productKey, Some deviceName, Some deviceSecret, Some clientId, Some username, Some password) \<Rightarrow> do {
          n_pk \<leftarrow> c_strlen productKey;
          n_dn \<leftarrow> c_strlen deviceName;
          n_ds \<leftarrow> c_strlen deviceSecret;
          if n_pk > PRODUCTKEY_MAXLEN \<or> n_dn > DEVICENAME_MAXLEN \<or> n_ds > DEVICESECRET_MAXLEN
          then Some (-1, bufs)
          else do {
            deviceId \<leftarrow> sign_device_id productKey deviceName;
            n_id \<leftarrow> c_strlen deviceId;
            clientId \<leftarrow> copy_str clientId 0 deviceId;
            clientId \<leftarrow> copy_str clientId n_id (lit MQTT_CLINETID_KV);
            clientId \<leftarrow> write_at clientId (n_id + length MQTT_CLINETID_KV) [0];
            username \<leftarrow> copy_str username 0 deviceId;
            username \<leftarrow> write_at username n_id [0];
            macSrc \<leftarrow> sign_source deviceId deviceName productKey;
            n_src \<leftarrow> c_strlen macSrc;
            macRes \<leftarrow> utils_hmac_sha256 ctx (Some macSrc) (of_nat n_src)
                        (Some deviceSecret) (of_nat n_ds) (Some (replicate 32 0));
            password \<leftarrow> write_at password 0 (replicate PASSWORD_MAXLEN 0);
            password \<leftarrow> hex2str (the macRes) 0 32 password 0;
            Some (0, Some clientId, Some username, Some password) } }
      | _ \<Rightarrow> Some (-1, bufs))"

definition sign_max :: "bytes \<Rightarrow> nat \<Rightarrow> bool" where
  \<comment> \<open>a C string of at most \<open>n\<close> bytes\<close>
  "sign_max s n \<longleftrightarrow> c_string s \<and> length s \<le> n"

definition device_id :: "bytes \<Rightarrow> bytes \<Rightarrow> bytes" where
  "device_id pk dn = dn @ cstr ''&'' @ pk"

definition mac_source :: "bytes \<Rightarrow> bytes \<Rightarrow> bytes" where
  "mac_source pk dn = cstr ''clientId'' @ device_id pk dn @ cstr ''deviceName'' @ dn
     @ cstr ''productKey'' @ pk @ cstr ''timestamp'' @ TIMESTAMP_VALUE"

lemma copy_str_eq [buf_simps]:
  "c_string s \<Longrightarrow> i + length s \<le> length dst \<Longrightarrow>
   copy_str dst i (s @ 0 # slack) = Some (take i dst @ s @ drop (i + length s) dst)"
  by (simp add: copy_str_def buf_simps read_range_def write_at_def)

lemma length_lits [simp]: "length TIMESTAMP_VALUE = 13" "length MQTT_CLINETID_KV = 82"
  by (simp_all add: TIMESTAMP_VALUE_def MQTT_CLINETID_KV_def)

definition zbuf :: "nat \<Rightarrow> bytes \<Rightarrow> bytes" where
  \<comment> \<open>an object of \<open>N\<close> bytes that holds \<open>s\<close>, zeros after it\<close>
  "zbuf N s = s @ replicate (N - length s) 0"

lemma zbuf_split: "length s < N \<Longrightarrow> zbuf N s = s @ 0 # replicate (N - length s - 1) 0"
  by (cases "N - length s") (simp_all add: zbuf_def)

lemma c_strlen_zbuf: "c_string s \<Longrightarrow> length s < N \<Longrightarrow> c_strlen (zbuf N s) = Some (length s)"
  by (simp add: zbuf_split c_strlen_append)

lemma copy_str_zbuf:
  "c_string s \<Longrightarrow> length s \<le> N \<Longrightarrow> copy_str (replicate N 0) 0 (s @ 0 # slack) = Some (zbuf N s)"
  by (simp add: copy_str_eq zbuf_def)

lemma append_str_zbuf:
  "c_string s \<Longrightarrow> c_string d \<Longrightarrow> length d + length s < N \<Longrightarrow>
   append_str (zbuf N d) (s @ 0 # slack) = Some (zbuf N (d @ s))"
  by (simp add: append_str_def c_strlen_zbuf) (simp add: zbuf_def copy_str_eq)

lemma append_str_zbuf_zbuf:
  "c_string s \<Longrightarrow> c_string d \<Longrightarrow> length d + length s < N \<Longrightarrow> length s < M \<Longrightarrow>
   append_str (zbuf N d) (zbuf M s) = Some (zbuf N (d @ s))"
  by (simp only: zbuf_split [of s M] append_str_zbuf)

lemmas zbuf_steps = copy_str_zbuf append_str_zbuf append_str_zbuf_zbuf

lemma c_string_cstr_lits [simp]:
  "c_string (cstr ''clientId'')" "c_string (cstr ''deviceName'')" "c_string (cstr ''productKey'')"
  "c_string (cstr ''timestamp'')" "c_string (cstr ''&'')" "c_string TIMESTAMP_VALUE"
  "c_string MQTT_CLINETID_KV"
  by (simp_all add: byte_of_def TIMESTAMP_VALUE_def MQTT_CLINETID_KV_def)

lemma sign_device_id_eq:
  assumes "sign_max pk 20" and "sign_max dn 32"
  shows "sign_device_id (pk @ 0 # s1) (dn @ 0 # s2) = Some (zbuf 54 (device_id pk dn))"
  using assms
  by (simp add: sign_device_id_def PRODUCTKEY_MAXLEN_def DEVICENAME_MAXLEN_def device_id_def
      sign_max_def lit_def zbuf_steps del: cstr_Cons)

lemma c_string_device_id:
  "sign_max pk 20 \<Longrightarrow> sign_max dn 32 \<Longrightarrow> c_string (device_id pk dn) \<and> length (device_id pk dn) \<le> 53"
  by (simp add: device_id_def sign_max_def del: cstr_Cons)

lemma sign_source_eq:
  assumes "sign_max pk 20" and "sign_max dn 32"
  shows "sign_source (zbuf 54 (device_id pk dn)) (dn @ 0 # s2) (pk @ 0 # s1)
       = Some (zbuf 200 (mac_source pk dn))"
  using assms c_string_device_id [OF assms]
  by (simp add: sign_source_def SIGN_SOURCE_MAXLEN_def mac_source_def
      sign_max_def lit_def zbuf_steps del: cstr_Cons)

lemma c_string_mac_source:
  "sign_max pk 20 \<Longrightarrow> sign_max dn 32 \<Longrightarrow> c_string (mac_source pk dn) \<and> length (mac_source pk dn) < 200"
  using c_string_device_id [of pk dn] by (simp add: mac_source_def sign_max_def del: cstr_Cons)

text \<open>
  C1: for a product key, a device name and a secret within the limits, \<open>aiotMqttSign\<close>
  returns 0, stays inside its buffers (\<open>deviceId[54]\<close>, \<open>macSrc[200]\<close> and the caller's
  three), and leaves in them the client id \<open>deviceName&productKey|timestamp=...|\<close>, the user
  name \<open>deviceName&productKey\<close>, and the 64 upper-case hexadecimal digits of the RFC 2104
  HMAC (over FIPS 180-4 SHA-256) of the signed source, each terminated by a NUL.
\<close>

theorem aiotMqttSign_signs:
  assumes "sign_max pk 20" and "sign_max dn 32" and "sign_max ds 64"
    and "150 \<le> length cid" and "64 \<le> length user" and "65 \<le> length pw"
  shows "\<exists>cid' user' pw'.
     aiotMqttSign ctx (Some (pk @ 0 # s1)) (Some (dn @ 0 # s2)) (Some (ds @ 0 # s3))
         (Some cid, Some user, Some pw) = Some (0, Some cid', Some user', Some pw')
     \<and> string_of_buf cid' = device_id pk dn @ MQTT_CLINETID_KV \<and> length cid' = length cid
     \<and> string_of_buf user' = device_id pk dn \<and> length user' = length user
     \<and> pw' = hex_upper (rfc_hmac ds (mac_source pk dn)) @ 0 # drop 65 pw"
proof -
  let ?id = "device_id pk dn"
  let ?kv = MQTT_CLINETID_KV
  let ?src = "mac_source pk dn"
  let ?mac = "rfc_hmac ds ?src"
  have lens: "length pk \<le> 20" "length dn \<le> 32" "length ds \<le> 64" "c_string pk" "c_string dn" "c_string ds"
    using assms by (simp_all add: sign_max_def)
  have id: "c_string ?id" "length ?id \<le> 53" using c_string_device_id assms by auto
  have src: "c_string ?src" "length ?src < 200" using c_string_mac_source assms by auto
  have kv: "length ?kv = 82" "c_string ?kv" by simp_all
  have idbuf: "zbuf 54 ?id = ?id @ 0 # replicate (53 - length ?id) 0"
    using id by (simp add: zbuf_split)
  define cid' where "cid' = ?id @ ?kv @ 0 # drop (length ?id + 83) cid"
  define user' where "user' = ?id @ 0 # drop (length ?id + 1) user"
  have c1: "copy_str cid 0 (zbuf 54 ?id) = Some (?id @ drop (length ?id) cid)"
    unfolding idbuf using id assms(4) by (simp add: copy_str_eq)
  have c2: "copy_str (?id @ drop (length ?id) cid) (length ?id) (lit ?kv)
      = Some (?id @ ?kv @ drop (length ?id + 82) cid)"
    using id kv assms(4) by (simp add: lit_def copy_str_eq add.commute)
  have c3: "write_at (?id @ ?kv @ drop (length ?id + 82) cid) (length ?id + length ?kv) [0] = Some cid'"
    using write_at_append [of "[0]" "drop (length ?id + 82) cid" "?id @ ?kv"] id assms(4)
    by (simp add: cid'_def add.commute)
  have u1: "copy_str user 0 (zbuf 54 ?id) = Some (?id @ drop (length ?id) user)"
    unfolding idbuf using id assms(5) by (simp add: copy_str_eq)
  have u2: "write_at (?id @ drop (length ?id) user) (length ?id) [0] = Some user'"
    using write_at_append [of "[0]" "drop (length ?id) user" ?id] id assms(5) by (simp add: user'_def)
  have n: "unat (of_nat (length ?src) :: u32) = length ?src" "unat (of_nat (length ds) :: u32) = length ds"
    using src lens by (simp_all add: unat_of_nat)
  have mac: "utils_hmac_sha256 ctx (Some (zbuf 200 ?src)) (of_nat (length ?src)) (Some (ds @ 0 # s3))
      (of_nat (length ds)) (Some (replicate 32 0)) = Some (Some ?mac)"
    using utils_hmac_sha256_rfc [of ds "of_nat (length ds)" "of_nat (length ?src)" "zbuf 200 ?src"
        "replicate 32 0" ctx "0 # s3"] n lens src by (simp add: zbuf_def)
  define pw0 where "pw0 = replicate 65 0 @ drop 65 pw"
  have p1: "write_at pw 0 (replicate 65 0) = Some pw0" using assms(6) by (simp add: write_at_def pw0_def)
  have p2: "hex2str ?mac 0 32 pw0 0 = Some (hex_upper ?mac @ 0 # drop 65 pw)"
    using hex2str_hex_upper [of 0 32 ?mac 0 pw0] by (simp add: pw0_def)
  have "aiotMqttSign ctx (Some (pk @ 0 # s1)) (Some (dn @ 0 # s2)) (Some (ds @ 0 # s3))
         (Some cid, Some user, Some pw)
      = Some (0, Some cid', Some user', Some (hex_upper ?mac @ 0 # drop 65 pw))"
    using lens id src u1 u2 c1 c2 c3 mac p1 p2 assms(1,2)
    by (simp add: aiotMqttSign_def c_strlen_append c_strlen_zbuf sign_device_id_eq sign_source_eq
        PRODUCTKEY_MAXLEN_def DEVICENAME_MAXLEN_def DEVICESECRET_MAXLEN_def PASSWORD_MAXLEN_def
        del: length_lits)
  moreover have "string_of_buf cid' = ?id @ ?kv" "string_of_buf user' = ?id"
    using id kv string_of_buf_append [of "?id @ ?kv"] by (simp_all add: cid'_def user'_def string_of_buf_append)
  moreover have "length cid' = length cid" "length user' = length user"
    using id kv assms(4,5) by (simp_all add: cid'_def user'_def)
  ultimately show ?thesis by blast
qed

theorem aiotMqttSign_signs_witness:
  "\<exists>cid' user' pw'.
     aiotMqttSign \<lparr>total0 = 7, total1 = 7, sha_state = [], sha_buffer = [], is224 = 1\<rparr>
         (Some (cstr ''a1X'' @ 0 # [])) (Some (cstr ''cam'' @ 0 # [])) (Some (cstr ''s3cret'' @ 0 # []))
         (Some (replicate 150 1), Some (replicate 64 1), Some (replicate 65 1))
       = Some (0, Some cid', Some user', Some pw')
     \<and> string_of_buf cid' = device_id (cstr ''a1X'') (cstr ''cam'') @ MQTT_CLINETID_KV
     \<and> length cid' = length (replicate 150 (1 :: u8))
     \<and> string_of_buf user' = device_id (cstr ''a1X'') (cstr ''cam'')
     \<and> length user' = length (replicate 64 (1 :: u8))
     \<and> pw' = hex_upper (rfc_hmac (cstr ''s3cret'') (mac_source (cstr ''a1X'') (cstr ''cam'')))
               @ 0 # drop 65 (replicate 65 1)"
  by (rule aiotMqttSign_signs) (simp_all add: sign_max_def byte_of_def)

text \<open>
  A product key longer than 20 bytes, a device name longer than 32 or a secret longer
  than 64 is refused with -1, and no buffer is written.
\<close>

lemma aiotMqttSign_refuses_long:
  assumes "c_string pk" and "c_string dn" and "c_string ds"
    and "20 < length pk \<or> 32 < length dn \<or> 64 < length ds"
  shows "aiotMqttSign ctx (Some (pk @ 0 # s1)) (Some (dn @ 0 # s2)) (Some (ds @ 0 # s3))
           (Some cid, Some user, Some pw) = Some (-1, Some cid, Some user, Some pw)"
  using assms
  by (auto simp: aiotMqttSign_def c_strlen_append PRODUCTKEY_MAXLEN_def DEVICENAME_MAXLEN_def
      DEVICESECRET_MAXLEN_def)

lemma aiotMqttSign_refuses_long_witness:
  "aiotMqttSign \<lparr>total0 = 0, total1 = 0, sha_state = [], sha_buffer = [], is224 = 0\<rparr>
      (Some (replicate 21 65 @ 0 # [])) (Some (cstr ''cam'' @ 0 # [])) (Some (cstr ''s'' @ 0 # []))
      (Some [9], Some [9], Some [9]) = Some (-1, Some [9], Some [9], Some [9])"
  by (rule aiotMqttSign_refuses_long) (simp_all add: c_string_def byte_of_def)

end
