(* ===== verification/CDouble.thy ===== *)
theory CDouble
  imports CPrelude
begin

text \<open>
  The part of C's \<open>double\<close> that \<open>JSON/cJSON.c\<close> uses: IEEE 754 binary64 with rounding to
  nearest even, \<open>strtod\<close> and the \<open>%.Pg\<close> conversion on exact integer arithmetic.

  A finite value is \<open>DFin s m e\<close> for \<open>(-1)^s * m * 2^e\<close>, in the form \<open>round_ratio\<close>
  produces: \<open>m < 2^53\<close>, and \<open>2^52 \<le> m\<close> unless \<open>e = -1074\<close>.
\<close>

datatype double = DNaN | DInf bool | DFin bool nat int

fun bit_length :: "nat \<Rightarrow> nat" where
  "bit_length n = (if n = 0 then 0 else Suc (bit_length (n div 2)))"

declare bit_length.simps [simp del]

fun dec_length :: "nat \<Rightarrow> nat" where
  "dec_length n = (if n < 10 then 1 else Suc (dec_length (n div 10)))"

declare dec_length.simps [simp del]

definition scale :: "nat \<Rightarrow> int \<Rightarrow> nat" where
  \<comment> \<open>\<open>b ^ e\<close> for \<open>e \<ge> 0\<close>, 1 otherwise\<close>
  "scale b e = b ^ nat e"

definition round_div :: "nat \<Rightarrow> nat \<Rightarrow> nat" where
  \<comment> \<open>\<open>n / d\<close> rounded to the nearest integer, ties to even\<close>
  "round_div n d =
     (let q = n div d; r = n mod d in if 2 * r > d \<or> (2 * r = d \<and> odd q) then Suc q else q)"

definition floor_log :: "nat \<Rightarrow> int \<Rightarrow> nat \<Rightarrow> nat \<Rightarrow> int" where
  \<comment> \<open>the greatest \<open>x\<close> with \<open>b ^ x * d \<le> n\<close>, from an estimate \<open>k\<close> that is it or one more\<close>
  "floor_log b k n d = (if scale b k * d \<le> n * scale b (- k) then k else k - 1)"

definition round_ratio :: "bool \<Rightarrow> nat \<Rightarrow> nat \<Rightarrow> double" where
  \<comment> \<open>the double nearest to \<open>(-1)^s * n / d\<close>\<close>
  "round_ratio s n d =
     (if n = 0 then DFin s 0 (-1074)
      else let x = floor_log 2 (int (bit_length n) - int (bit_length d)) n d;
               e = max (x - 52) (-1074);
               q = round_div (n * scale 2 (- e)) (d * scale 2 e);
               (m, e) = (if q = 2 ^ 53 then (2 ^ 52, e + 1) else (q, e))
           in if e > 971 then DInf s else DFin s m e)"

definition double_of_int :: "int \<Rightarrow> double" where
  "double_of_int k = round_ratio (k < 0) (nat \<bar>k\<bar>) 1"

definition to_ratio :: "nat \<Rightarrow> int \<Rightarrow> nat \<times> nat" where
  \<comment> \<open>\<open>m * 2 ^ e\<close> as numerator and denominator\<close>
  "to_ratio m e = (m * scale 2 e, scale 2 (- e))"

definition trunc_mag :: "nat \<Rightarrow> int \<Rightarrow> nat" where
  "trunc_mag m e = (case to_ratio m e of (n, d) \<Rightarrow> n div d)"

subsection \<open>Comparisons and conversions\<close>

definition INT_MAX :: int where "INT_MAX = 2147483647"
definition INT_MIN :: int where "INT_MIN = -2147483648"

fun double_le_int :: "double \<Rightarrow> int \<Rightarrow> bool" where
  \<comment> \<open>\<open>number <= (double) k\<close> for an \<open>int\<close> \<open>k\<close>, which a double holds exactly\<close>
  "double_le_int DNaN k = False"
| "double_le_int (DInf s) k = s"
| "double_le_int (DFin s m e) k =
     (case to_ratio m e of (n, d) \<Rightarrow> (if s then - int n else int n) \<le> k * int d)"

fun double_ge_int :: "double \<Rightarrow> int \<Rightarrow> bool" where
  "double_ge_int DNaN k = False"
| "double_ge_int (DInf s) k = (\<not> s)"
| "double_ge_int (DFin s m e) k =
     (case to_ratio m e of (n, d) \<Rightarrow> (if s then - int n else int n) \<ge> k * int d)"

fun int_of_double :: "double \<Rightarrow> int" where
  \<comment> \<open>\<open>(int) number\<close> for a number in range; a NaN is what the ARM conversion makes of it, 0\<close>
  "int_of_double DNaN = 0"
| "int_of_double (DInf s) = (if s then INT_MIN else INT_MAX)"
| "int_of_double (DFin s m e) = (if s then - int (trunc_mag m e) else int (trunc_mag m e))"

definition is_nan_or_inf :: "double \<Rightarrow> bool" where
  \<comment> \<open>\<open>(d * 0) != 0\<close>\<close>
  "is_nan_or_inf d = (case d of DFin _ _ _ \<Rightarrow> False | _ \<Rightarrow> True)"

fun signed_mag :: "bool \<Rightarrow> nat \<Rightarrow> int" where
  "signed_mag s m = (if s then - int m else int m)"

fun double_diff_abs :: "double \<Rightarrow> double \<Rightarrow> double" where
  \<comment> \<open>\<open>fabs (a - b)\<close>: the exact difference, rounded\<close>
  "double_diff_abs (DFin s m e) (DFin t n f) =
     (let g = min e f;
          z = signed_mag s m * int (scale 2 (e - g)) - signed_mag t n * int (scale 2 (f - g))
      in round_ratio False (nat \<bar>z\<bar> * scale 2 g) (scale 2 (- g)))"
| "double_diff_abs (DInf s) (DFin _ _ _) = DInf False"
| "double_diff_abs (DFin _ _ _) (DInf s) = DInf False"
| "double_diff_abs (DInf s) (DInf t) = (if s = t then DNaN else DInf False)"
| "double_diff_abs _ _ = DNaN"

fun mag_le :: "double \<Rightarrow> double \<Rightarrow> bool" where
  \<comment> \<open>\<open>a <= b\<close> for \<open>a\<close>, \<open>b\<close> without sign\<close>
  "mag_le (DFin _ m e) (DFin _ n f) =
     (case to_ratio m e of (a, c) \<Rightarrow> case to_ratio n f of (b, d) \<Rightarrow> a * d \<le> b * c)"
| "mag_le (DFin _ _ _) (DInf _) = True"
| "mag_le (DInf _) (DInf _) = True"
| "mag_le _ _ = False"

definition CJSON_DOUBLE_PRECISION :: double where
  "CJSON_DOUBLE_PRECISION = round_ratio False 1 (10 ^ 16)"

definition compare_double :: "double \<Rightarrow> double \<Rightarrow> bool" where
  "compare_double a b = mag_le (double_diff_abs a b) CJSON_DOUBLE_PRECISION"

subsection \<open>strtod\<close>

definition is_digit :: "u8 \<Rightarrow> bool" where
  "is_digit c \<longleftrightarrow> 48 \<le> c \<and> c \<le> 57"

definition digits_value :: "bytes \<Rightarrow> nat" where
  "digits_value ds = foldl (\<lambda>n c. 10 * n + (unat c - 48)) 0 ds"

definition split_sign :: "bytes \<Rightarrow> bool \<times> bytes" where
  "split_sign s = (case s of c # r \<Rightarrow> (if c = 45 then (True, r) else if c = 43 then (False, r) else (False, s))
                   | [] \<Rightarrow> (False, []))"

definition split_fraction :: "bytes \<Rightarrow> bytes \<times> bytes" where
  \<comment> \<open>the digits after a decimal point, and the rest\<close>
  "split_fraction s = (case s of c # r \<Rightarrow> (if c = 46 then (takeWhile is_digit r, dropWhile is_digit r) else ([], s))
                       | [] \<Rightarrow> ([], []))"

definition split_exponent :: "bytes \<Rightarrow> int \<times> nat" where
  \<comment> \<open>value and length of an exponent part; nothing when no digit follows the \<open>e\<close>\<close>
  "split_exponent s =
     (case s of c # r \<Rightarrow>
        if c = 101 \<or> c = 69 then
          (case split_sign r of (neg, r') \<Rightarrow>
             let ds = takeWhile is_digit r'; k = int (digits_value ds)
             in if ds = [] then (0, 0)
                else (if neg then - k else k, length s - length r' + length ds))
        else (0, 0)
      | [] \<Rightarrow> (0, 0))"

definition strtod :: "bytes \<Rightarrow> double \<times> nat" where
  \<comment> \<open>value and number of characters converted, for a decimal subject; the code only passes
     characters of \<open>0-9 + - e E .\<close>, so neither the hexadecimal forms nor \<open>inf\<close> and \<open>nan\<close>
     can occur\<close>
  "strtod s =
     (case split_sign s of (neg, r) \<Rightarrow>
        let ip = takeWhile is_digit r; r1 = dropWhile is_digit r
        in case split_fraction r1 of (fp, r2) \<Rightarrow>
             if ip = [] \<and> fp = [] then (DFin False 0 (-1074), 0)
             else case split_exponent r2 of (ex, n) \<Rightarrow>
               let e = ex - int (length fp);
                   mant = digits_value (ip @ fp)
               in (round_ratio neg (mant * scale 10 e) (scale 10 (- e)), length s - length r2 + n))"

subsection \<open>The %.Pg conversion\<close>

definition digit_char :: "nat \<Rightarrow> u8" where
  "digit_char n = of_nat (48 + n)"

fun dec_digits :: "nat \<Rightarrow> bytes" where
  "dec_digits n = (if n < 10 then [digit_char n] else dec_digits (n div 10) @ [digit_char (n mod 10)])"

declare dec_digits.simps [simp del]

definition strip_zeros :: "bytes \<Rightarrow> bytes" where
  "strip_zeros ds = rev (dropWhile (\<lambda>c. c = 48) (rev ds))"

definition with_fraction :: "bytes \<Rightarrow> bytes \<Rightarrow> bytes" where
  \<comment> \<open>integral digits and fraction, the trailing zeros and a bare point removed\<close>
  "with_fraction ip fp = (let fp = strip_zeros fp in if fp = [] then ip else ip @ [46] @ fp)"

definition exponent_part :: "int \<Rightarrow> bytes" where
  "exponent_part x =
     [101, if x < 0 then 45 else 43]
     @ (let ds = dec_digits (nat \<bar>x\<bar>) in if length ds < 2 then 48 # ds else ds)"

definition format_mag :: "nat \<Rightarrow> nat \<Rightarrow> nat \<Rightarrow> bytes" where
  \<comment> \<open>\<open>n / d > 0\<close> with \<open>P\<close> significant digits\<close>
  "format_mag P n d =
     (let x = floor_log 10 (int (dec_length n) - int (dec_length d)) n d;
          s = x - (int P - 1);
          q = round_div (n * scale 10 (- s)) (d * scale 10 s);
          (q, x) = (if q = 10 ^ P then (10 ^ (P - 1), x + 1) else (q, x));
          ds = dec_digits q
      in if -4 \<le> x \<and> x < int P
         then if 0 \<le> x then with_fraction (take (nat x + 1) ds) (drop (nat x + 1) ds)
              else with_fraction [48] (replicate (nat (- x) - 1) 48 @ ds)
         else with_fraction (take 1 ds) (drop 1 ds) @ exponent_part x)"

fun format_g :: "nat \<Rightarrow> double \<Rightarrow> bytes" where
  \<comment> \<open>\<open>sprintf (s, "%1.Pg", d)\<close>\<close>
  "format_g P DNaN = cstr ''nan''"
| "format_g P (DInf s) = (if s then cstr ''-inf'' else cstr ''inf'')"
| "format_g P (DFin s m e) =
     (if s then [45] else []) @
     (if m = 0 then [48] else case to_ratio m e of (n, d) \<Rightarrow> format_mag P n d)"

subsection \<open>What the parser relies on\<close>

lemma split_sign_length: "split_sign s = (neg, r) \<Longrightarrow> length r \<le> length s"
  by (auto simp: split_sign_def split: list.splits if_splits)

lemma split_fraction_length: "split_fraction s = (fp, r) \<Longrightarrow> length r \<le> length s"
  using length_dropWhile_le [of is_digit "tl s"]
  by (auto simp: split_fraction_def split: list.splits if_splits)

lemma split_exponent_length: "split_exponent s = (x, n) \<Longrightarrow> n \<le> length s"
proof -
  assume a: "split_exponent s = (x, n)"
  show ?thesis
  proof (cases s)
    case (Cons c r)
    obtain neg r' where r': "split_sign r = (neg, r')" by fastforce
    then have "length r' \<le> length r" by (rule split_sign_length)
    moreover have "length (takeWhile is_digit r') \<le> length r'" by (rule length_takeWhile_le)
    ultimately show ?thesis
      using a Cons r' by (auto simp: split_exponent_def Let_def split: if_splits)
  qed (use a in \<open>simp add: split_exponent_def\<close>)
qed

lemma strtod_consumed: "snd (strtod s) \<le> length s"
proof -
  obtain neg r where r: "split_sign s = (neg, r)" by fastforce
  obtain fp r2 where r2: "split_fraction (dropWhile is_digit r) = (fp, r2)" by fastforce
  obtain x n where n: "split_exponent r2 = (x, n)" by fastforce
  have "length r2 \<le> length s"
    using split_sign_length [OF r] split_fraction_length [OF r2] length_dropWhile_le [of is_digit r]
    by linarith
  moreover have "n \<le> length r2" using n by (rule split_exponent_length)
  ultimately show ?thesis by (auto simp: strtod_def r r2 n Let_def)
qed

end
