(* ===== verification/JsonBase.thy ===== *)
theory JsonBase
  imports CDouble
begin

text \<open>
  The data of \<open>JSON/cJSON.h\<close> and \<open>cJSON.c\<close>: the item with its type word, the allocator as the
  hooks see it, and the two cursors, \<open>parse_buffer\<close> and \<open>printbuffer\<close>.

  An item is a tree: \<open>child\<close> is the list its \<open>next\<close> chain spells (the pointers themselves are
  the subject of \<open>JsonHeap\<close>).  The allocator is a state: a schedule that says which of its
  calls succeed, the number of calls made, the number of blocks in use, and the contents a
  fresh block happens to have.  \<open>size_t\<close> is \<open>nat\<close>: the sizes here are bounded by the size of
  objects in memory, and every decrement is shown or checked to start above zero.
\<close>

unbundle bit_operations_syntax

subsection \<open>Items\<close>

definition cJSON_Invalid :: u32 where "cJSON_Invalid = 0"
definition cJSON_False :: u32 where "cJSON_False = 1"
definition cJSON_True :: u32 where "cJSON_True = 2"
definition cJSON_NULL :: u32 where "cJSON_NULL = 4"
definition cJSON_Number :: u32 where "cJSON_Number = 8"
definition cJSON_String :: u32 where "cJSON_String = 16"
definition cJSON_Array :: u32 where "cJSON_Array = 32"
definition cJSON_Object :: u32 where "cJSON_Object = 64"
definition cJSON_Raw :: u32 where "cJSON_Raw = 128"
definition cJSON_IsReference :: u32 where "cJSON_IsReference = 256"
definition cJSON_StringIsConst :: u32 where "cJSON_StringIsConst = 512"

lemmas cJSON_types = cJSON_Invalid_def cJSON_False_def cJSON_True_def cJSON_NULL_def
  cJSON_Number_def cJSON_String_def cJSON_Array_def cJSON_Object_def cJSON_Raw_def
  cJSON_IsReference_def cJSON_StringIsConst_def

definition CJSON_NESTING_LIMIT :: nat where "CJSON_NESTING_LIMIT = 1000"

datatype cJSON =
  CJ (jtype: u32) (jvaluestring: "bytes option") (jvalueint: int) (jvaluedouble: double)
     (jstring: "bytes option") (jchild: "cJSON list")

definition d_zero :: double where
  "d_zero = DFin False 0 (-1074)"

definition new_item :: cJSON where
  \<comment> \<open>\<open>memset (node, '\0', sizeof (cJSON))\<close>\<close>
  "new_item = CJ 0 None 0 d_zero None []"

definition tag :: "cJSON \<Rightarrow> u32" where
  \<comment> \<open>\<open>item->type & 0xFF\<close>\<close>
  "tag t = jtype t AND 0xFF"

definition is_reference :: "cJSON \<Rightarrow> bool" where
  "is_reference t \<longleftrightarrow> jtype t AND cJSON_IsReference \<noteq> 0"

definition is_const_key :: "cJSON \<Rightarrow> bool" where
  "is_const_key t \<longleftrightarrow> jtype t AND cJSON_StringIsConst \<noteq> 0"

fun set_type :: "u32 \<Rightarrow> cJSON \<Rightarrow> cJSON" where
  "set_type ty (CJ _ vs vi vd s c) = CJ ty vs vi vd s c"

fun set_valuestring :: "bytes option \<Rightarrow> cJSON \<Rightarrow> cJSON" where
  "set_valuestring vs (CJ ty _ vi vd s c) = CJ ty vs vi vd s c"

fun set_valueint :: "int \<Rightarrow> cJSON \<Rightarrow> cJSON" where
  "set_valueint vi (CJ ty vs _ vd s c) = CJ ty vs vi vd s c"

fun set_valuedouble :: "double \<Rightarrow> cJSON \<Rightarrow> cJSON" where
  "set_valuedouble vd (CJ ty vs vi _ s c) = CJ ty vs vi vd s c"

fun set_string :: "bytes option \<Rightarrow> cJSON \<Rightarrow> cJSON" where
  "set_string s (CJ ty vs vi vd _ c) = CJ ty vs vi vd s c"

fun set_child :: "cJSON list \<Rightarrow> cJSON \<Rightarrow> cJSON" where
  "set_child c (CJ ty vs vi vd s _) = CJ ty vs vi vd s c"

subsection \<open>The allocator\<close>

record mem =
  alloc_ok :: "nat \<Rightarrow> bool"   \<comment> \<open>does the \<open>n\<close>-th call of \<open>allocate\<close> succeed\<close>
  calls :: nat
  live :: int                 \<comment> \<open>blocks allocated and not freed\<close>
  junk :: "nat \<Rightarrow> u8"         \<comment> \<open>what a fresh block holds\<close>

definition c_allocate :: "mem \<Rightarrow> bool \<times> mem" where
  "c_allocate m =
     (if alloc_ok m (calls m) then (True, m\<lparr>calls := Suc (calls m), live := live m + 1\<rparr>)
      else (False, m\<lparr>calls := Suc (calls m)\<rparr>))"

definition c_deallocate :: "mem \<Rightarrow> mem" where
  "c_deallocate m = m\<lparr>live := live m - 1\<rparr>"

definition fresh_bytes :: "mem \<Rightarrow> nat \<Rightarrow> bytes" where
  "fresh_bytes m n = map (junk m) [0..<n]"

lemma length_fresh_bytes [simp]: "length (fresh_bytes m n) = n"
  by (simp add: fresh_bytes_def)

definition cJSON_New_Item :: "mem \<Rightarrow> cJSON option \<times> mem" where
  "cJSON_New_Item m = (case c_allocate m of (True, m) \<Rightarrow> (Some new_item, m) | (False, m) \<Rightarrow> (None, m))"

fun cJSON_Delete :: "cJSON \<Rightarrow> mem \<Rightarrow> mem" and delete_chain :: "cJSON list \<Rightarrow> mem \<Rightarrow> mem" where
  \<comment> \<open>\<open>delete_chain\<close> is the \<open>while\<close> loop over the \<open>next\<close> chain\<close>
  "cJSON_Delete (CJ ty vs vi vd s c) m =
     (let t = CJ ty vs vi vd s c;
          m = (if \<not> is_reference t \<and> c \<noteq> [] then delete_chain c m else m);
          m = (if \<not> is_reference t \<and> vs \<noteq> None then c_deallocate m else m);
          m = (if \<not> is_const_key t \<and> s \<noteq> None then c_deallocate m else m)
      in c_deallocate m)"
| "delete_chain [] m = m"
| "delete_chain (t # ts) m = delete_chain ts (cJSON_Delete t m)"

fun blocks :: "cJSON \<Rightarrow> int" and blocks_list :: "cJSON list \<Rightarrow> int" where
  \<comment> \<open>the number of heap blocks an item owns\<close>
  "blocks (CJ ty vs vi vd s c) =
     1 + (if is_reference (CJ ty vs vi vd s c) then 0 else blocks_list c + (if vs = None then 0 else 1))
       + (if is_const_key (CJ ty vs vi vd s c) \<or> s = None then 0 else 1)"
| "blocks_list [] = 0"
| "blocks_list (t # ts) = blocks t + blocks_list ts"

lemma blocks_list_append [simp]: "blocks_list (xs @ ys) = blocks_list xs + blocks_list ys"
  by (induction xs) auto

lemma live_update_absorb: "m\<lparr>live := x, live := y\<rparr> = m\<lparr>live := y\<rparr>"
  by simp

lemma delete_frees:
  "cJSON_Delete t m = m\<lparr>live := live m - blocks t\<rparr>"
  "delete_chain ts m = m\<lparr>live := live m - blocks_list ts\<rparr>"
proof (induction t m and ts m rule: cJSON_Delete_delete_chain.induct)
  case (1 ty vs vi vd s c m)
  then show ?case
    by (cases "c = []") (auto simp: Let_def c_deallocate_def algebra_simps)
next
  case (2 m)
  then show ?case by simp
next
  case (3 t ts m)
  then show ?case by (simp add: algebra_simps)
qed

subsection \<open>The parse cursor\<close>

record parse_buffer =
  pb_content :: bytes
  pb_length :: nat
  pb_offset :: nat
  pb_depth :: nat

definition can_read :: "parse_buffer \<Rightarrow> nat \<Rightarrow> bool" where
  "can_read b n \<longleftrightarrow> pb_offset b + n \<le> pb_length b"

definition can_access_at_index :: "parse_buffer \<Rightarrow> nat \<Rightarrow> bool" where
  "can_access_at_index b i \<longleftrightarrow> pb_offset b + i < pb_length b"

definition char_at :: "parse_buffer \<Rightarrow> nat \<Rightarrow> u8 option" where
  \<comment> \<open>\<open>buffer_at_offset (b)[i]\<close>\<close>
  "char_at b i = read_at (pb_content b) (pb_offset b + i)"

definition starts_with :: "parse_buffer \<Rightarrow> bytes \<Rightarrow> bool option" where
  \<comment> \<open>\<open>strncmp (buffer_at_offset (b), lit, strlen (lit)) == 0\<close>\<close>
  "starts_with b l = map_option (\<lambda>s. s = l) (read_range (pb_content b) (pb_offset b) (length l))"

definition wf_pb :: "parse_buffer \<Rightarrow> bool" where
  \<comment> \<open>the cursor is on the buffer, and the buffer ends with the terminating NUL\<close>
  "wf_pb b \<longleftrightarrow> pb_length b \<le> length (pb_content b) \<and> pb_offset b < pb_length b
     \<and> pb_content b ! (pb_length b - 1) = 0"

definition advance :: "nat \<Rightarrow> parse_buffer \<Rightarrow> parse_buffer" where
  "advance n b = b\<lparr>pb_offset := pb_offset b + n\<rparr>"

end
