(* ===== verification/JsonString.thy ===== *)
theory JsonString
  imports JsonBase
begin

text \<open>
  Strings of \<open>JSON/cJSON.c\<close>: \<open>parse_hex4\<close>, \<open>utf16_literal_to_utf8\<close> and \<open>parse_string\<close> on the
  input side, \<open>ensure\<close> and \<open>print_string_ptr\<close> on the output side.

  Pointers into an object are positions in it; \<open>None\<close> is an access outside the object.  A
  \<open>goto fail\<close> is the boolean \<open>False\<close> of the result, with the state the C code leaves behind.
\<close>

unbundle bit_operations_syntax

subsection \<open>Hexadecimal and UTF-16 literals\<close>

definition hex_digit :: "u8 \<Rightarrow> u32 option" where
  "hex_digit b =
     (if 48 \<le> b \<and> b \<le> 57 then Some (ucast b - 48)
      else if 65 \<le> b \<and> b \<le> 70 then Some (10 + ucast b - 65)
      else if 97 \<le> b \<and> b \<le> 102 then Some (10 + ucast b - 97)
      else None)"

fun parse_hex4_from :: "bytes \<Rightarrow> nat \<Rightarrow> nat \<Rightarrow> u32 \<Rightarrow> u32 option" where
  \<comment> \<open>the loop, with \<open>n\<close> digits left to read at position \<open>p\<close>\<close>
  "parse_hex4_from c p 0 h = Some h"
| "parse_hex4_from c p (Suc n) h = do {
     b \<leftarrow> read_at c p;
     case hex_digit b of
       None \<Rightarrow> Some 0
     | Some v \<Rightarrow> parse_hex4_from c (Suc p) n (if n > 0 then push_bit 4 (h + v) else h + v) }"

definition parse_hex4 :: "bytes \<Rightarrow> nat \<Rightarrow> u32 option" where
  "parse_hex4 c p = parse_hex4_from c p 4 0"

definition utf16_codepoint :: "bytes \<Rightarrow> nat \<Rightarrow> nat \<Rightarrow> (nat \<times> u32) option option" where
  \<comment> \<open>lines 603-654: the length of the sequence and its code point, \<open>Some None\<close> for \<open>goto fail\<close>\<close>
  "utf16_codepoint c first_sequence input_end =
     (if input_end - first_sequence < 6 then Some None
      else do {
        first_code \<leftarrow> parse_hex4 c (first_sequence + 2);
        if 0xDC00 \<le> first_code \<and> first_code \<le> 0xDFFF then Some None
        else if 0xD800 \<le> first_code \<and> first_code \<le> 0xDBFF then
          let second_sequence = first_sequence + 6
          in if input_end - second_sequence < 6 then Some None
             else do {
               b0 \<leftarrow> read_at c second_sequence;
               if b0 \<noteq> 92 then Some None
               else do {
                 b1 \<leftarrow> read_at c (second_sequence + 1);
                 if b1 \<noteq> 117 then Some None
                 else do {
                   second_code \<leftarrow> parse_hex4 c (second_sequence + 2);
                   if second_code < 0xDC00 \<or> second_code > 0xDFFF then Some None
                   else Some (Some (12, 0x10000 + (push_bit 10 (first_code AND 0x3FF) OR (second_code AND 0x3FF)))) } } }
        else Some (Some (6, first_code)) })"

definition utf8_shape :: "u32 \<Rightarrow> (nat \<times> u32) option" where
  \<comment> \<open>\<open>utf8_length\<close> and \<open>first_byte_mark\<close>\<close>
  "utf8_shape codepoint =
     (if codepoint < 0x80 then Some (1, 0)
      else if codepoint < 0x800 then Some (2, 0xC0)
      else if codepoint < 0x10000 then Some (3, 0xE0)
      else if codepoint \<le> 0x10FFFF then Some (4, 0xF0)
      else None)"

fun utf8_tail :: "u32 \<Rightarrow> nat \<Rightarrow> bytes \<Rightarrow> nat \<Rightarrow> (u32 \<times> bytes) option" where
  \<comment> \<open>the loop that stores the continuation bytes, last one first\<close>
  "utf8_tail codepoint 0 out p = Some (codepoint, out)"
| "utf8_tail codepoint (Suc k) out p = do {
     out \<leftarrow> write_at out (p + Suc k) [ucast ((codepoint OR 0x80) AND 0xBF)];
     utf8_tail (drop_bit 6 codepoint) k out p }"

definition utf16_literal_to_utf8 ::
    "bytes \<Rightarrow> nat \<Rightarrow> nat \<Rightarrow> bytes \<Rightarrow> nat \<Rightarrow> (nat \<times> bytes \<times> nat) option" where
  \<comment> \<open>the length of the sequence (0 for a failure), and the output with its position\<close>
  "utf16_literal_to_utf8 c input_pointer input_end out p = do {
     decoded \<leftarrow> utf16_codepoint c input_pointer input_end;
     case decoded of
       None \<Rightarrow> Some (0, out, p)
     | Some (sequence_length, codepoint) \<Rightarrow>
         (case utf8_shape codepoint of
            None \<Rightarrow> Some (0, out, p)
          | Some (utf8_length, first_byte_mark) \<Rightarrow> do {
              (codepoint, out) \<leftarrow> utf8_tail codepoint (utf8_length - 1) out p;
              out \<leftarrow> write_at out p
                [if utf8_length > 1 then ucast ((codepoint OR first_byte_mark) AND 0xFF)
                 else ucast (codepoint AND 0x7F)];
              Some (sequence_length, out, p + utf8_length) }) }"

subsection \<open>parse_string\<close>

function scan_string :: "bytes \<Rightarrow> nat \<Rightarrow> nat \<Rightarrow> nat \<Rightarrow> (nat \<times> nat) option option" where
  \<comment> \<open>the loop that looks for the closing quote: \<open>input_end\<close> and \<open>skipped_bytes\<close>; \<open>Some None\<close>
     when the last input character is a backslash\<close>
  "scan_string c n input_end skipped =
     (if input_end < n
      then do {
        b \<leftarrow> read_at c input_end;
        if b = 34 then Some (Some (input_end, skipped))
        else if b = 92 then
          (if n \<le> input_end + 1 then Some None else scan_string c n (input_end + 2) (skipped + 1))
        else scan_string c n (input_end + 1) skipped }
      else Some (Some (input_end, skipped)))"
  by pat_completeness auto
termination
  by (relation "measure (\<lambda>(c, n, input_end, skipped). n - input_end)") auto

declare scan_string.simps [simp del]

definition simple_escape :: "u8 \<Rightarrow> u8 option" where
  "simple_escape e =
     (if e = 98 then Some 8 else if e = 102 then Some 12 else if e = 110 then Some 10
      else if e = 114 then Some 13 else if e = 116 then Some 9
      else if e = 34 \<or> e = 92 \<or> e = 47 then Some e else None)"

function unescape :: "bytes \<Rightarrow> nat \<Rightarrow> nat \<Rightarrow> bytes \<Rightarrow> nat \<Rightarrow> (nat \<times> (bytes \<times> nat) option) option" where
  \<comment> \<open>the second loop: the last \<open>input_pointer\<close> with the output, or with \<open>None\<close> for \<open>goto fail\<close>\<close>
  "unescape c input_pointer input_end out p =
     (if input_pointer < input_end
      then do {
        b \<leftarrow> read_at c input_pointer;
        if b \<noteq> 92 then do {
          out \<leftarrow> write_at out p [b];
          unescape c (input_pointer + 1) input_end out (p + 1) }
        else do {
          e \<leftarrow> read_at c (input_pointer + 1);
          case simple_escape e of
            Some x \<Rightarrow> do {
              out \<leftarrow> write_at out p [x];
              unescape c (input_pointer + 2) input_end out (p + 1) }
          | None \<Rightarrow>
              if e = 117 then do {
                (sequence_length, out, p) \<leftarrow> utf16_literal_to_utf8 c input_pointer input_end out p;
                if sequence_length = 0 then Some (input_pointer, None)
                else unescape c (input_pointer + sequence_length) input_end out p }
              else Some (input_pointer, None) } }
      else Some (input_pointer, Some (out, p)))"
  by pat_completeness auto
termination
  by (relation "measure (\<lambda>(c, input_pointer, input_end, out, p). input_end - input_pointer)") auto

declare unescape.simps [simp del]

type_synonym parse_result = "(bool \<times> cJSON \<times> parse_buffer \<times> mem) option"

definition parse_string :: "cJSON \<Rightarrow> parse_buffer \<Rightarrow> mem \<Rightarrow> parse_result" where
  "parse_string item b m = do {
     let c = pb_content b;
     let start = pb_offset b + 1;
     let fail = (\<lambda>input_pointer m. (False, item, b\<lparr>pb_offset := input_pointer\<rparr>, m));
     quote \<leftarrow> char_at b 0;
     if quote \<noteq> 34 then Some (fail start m)
     else do {
       scanned \<leftarrow> scan_string c (pb_length b) start 0;
       case scanned of
         None \<Rightarrow> Some (fail start m)
       | Some (input_end, skipped_bytes) \<Rightarrow>
           if pb_length b \<le> input_end then Some (fail start m)
           else do {
             closing \<leftarrow> read_at c input_end;
             if closing \<noteq> 34 then Some (fail start m)
             else let allocation_length = input_end - pb_offset b - skipped_bytes
                  in case c_allocate m of
                       (False, m) \<Rightarrow> Some (fail start m)
                     | (True, m) \<Rightarrow> do {
                         (input_pointer, done) \<leftarrow>
                           unescape c start input_end (fresh_bytes m (allocation_length + 1)) 0;
                         case done of
                           None \<Rightarrow> Some (fail input_pointer (c_deallocate m))
                         | Some (out, p) \<Rightarrow> do {
                             out \<leftarrow> write_at out p [0];
                             Some (True,
                                   set_valuestring (Some (string_of_buf out)) (set_type cJSON_String item),
                                   b\<lparr>pb_offset := input_end + 1\<rparr>, m) } } } } }"

subsection \<open>The print cursor\<close>

record printbuffer =
  out_buffer :: "bytes option"   \<comment> \<open>\<open>None\<close> is \<open>NULL\<close>\<close>
  out_length :: nat
  out_offset :: nat
  out_depth :: nat
  noalloc :: bool
  format :: bool
  has_realloc :: bool            \<comment> \<open>\<open>hooks.reallocate != NULL\<close>\<close>

definition INT_LIMIT :: nat where
  \<comment> \<open>\<open>INT_MAX\<close> as a size\<close>
  "INT_LIMIT = 2147483647"

definition c_reallocate :: "bytes \<Rightarrow> nat \<Rightarrow> mem \<Rightarrow> bytes option \<times> mem" where
  "c_reallocate b n m =
     (if alloc_ok m (calls m)
      then (Some (take n b @ drop (length b) (fresh_bytes m n)), m\<lparr>calls := Suc (calls m)\<rparr>)
      else (None, m\<lparr>calls := Suc (calls m)\<rparr>))"

definition drop_buffer :: "printbuffer \<Rightarrow> mem \<Rightarrow> (bool \<times> printbuffer \<times> mem) option" where
  \<comment> \<open>a failed allocation in \<open>ensure\<close>: the old buffer is freed\<close>
  "drop_buffer p m = Some (False, p\<lparr>out_length := 0, out_buffer := None\<rparr>, c_deallocate m)"

definition ensure :: "printbuffer \<Rightarrow> nat \<Rightarrow> mem \<Rightarrow> (bool \<times> printbuffer \<times> mem) option" where
  "ensure p needed m =
     (case out_buffer p of
        None \<Rightarrow> Some (False, p, m)
      | Some b \<Rightarrow>
          if out_length p > 0 \<and> out_offset p \<ge> out_length p then Some (False, p, m)
          else if needed > INT_LIMIT then Some (False, p, m)
          else let needed = needed + out_offset p + 1 in
            if needed \<le> out_length p then Some (True, p, m)
            else if noalloc p then Some (False, p, m)
            else if needed > INT_LIMIT then Some (False, p, m)
            else let newsize = (if needed > INT_LIMIT div 2 then INT_LIMIT else needed * 2) in
              if has_realloc p
              then (case c_reallocate b newsize m of
                      (None, m) \<Rightarrow> drop_buffer p m
                    | (Some b', m) \<Rightarrow> Some (True, p\<lparr>out_length := newsize, out_buffer := Some b'\<rparr>, m))
              else (case c_allocate m of
                      (False, m) \<Rightarrow> drop_buffer p m
                    | (True, m) \<Rightarrow> do {
                        old \<leftarrow> read_range b 0 (out_offset p + 1);
                        b' \<leftarrow> write_at (fresh_bytes m newsize) 0 old;
                        Some (True, p\<lparr>out_length := newsize, out_buffer := Some b'\<rparr>, c_deallocate m) }))"

definition update_offset :: "printbuffer \<Rightarrow> printbuffer option" where
  "update_offset p =
     (case out_buffer p of
        None \<Rightarrow> Some p
      | Some b \<Rightarrow> map_option (\<lambda>n. p\<lparr>out_offset := out_offset p + n\<rparr>) (c_strlen (drop (out_offset p) b)))"

definition put :: "printbuffer \<Rightarrow> nat \<Rightarrow> bytes \<Rightarrow> printbuffer option" where
  \<comment> \<open>stores through the pointer that \<open>ensure\<close> returned, \<open>i\<close> bytes further\<close>
  "put p i xs =
     (case out_buffer p of
        None \<Rightarrow> None
      | Some b \<Rightarrow> map_option (\<lambda>b. p\<lparr>out_buffer := Some b\<rparr>) (write_at b (out_offset p + i) xs))"

subsection \<open>print_string_ptr\<close>

fun escape_characters :: "bytes \<Rightarrow> nat" where
  "escape_characters [] = 0"
| "escape_characters (x # xs) =
     (if x = 34 \<or> x = 92 \<or> x = 8 \<or> x = 12 \<or> x = 10 \<or> x = 13 \<or> x = 9 then 1
      else if x < 32 then 5 else 0) + escape_characters xs"

definition hex_lower :: "u8 \<Rightarrow> u8" where
  "hex_lower n = (if n < 10 then n + 48 else n + 87)"

definition sprintf_u4x :: "u8 \<Rightarrow> bytes" where
  \<comment> \<open>\<open>sprintf (.., "u%04x", b)\<close>, with the terminating NUL\<close>
  "sprintf_u4x b = [117, 48, 48, hex_lower (drop_bit 4 b), hex_lower (b AND 15), 0]"

definition escape_letter :: "u8 \<Rightarrow> u8 option" where
  "escape_letter x =
     (if x = 92 then Some 92 else if x = 34 then Some 34 else if x = 8 then Some 98
      else if x = 12 then Some 102 else if x = 10 then Some 110 else if x = 13 then Some 114
      else if x = 9 then Some 116 else None)"

fun copy_escaped :: "bytes \<Rightarrow> printbuffer \<Rightarrow> nat \<Rightarrow> (printbuffer \<times> nat) option" where
  \<comment> \<open>the second loop: input left, output position relative to \<open>output\<close>\<close>
  "copy_escaped [] p i = Some (p, i)"
| "copy_escaped (x # xs) p i =
     (if 31 < x \<and> x \<noteq> 34 \<and> x \<noteq> 92
      then do { p \<leftarrow> put p i [x]; copy_escaped xs p (i + 1) }
      else do {
        p \<leftarrow> put p i [92];
        case escape_letter x of
          Some l \<Rightarrow> do { p \<leftarrow> put p (i + 1) [l]; copy_escaped xs p (i + 2) }
        | None \<Rightarrow> do { p \<leftarrow> put p (i + 1) (sprintf_u4x x); copy_escaped xs p (i + 6) } })"

type_synonym print_result = "(bool \<times> printbuffer \<times> mem) option"

definition print_string_ptr :: "bytes option \<Rightarrow> printbuffer \<Rightarrow> mem \<Rightarrow> print_result" where
  "print_string_ptr input p m =
     (case input of
        None \<Rightarrow> do {
          (ok, p, m) \<leftarrow> ensure p 3 m;
          if \<not> ok then Some (False, p, m)
          else do { p \<leftarrow> put p 0 [34, 34, 0]; Some (True, p, m) } }
      | Some s \<Rightarrow> do {
          let escapes = escape_characters s;
          let output_length = length s + escapes;
          (ok, p, m) \<leftarrow> ensure p (output_length + 3) m;
          if \<not> ok then Some (False, p, m)
          else if escapes = 0
          then do {
            p \<leftarrow> put p 0 [34];
            p \<leftarrow> put p 1 s;
            p \<leftarrow> put p (output_length + 1) [34];
            p \<leftarrow> put p (output_length + 2) [0];
            Some (True, p, m) }
          else do {
            p \<leftarrow> put p 0 [34];
            (p, _) \<leftarrow> copy_escaped s p 1;
            p \<leftarrow> put p (output_length + 1) [34];
            p \<leftarrow> put p (output_length + 2) [0];
            Some (True, p, m) } })"

definition print_string :: "cJSON \<Rightarrow> printbuffer \<Rightarrow> mem \<Rightarrow> print_result" where
  "print_string item = print_string_ptr (jvaluestring item)"

end
