(* ===== verification/JsonScan.thy ===== *)
theory JsonScan
  imports JsonString
begin

text \<open>
  Strings on the way in: \<open>parse_string\<close> stays inside the text and inside the buffer it allocates,
  on every input.  The buffer has room for the bytes between the quotes less one per escape that
  the scan counted.  The two loops need not agree on where escapes start (a \<open>\u\<close> followed by no
  hexadecimal digits makes the second loop jump over backslashes the first one counted), so the
  argument counts the positions that are not escape starts of the scan: no two starts are
  adjacent, and every jump of the second loop writes at most half as many bytes as it skips.
\<close>

unbundle bit_operations_syntax

subsection \<open>The scan\<close>

definition token_starts :: "bytes \<Rightarrow> nat \<Rightarrow> nat \<Rightarrow> nat set \<Rightarrow> bool" where
  "token_starts c i e S \<longleftrightarrow> finite S \<and> S \<subseteq> {i..<e} \<and> (\<forall>j \<in> S. c ! j = 92 \<and> Suc j \<notin> S \<and> Suc j < e)"

lemma token_starts_mono: "token_starts c i' e S \<Longrightarrow> i \<le> i' \<Longrightarrow> token_starts c i e S"
  by (auto simp: token_starts_def)

lemma scan_string_safe:
  assumes "n \<le> length c" and "i \<le> n"
  shows "scan_string c n i k = Some None \<or>
    (\<exists>e S. scan_string c n i k = Some (Some (e, k + card S)) \<and> i \<le> e \<and> e \<le> n \<and> token_starts c i e S)"
  using assms
proof (induction c n i k rule: scan_string.induct)
  case (1 c n i k)
  show ?case
  proof (cases "i < n")
    case False
    with 1 show ?thesis
      by (subst scan_string.simps, subst (2) scan_string.simps)
         (auto simp: token_starts_def intro!: exI [of _ "{}"])
  next
    case True
    with 1 have r: "read_at c i = Some (c ! i)" by (simp add: read_at_def)
    consider (quote) "c ! i = 34" | (last) "c ! i = 92" "n \<le> i + 1"
      | (escape) "c ! i = 92" "i + 1 < n" | (plain) "c ! i \<noteq> 34" "c ! i \<noteq> 92" by linarith
    then show ?thesis
    proof cases
      case quote
      with True r have "scan_string c n i k = Some (Some (i, k + card {}))"
        by (subst scan_string.simps) simp
      moreover have "token_starts c i i {}" by (simp add: token_starts_def)
      ultimately show ?thesis using True by (meson less_imp_le order_refl)
    next
      case last
      with True r show ?thesis by (subst scan_string.simps) simp
    next
      case escape
      have eq: "scan_string c n i k = scan_string c n (i + 2) (k + 1)"
        using True r escape by (subst scan_string.simps) simp
      have "scan_string c n (i + 2) (k + 1) = Some None \<or>
          (\<exists>e S. scan_string c n (i + 2) (k + 1) = Some (Some (e, k + 1 + card S)) \<and> i + 2 \<le> e \<and> e \<le> n
             \<and> token_starts c (i + 2) e S)"
        using "1.IH"(1) [OF True r] escape "1.prems" by auto
      then show ?thesis
      proof (elim disjE exE conjE)
        fix e S assume h: "scan_string c n (i + 2) (k + 1) = Some (Some (e, k + 1 + card S))"
          "i + 2 \<le> e" "e \<le> n" "token_starts c (i + 2) e S"
        have "card (insert i S) = 1 + card S" using h(4) by (subst card_insert_disjoint) (auto simp: token_starts_def)
        moreover have "token_starts c i e (insert i S)" using h(2,4) escape by (auto simp: token_starts_def)
        ultimately show ?thesis using eq h by (intro disjI2 exI [of _ e] exI [of _ "insert i S"]) auto
      qed (simp add: eq)
    next
      case plain
      have eq: "scan_string c n i k = scan_string c n (i + 1) k"
        using True r plain by (subst scan_string.simps) simp
      have "scan_string c n (i + 1) k = Some None \<or>
          (\<exists>e S. scan_string c n (i + 1) k = Some (Some (e, k + card S)) \<and> i + 1 \<le> e \<and> e \<le> n
             \<and> token_starts c (i + 1) e S)"
        using "1.IH"(2) [OF True r] plain True "1.prems" by auto
      then show ?thesis using eq token_starts_mono [of c "i + 1" _ _ i] by fastforce
    qed
  qed
qed

subsection \<open>Counting the positions that are not starts\<close>

definition free :: "nat \<Rightarrow> nat set \<Rightarrow> nat \<Rightarrow> nat" where
  "free start S i = card ({start..<i} - S)"

lemma free_Suc: "start \<le> i \<Longrightarrow> free start S (Suc i) = free start S i + (if i \<in> S then 0 else 1)"
proof -
  assume "start \<le> i"
  then have "{start..<Suc i} = insert i {start..<i}" by auto
  then show ?thesis by (simp add: free_def insert_Diff_if)
qed

lemma free_mono: "i \<le> j \<Longrightarrow> free start S i \<le> free start S j"
  unfolding free_def by (intro card_mono) auto

lemma free_pairs:
  assumes "token_starts c start e S" and "start \<le> i"
  shows "free start S i + k \<le> free start S (i + 2 * k)"
proof (induction k)
  case (Suc k)
  let ?j = "i + 2 * k"
  have "\<not> (?j \<in> S \<and> Suc ?j \<in> S)" using assms(1) by (auto simp: token_starts_def)
  then have "free start S ?j + 1 \<le> free start S (Suc (Suc ?j))"
    using assms(2) by (auto simp: free_Suc)
  then show ?case using Suc by (simp add: eval_nat_numeral)
qed simp

lemma free_card:
  assumes "token_starts c start e S"
  shows "free start S e + card S = e - start"
proof -
  have S: "finite S" "S \<subseteq> {start..<e}" using assms by (auto simp: token_starts_def)
  then have "card S \<le> e - start" using card_mono [of "{start..<e}" S] by simp
  with S show ?thesis by (simp add: free_def card_Diff_subset)
qed

subsection \<open>The hexadecimal and UTF-16 literals\<close>

lemma hex_digit_le: "hex_digit b = Some v \<Longrightarrow> unat v \<le> 15"
proof -
  have "case hex_digit b of None \<Rightarrow> True | Some v \<Rightarrow> unat v \<le> 15"
    by (rule all_bytes [where P = "\<lambda>b. case hex_digit b of None \<Rightarrow> True | Some v \<Rightarrow> unat v \<le> 15"]) code_simp
  then show "hex_digit b = Some v \<Longrightarrow> unat v \<le> 15" by simp
qed

lemma parse_hex4_from_total: "p + n \<le> length c \<Longrightarrow> \<exists>v. parse_hex4_from c p n h = Some v"
  by (induction n arbitrary: p h) (auto simp: read_at_def split: option.splits)

lemma unat_add_small: "unat (h :: u32) + unat v < 2 ^ 32 \<Longrightarrow> unat (h + v) = unat h + unat v"
  by (simp add: unat_word_ariths)

lemma unat_push_small: "unat (h :: u32) < 2 ^ 28 \<Longrightarrow> unat (push_bit 4 h) = 16 * unat h"
  by (simp add: push_bit_eq_mult unat_word_ariths)

lemma parse_hex4_from_bound:
  "parse_hex4_from c p (Suc n) h = Some v \<Longrightarrow> n \<le> 3 \<Longrightarrow> unat h + 16 \<le> 16 ^ (4 - n) \<Longrightarrow> unat v < 65536"
proof (induction n arbitrary: p h)
  case 0
  then obtain b where "read_at c p = Some b" by (cases "read_at c p") auto
  with 0 hex_digit_le [of b] show ?case
    by (cases "hex_digit b") (auto simp: unat_add_small)
next
  case (Suc n)
  then obtain b where b: "read_at c p = Some b" by (cases "read_at c p") auto
  show ?case
  proof (cases "hex_digit b")
    case None
    with b Suc.prems show ?thesis by auto
  next
    case (Some d)
    have le: "unat h + 16 \<le> 16 ^ (3 - n)" "(16::nat) ^ (3 - n) \<le> 16 ^ 3"
      using Suc.prems(3) by (simp, intro power_increasing) auto
    have d: "unat d \<le> 15" using Some by (rule hex_digit_le)
    then have add: "unat (h + d) = unat h + unat d" using le by (intro unat_add_small) simp
    then have "unat (push_bit 4 (h + d)) = 16 * (unat h + unat d)"
      using le d by (subst unat_push_small) auto
    then have "unat (push_bit 4 (h + d)) + 16 \<le> 16 * 16 ^ (3 - n)" using le(1) d by simp
    also have "\<dots> = 16 ^ (4 - n)" using Suc.prems(2) by (simp flip: power_Suc add: Suc_diff_le)
    finally show ?thesis using Suc.IH [of "Suc p"] Suc.prems b Some by simp
  qed
qed

lemma parse_hex4_safe:
  assumes "p + 4 \<le> length c"
  shows "\<exists>v. parse_hex4 c p = Some v \<and> unat v < 65536"
proof -
  obtain v where v: "parse_hex4 c p = Some v"
    using parse_hex4_from_total [OF assms] by (auto simp: parse_hex4_def)
  moreover have "parse_hex4_from c p (Suc 3) 0 = Some v" using v by (simp add: parse_hex4_def eval_nat_numeral)
  ultimately show ?thesis using parse_hex4_from_bound [of c p 3 0 v] by simp
qed

lemma utf16_codepoint_safe:
  assumes "e \<le> length c"
  shows "utf16_codepoint c i e = Some None
    \<or> (\<exists>cp. utf16_codepoint c i e = Some (Some (6, cp)) \<and> i + 6 \<le> e \<and> unat cp < 65536)
    \<or> (\<exists>cp. utf16_codepoint c i e = Some (Some (12, cp)) \<and> i + 12 \<le> e)"
proof (cases "e - i < 6")
  case True
  then show ?thesis by (simp add: utf16_codepoint_def)
next
  case False
  with assms have "i + 2 + 4 \<le> length c" by simp
  then obtain v where v: "parse_hex4 c (i + 2) = Some v" "unat v < 65536"
    using parse_hex4_safe by blast
  show ?thesis
  proof (cases "e - (i + 6) < 6")
    case True
    with False v show ?thesis by (auto simp: utf16_codepoint_def Let_def)
  next
    case second: False
    with assms have "i + 6 + 2 + 4 \<le> length c" by simp
    then obtain w where w: "parse_hex4 c (i + 6 + 2) = Some w"
      using parse_hex4_safe by blast
    have "read_at c (i + 6) = Some (c ! (i + 6))" "read_at c (i + 6 + 1) = Some (c ! (i + 6 + 1))"
      using second assms by (auto simp: read_at_def)
    moreover have "i + 6 \<le> e" "i + 12 \<le> e" using second by auto
    ultimately show ?thesis
      using False second v w by (simp add: utf16_codepoint_def Let_def)
  qed
qed

lemma utf8_shape_length:
  "utf8_shape cp = Some (l, mark) \<Longrightarrow> 1 \<le> l \<and> l \<le> 4 \<and> (unat cp < 65536 \<longrightarrow> l \<le> 3)"
  by (auto simp: utf8_shape_def word_less_nat_alt split: if_splits)

lemma utf8_tail_safe:
  "p + k < length out \<Longrightarrow> \<exists>cp' out'. utf8_tail cp k out p = Some (cp', out') \<and> length out' = length out"
proof (induction k arbitrary: cp out)
  case (Suc k)
  then obtain o1 where "write_at out (p + Suc k) [ucast ((cp OR 0x80) AND 0xBF)] = Some o1" "length o1 = length out"
    by (simp add: write_at_def)
  with Suc.IH [of o1 "drop_bit 6 cp"] Suc.prems show ?case by auto
qed simp

lemma utf16_literal_safe:
  assumes "e \<le> length c" and "6 \<le> e - i \<Longrightarrow> p + (if e - i < 12 then 3 else 4) \<le> length out"
  shows "\<exists>l out' p'. utf16_literal_to_utf8 c i e out p = Some (l, out', p') \<and> length out' = length out
    \<and> (l = 0 \<or> l = 6 \<and> p' \<le> p + 3 \<and> i + 6 \<le> e \<or> l = 12 \<and> p' \<le> p + 4 \<and> i + 12 \<le> e)"
proof -
  have finish: "\<exists>l' out' p'. utf16_literal_to_utf8 c i e out p = Some (l', out', p') \<and> length out' = length out
      \<and> (l' = 0 \<or> l' = l \<and> p' \<le> p + n)"
    if cp: "utf16_codepoint c i e = Some (Some (l, cp))" and room: "p + n \<le> length out"
      and n: "\<And>k mark. utf8_shape cp = Some (k, mark) \<Longrightarrow> 1 \<le> k \<and> k \<le> n" for l cp n
  proof (cases "utf8_shape cp")
    case None
    with cp show ?thesis by (simp add: utf16_literal_to_utf8_def)
  next
    case (Some km)
    obtain k mark where km: "km = (k, mark)" by fastforce
    with Some n have k: "1 \<le> k" "k \<le> n" by auto
    with room have "p + (k - 1) < length out" by simp
    then obtain cp' o1 where t: "utf8_tail cp (k - 1) out p = Some (cp', o1)" "length o1 = length out"
      using utf8_tail_safe by blast
    obtain o2 where "write_at o1 p [if k > 1 then ucast ((cp' OR mark) AND 0xFF) else ucast (cp' AND 0x7F)] = Some o2"
      "length o2 = length out"
      using t(2) k room by (simp add: write_at_def)
    with cp Some km t k show ?thesis by (simp add: utf16_literal_to_utf8_def)
  qed
  consider (none) "utf16_codepoint c i e = Some None"
    | (six) cp where "utf16_codepoint c i e = Some (Some (6, cp))" "i + 6 \<le> e" "unat cp < 65536"
    | (twelve) cp where "utf16_codepoint c i e = Some (Some (12, cp))" "i + 12 \<le> e"
    using utf16_codepoint_safe [OF assms(1), of i] by blast
  then show ?thesis
  proof cases
    case none
    then show ?thesis by (simp add: utf16_literal_to_utf8_def)
  next
    case six
    then show ?thesis using finish [OF six(1), of 3] utf8_shape_length assms(2) by (fastforce split: if_splits)
  next
    case twelve
    then show ?thesis using finish [OF twelve(1), of 4] utf8_shape_length assms(2) by (fastforce split: if_splits)
  qed
qed

subsection \<open>The unescaping loop\<close>

lemma write_byte: "p < length out \<Longrightarrow> \<exists>out'. write_at out p [x] = Some out' \<and> length out' = length out"
  by (simp add: write_at_def)

lemma unescape_end: "\<not> i < e \<Longrightarrow> unescape c i e out p = Some (i, Some (out, p))"
  by (subst unescape.simps) simp

lemma unescape_plain:
  "i < e \<Longrightarrow> read_at c i = Some b \<Longrightarrow> b \<noteq> 92 \<Longrightarrow> write_at out p [b] = Some out' \<Longrightarrow>
   unescape c i e out p = unescape c (i + 1) e out' (p + 1)"
  by (subst unescape.simps) simp

lemma unescape_simple:
  "i < e \<Longrightarrow> read_at c i = Some 92 \<Longrightarrow> read_at c (i + 1) = Some b \<Longrightarrow> simple_escape b = Some x \<Longrightarrow>
   write_at out p [x] = Some out' \<Longrightarrow> unescape c i e out p = unescape c (i + 2) e out' (p + 1)"
  by (subst unescape.simps) simp

lemma unescape_bad:
  "i < e \<Longrightarrow> read_at c i = Some 92 \<Longrightarrow> read_at c (i + 1) = Some b \<Longrightarrow> simple_escape b = None \<Longrightarrow>
   b \<noteq> 117 \<Longrightarrow> unescape c i e out p = Some (i, None)"
  by (subst unescape.simps) simp

lemma unescape_utf16:
  "i < e \<Longrightarrow> read_at c i = Some 92 \<Longrightarrow> read_at c (i + 1) = Some 117 \<Longrightarrow>
   utf16_literal_to_utf8 c i e out p = Some (l, out', p') \<Longrightarrow>
   unescape c i e out p = (if l = 0 then Some (i, None) else unescape c (i + l) e out' p')"
  by (subst unescape.simps) (simp add: simple_escape_def)

lemma unescape_safe:
  assumes "token_starts c start e S" and "e < length c" and "c ! e = 34"
    and "free start S e < length out" and "start \<le> i" and "i \<le> Suc e" and "p \<le> free start S (min i e)"
  shows "\<exists>i' r. unescape c i e out p = Some (i', r) \<and> start \<le> i' \<and> i' \<le> Suc e \<and>
    (case r of None \<Rightarrow> i' < e | Some (out', p') \<Rightarrow> length out' = length out \<and> p' \<le> free start S e)"
  using assms
proof (induction c i e out p rule: unescape.induct)
  case (1 c i e out p)
  note tok = "1.prems"(1)
  have mono: "free start S j \<le> free start S e" if "j \<le> e" for j using that by (rule free_mono)
  show ?case
  proof (cases "i < e")
    case False
    then show ?thesis using "1.prems" by (simp add: unescape_end min_def split: if_splits)
  next
    case True
    with "1.prems" have r: "read_at c i = Some (c ! i)" and p: "p \<le> free start S i" by (auto simp: read_at_def)
    show ?thesis
    proof (cases "c ! i = 92")
      case False
      then have "i \<notin> S" using tok by (auto simp: token_starts_def)
      then have f: "free start S (Suc i) = free start S i + 1" using "1.prems"(5) by (simp add: free_Suc)
      then have "p < length out" using mono [of "Suc i"] True p "1.prems"(4) by simp
      then obtain out' where w: "write_at out p [c ! i] = Some out'" "length out' = length out"
        using write_byte [of p out "c ! i"] by auto
      have "p + 1 \<le> free start S (min (i + 1) e)" using f p True by (simp add: min_def)
      moreover have "free start S e < length out'" "start \<le> i + 1" "i + 1 \<le> Suc e"
        using "1.prems"(4,5) True w(2) by auto
      ultimately show ?thesis
        using "1.IH"(1) [OF True r False w(1) tok "1.prems"(2,3)] w(2)
        unfolding unescape_plain [OF True r False w(1)] by metis
    next
      case esc: True
      have r': "read_at c (i + 1) = Some (c ! (i + 1))" using True "1.prems"(2) by (simp add: read_at_def)
      have r92: "read_at c i = Some 92" using r esc by simp
      have two: "p + 1 \<le> free start S (min (i + 2) e)"
      proof (cases "i + 2 \<le> e")
        case True
        then show ?thesis using free_pairs [OF tok "1.prems"(5), of 1] p by (simp add: min_def)
      next
        case False
        then have e: "e = Suc i" using \<open>i < e\<close> by simp
        then have "i \<notin> S" using tok by (auto simp: token_starts_def)
        then show ?thesis using p "1.prems"(5) e by (simp add: free_Suc)
      qed
      show ?thesis
      proof (cases "simple_escape (c ! (i + 1))")
        case (Some x)
        have "p < length out" using two mono [of "min (i + 2) e"] "1.prems"(4) by simp
        then obtain out' where w: "write_at out p [x] = Some out'" "length out' = length out"
          using write_byte [of p out x] by auto
        moreover have "\<not> c ! i \<noteq> 92" "free start S e < length out'" "start \<le> i + 2" "i + 2 \<le> Suc e"
          using "1.prems"(4,5) True w(2) esc by auto
        ultimately show ?thesis
          using "1.IH"(3) [OF True r _ r' Some w(1) tok "1.prems"(2,3)] two
          unfolding unescape_simple [OF True r92 r' Some w(1)] by metis
      next
        case None
        show ?thesis
        proof (cases "c ! (i + 1) = 117")
          case False
          then show ?thesis using True "1.prems"(5) by (simp add: unescape_bad [OF True r92 r' None])
        next
          case u: True
          have room: "p + (if e - i < 12 then 3 else 4) \<le> length out" if "6 \<le> e - i"
          proof (cases "e - i < 12")
            case True
            have "i + 6 \<le> e" using that by simp
            then show ?thesis using free_pairs [OF tok "1.prems"(5), of 3] mono [of "i + 6"] p "1.prems"(4) True by simp
          next
            case False
            then have "i + 12 \<le> e" by simp
            then show ?thesis using free_pairs [OF tok "1.prems"(5), of 6] mono [of "i + 12"] p "1.prems"(4) False by simp
          qed
          obtain l out' p' where u8: "utf16_literal_to_utf8 c i e out p = Some (l, out', p')"
              "length out' = length out"
              "l = 0 \<or> l = 6 \<and> p' \<le> p + 3 \<and> i + 6 \<le> e \<or> l = 12 \<and> p' \<le> p + 4 \<and> i + 12 \<le> e"
            using utf16_literal_safe [of e c i p out] room "1.prems"(2) by auto
          note step = unescape_utf16 [OF True r92 r' [unfolded u] u8(1)]
          show ?thesis
          proof (cases "l = 0")
            case True
            then show ?thesis using \<open>i < e\<close> "1.prems"(5) by (simp add: step)
          next
            case False
            have "p' \<le> free start S (i + l)" "i + l \<le> e"
              using u8(3) False p free_pairs [OF tok "1.prems"(5), of 3] free_pairs [OF tok "1.prems"(5), of 6] by auto
            moreover have "\<not> c ! i \<noteq> 92" "free start S e < length out'" "start \<le> i + l" "i + l \<le> Suc e"
              "min (i + l) e = i + l"
              using "1.prems"(4,5) calculation u8(2) esc by auto
            ultimately show ?thesis
              using "1.IH"(2) [OF True r _ r' None u u8(1) refl refl False tok "1.prems"(2,3)] False u8(2)
              unfolding step if_not_P [OF False] u8(2) by metis
          qed
        qed
      qed
    qed
  qed
qed

subsection \<open>parse_string\<close>

definition same_text :: "parse_buffer \<Rightarrow> parse_buffer \<Rightarrow> bool" where
  "same_text b b' \<longleftrightarrow> pb_content b' = pb_content b \<and> pb_length b' = pb_length b"

lemma same_text_refl [simp]: "same_text b b"
  by (simp add: same_text_def)

lemma same_text_offset [simp]: "same_text b (b\<lparr>pb_offset := n\<rparr>)"
  by (simp add: same_text_def)

definition parsed_string :: "cJSON \<Rightarrow> parse_buffer \<Rightarrow> mem \<Rightarrow> bool \<times> cJSON \<times> parse_buffer \<times> mem \<Rightarrow> bool" where
  "parsed_string item b m = (\<lambda>(ok, item', b', m'). (\<exists>k. b' = b\<lparr>pb_offset := k\<rparr>) \<and> alloc_ok m' = alloc_ok m
     \<and> pb_offset b < pb_offset b' \<and> pb_offset b' \<le> pb_length b
     \<and> (if ok then live m' = live m + 1 \<and> pb_offset b' < pb_length b
          \<and> (\<exists>s. c_string s \<and> item' = set_valuestring (Some s) (set_type cJSON_String item))
        else item' = item \<and> live m' = live m))"

theorem parse_string_safe:
  assumes "wf_pb b"
  shows "\<exists>r. parse_string item b m = Some r \<and> parsed_string item b m r"
proof -
  let ?c = "pb_content b" and ?n = "pb_length b" and ?start = "pb_offset b + 1"
  have wf: "?n \<le> length ?c" "pb_offset b < ?n" using assms by (auto simp: wf_pb_def)
  have bail: "parsed_string item b m (False, item, b\<lparr>pb_offset := ?start\<rparr>, m')"
    if "alloc_ok m' = alloc_ok m" "live m' = live m" for m'
    using wf that by (auto simp: parsed_string_def)
  obtain q where q: "char_at b 0 = Some q" using wf by (simp add: char_at_def read_at_def)
  show ?thesis
  proof (cases "q = 34")
    case False
    then show ?thesis using bail [of m] by (simp add: parse_string_def q Let_def)
  next
    case True
    consider (none) "scan_string ?c ?n ?start 0 = Some None"
      | (some) e S where "scan_string ?c ?n ?start 0 = Some (Some (e, card S))" "?start \<le> e" "e \<le> ?n"
          "token_starts ?c ?start e S"
      using scan_string_safe [of ?n ?c ?start 0] wf by auto
    then show ?thesis
    proof cases
      case none
      then show ?thesis using bail [of m] True by (simp add: parse_string_def q Let_def)
    next
      case some
      show ?thesis
      proof (cases "e < ?n \<and> ?c ! e = 34")
        case False
        have "read_at ?c e = Some (?c ! e)" if "e < ?n" using that wf by (simp add: read_at_def)
        with False some show ?thesis using bail [of m] True
          by (cases "e < ?n") (simp_all add: parse_string_def q Let_def)
      next
        case closed: True
        then have r: "read_at ?c e = Some 34" using wf by (simp add: read_at_def)
        show ?thesis
        proof (cases "alloc_ok m (calls m)")
          case False
          then have "c_allocate m = (False, m\<lparr>calls := Suc (calls m)\<rparr>)" by (simp add: c_allocate_def)
          then show ?thesis using some closed r True bail [of "m\<lparr>calls := Suc (calls m)\<rparr>"]
            by (simp add: parse_string_def q Let_def)
        next
          case ok: True
          define m1 where "m1 = m\<lparr>calls := Suc (calls m), live := live m + 1\<rparr>"
          have al: "c_allocate m = (True, m1)" using ok by (simp add: c_allocate_def m1_def)
          define out where "out = fresh_bytes m1 (e - pb_offset b - card S + 1)"
          have "free ?start S e + card S = e - ?start" using free_card [OF some(4)] .
          then have len: "free ?start S e < length out" by (simp add: out_def)
          have "e < length ?c" "?c ! e = 34" "0 \<le> free ?start S (min ?start e)" "?start \<le> Suc e"
            using closed wf some by auto
          from unescape_safe [OF some(4) this(1,2) len order_refl this(4,3)]
          obtain i' d where u: "unescape ?c ?start e out 0 = Some (i', d)" "?start \<le> i'" "i' \<le> Suc e"
            and d: "case d of None \<Rightarrow> i' < e | Some (out', p') \<Rightarrow> length out' = length out \<and> p' \<le> free ?start S e"
            by auto
          note compute = parse_string_def q True Let_def some(1) [simplified] r al out_def [symmetric, simplified]
            u(1) [simplified]
          show ?thesis
          proof (cases d)
            case None
            then have "parse_string item b m = Some (False, item, b\<lparr>pb_offset := i'\<rparr>, c_deallocate m1)"
              using closed by (simp add: compute)
            then show ?thesis using u(2) d None closed by (auto simp: parsed_string_def c_deallocate_def m1_def)
          next
            case (Some op)
            then obtain out' p' where op: "op = (out', p')" and len': "length out' = length out" "p' \<le> free ?start S e"
              using d by (cases op) auto
            then obtain o2 where w: "write_at out' p' [0] = Some o2" using len write_byte [of p' out' 0] by auto
            have "parse_string item b m = Some (True,
                set_valuestring (Some (string_of_buf o2)) (set_type cJSON_String item), b\<lparr>pb_offset := e + 1\<rparr>, m1)"
              using closed Some op w by (simp add: compute)
            moreover have "Suc e < ?n"
            proof (rule ccontr)
              assume "\<not> Suc e < ?n"
              with closed have "e = ?n - 1" by linarith
              with closed assms show False by (simp add: wf_pb_def)
            qed
            ultimately show ?thesis using some(2) closed
              by (auto simp: parsed_string_def m1_def intro!: exI [of _ "string_of_buf o2"] c_string_string_of_buf)
          qed
        qed
      qed
    qed
  qed
qed

end
