(* ===== verification/JsonParse.thy ===== *)
theory JsonParse
  imports JsonString
begin

text \<open>
  The recursive-descent parser of \<open>JSON/cJSON.c\<close>: \<open>parse_number\<close>, \<open>parse_value\<close>, \<open>parse_array\<close>,
  \<open>parse_object\<close> and the entry points.

  The three mutually recursive functions and their two loops carry a fuel that every call
  spends; \<open>None\<close> stands for an access outside the text and for a lack of fuel alike, so the
  theorem that they return \<open>Some\<close> is both memory safety and termination.  A list under
  construction is the \<open>acc\<close> of its loop; \<open>goto fail\<close> is the boolean \<open>False\<close> and deletes it.
\<close>

unbundle bit_operations_syntax

subsection \<open>Whitespace and numbers\<close>

function ws_end :: "bytes \<Rightarrow> nat \<Rightarrow> nat \<Rightarrow> nat option" where
  "ws_end c n i =
     (if i < n then do { b \<leftarrow> read_at c i; if b \<le> 32 then ws_end c n (i + 1) else Some i } else Some i)"
  by pat_completeness auto
termination by (relation "measure (\<lambda>(c, n, i). n - i)") auto

declare ws_end.simps [simp del]

definition step_back :: "parse_buffer \<Rightarrow> parse_buffer option" where
  \<comment> \<open>\<open>offset--\<close>, which must not wrap around\<close>
  "step_back b = (if pb_offset b = 0 then None else Some (b\<lparr>pb_offset := pb_offset b - 1\<rparr>))"

definition buffer_skip_whitespace :: "parse_buffer \<Rightarrow> parse_buffer option" where
  "buffer_skip_whitespace b = do {
     i \<leftarrow> ws_end (pb_content b) (pb_length b) (pb_offset b);
     let b = b\<lparr>pb_offset := i\<rparr>;
     if i = pb_length b then step_back b else Some b }"

definition skip_utf8_bom :: "parse_buffer \<Rightarrow> parse_buffer option" where
  \<comment> \<open>called at offset 0 only\<close>
  "skip_utf8_bom b =
     (if can_access_at_index b 4
      then do { bom \<leftarrow> starts_with b [0xEF, 0xBB, 0xBF]; Some (if bom then advance 3 b else b) }
      else Some b)"

definition number_char :: "u8 \<Rightarrow> bool" where
  "number_char c \<longleftrightarrow> 48 \<le> c \<and> c \<le> 57 \<or> c = 43 \<or> c = 45 \<or> c = 101 \<or> c = 69 \<or> c = 46"

fun number_c_string :: "parse_buffer \<Rightarrow> nat \<Rightarrow> nat \<Rightarrow> bytes option" where
  \<comment> \<open>the copying loop from index \<open>i\<close>, with room for \<open>k\<close> characters more; the decimal point of
     the locale is the point\<close>
  "number_c_string b i 0 = Some []"
| "number_c_string b i (Suc k) =
     (if can_access_at_index b i
      then do {
        c \<leftarrow> char_at b i;
        if number_char c then do { cs \<leftarrow> number_c_string b (i + 1) k; Some (c # cs) } else Some [] }
      else Some [])"

definition saturate :: "double \<Rightarrow> int" where
  "saturate number =
     (if double_ge_int number INT_MAX then INT_MAX
      else if double_le_int number INT_MIN then INT_MIN
      else int_of_double number)"

definition parse_number :: "cJSON \<Rightarrow> parse_buffer \<Rightarrow> mem \<Rightarrow> parse_result" where
  "parse_number item b m = do {
     cs \<leftarrow> number_c_string b 0 63;
     let (number, after_end) = strtod cs;
     if after_end = 0 then Some (False, item, b, m)
     else Some (True,
       set_type cJSON_Number (set_valueint (saturate number) (set_valuedouble number item)),
       advance after_end b, m) }"

definition cJSON_SetNumberHelper :: "cJSON \<Rightarrow> double \<Rightarrow> cJSON \<times> double" where
  "cJSON_SetNumberHelper object number =
     (set_valuedouble number (set_valueint (saturate number) object), number)"

subsection \<open>Values\<close>

definition literal :: "parse_buffer \<Rightarrow> bytes \<Rightarrow> bool option" where
  "literal b l = (if can_read b (length l) then starts_with b l else Some False)"

definition at_char :: "parse_buffer \<Rightarrow> u8 \<Rightarrow> bool option" where
  \<comment> \<open>\<open>can_access_at_index (b, 0) && buffer_at_offset (b)[0] == c\<close>\<close>
  "at_char b c =
     (if can_access_at_index b 0 then map_option (\<lambda>x. x = c) (char_at b 0) else Some False)"

definition finish_list :: "u32 \<Rightarrow> cJSON list \<Rightarrow> cJSON \<Rightarrow> parse_buffer \<Rightarrow> mem \<Rightarrow> parse_result" where
  \<comment> \<open>the label \<open>success\<close> of \<open>parse_array\<close> and \<open>parse_object\<close>\<close>
  "finish_list ty head item b m =
     Some (True, set_child head (set_type ty item),
           b\<lparr>pb_depth := pb_depth b - 1, pb_offset := pb_offset b + 1\<rparr>, m)"

type_synonym list_result = "(bool \<times> cJSON list \<times> parse_buffer \<times> mem) option"

definition swap_name :: "cJSON \<Rightarrow> cJSON" where
  \<comment> \<open>the name was parsed as the value\<close>
  "swap_name item = set_valuestring None (set_string (jvaluestring item) item)"

function parse_value :: "nat \<Rightarrow> cJSON \<Rightarrow> parse_buffer \<Rightarrow> mem \<Rightarrow> parse_result"
  and parse_array :: "nat \<Rightarrow> cJSON \<Rightarrow> parse_buffer \<Rightarrow> mem \<Rightarrow> parse_result"
  and array_elements :: "nat \<Rightarrow> cJSON list \<Rightarrow> parse_buffer \<Rightarrow> mem \<Rightarrow> list_result"
  and parse_object :: "nat \<Rightarrow> cJSON \<Rightarrow> parse_buffer \<Rightarrow> mem \<Rightarrow> parse_result"
  and object_members :: "nat \<Rightarrow> cJSON list \<Rightarrow> parse_buffer \<Rightarrow> mem \<Rightarrow> list_result"
where
  "parse_value 0 item b m = None"
| "parse_value (Suc n) item b m = do {
     null \<leftarrow> literal b (cstr ''null'');
     if null then Some (True, set_type cJSON_NULL item, advance 4 b, m)
     else do {
       false \<leftarrow> literal b (cstr ''false'');
       if false then Some (True, set_type cJSON_False item, advance 5 b, m)
       else do {
         true \<leftarrow> literal b (cstr ''true'');
         if true then Some (True, set_valueint 1 (set_type cJSON_True item), advance 4 b, m)
         else if \<not> can_access_at_index b 0 then Some (False, item, b, m)
         else do {
           c \<leftarrow> char_at b 0;
           if c = 34 then parse_string item b m
           else if c = 45 \<or> 48 \<le> c \<and> c \<le> 57 then parse_number item b m
           else if c = 91 then parse_array n item b m
           else if c = 123 then parse_object n item b m
           else Some (False, item, b, m) } } } }"
| "parse_array 0 item b m = None"
| "parse_array (Suc n) item b m =
     (if pb_depth b \<ge> CJSON_NESTING_LIMIT then Some (False, item, b, m)
      else do {
        let b = b\<lparr>pb_depth := pb_depth b + 1\<rparr>;
        c \<leftarrow> char_at b 0;
        if c \<noteq> 91 then Some (False, item, b, m)
        else do {
          b \<leftarrow> buffer_skip_whitespace (advance 1 b);
          empty \<leftarrow> at_char b 93;
          if empty then finish_list cJSON_Array [] item b m
          else if \<not> can_access_at_index b 0 then do { b \<leftarrow> step_back b; Some (False, item, b, m) }
          else do {
            b \<leftarrow> step_back b;
            (ok, head, b, m) \<leftarrow> array_elements n [] b m;
            if ok then finish_list cJSON_Array head item b m
            else Some (False, item, b, delete_chain head m) } } })"
| "array_elements 0 acc b m = None"
| "array_elements (Suc n) acc b m =
     (case cJSON_New_Item m of
        (None, m) \<Rightarrow> Some (False, acc, b, m)
      | (Some new, m) \<Rightarrow> do {
          b \<leftarrow> buffer_skip_whitespace (advance 1 b);
          (ok, current_item, b, m) \<leftarrow> parse_value n new b m;
          let acc = acc @ [current_item];
          if \<not> ok then Some (False, acc, b, m)
          else do {
            b \<leftarrow> buffer_skip_whitespace b;
            comma \<leftarrow> at_char b 44;
            if comma then array_elements n acc b m
            else do { closed \<leftarrow> at_char b 93; Some (closed, acc, b, m) } } })"
| "parse_object 0 item b m = None"
| "parse_object (Suc n) item b m =
     (if pb_depth b \<ge> CJSON_NESTING_LIMIT then Some (False, item, b, m)
      else do {
        let b = b\<lparr>pb_depth := pb_depth b + 1\<rparr>;
        opened \<leftarrow> at_char b 123;
        if \<not> opened then Some (False, item, b, m)
        else do {
          b \<leftarrow> buffer_skip_whitespace (advance 1 b);
          empty \<leftarrow> at_char b 125;
          if empty then finish_list cJSON_Object [] item b m
          else if \<not> can_access_at_index b 0 then do { b \<leftarrow> step_back b; Some (False, item, b, m) }
          else do {
            b \<leftarrow> step_back b;
            (ok, head, b, m) \<leftarrow> object_members n [] b m;
            if ok then finish_list cJSON_Object head item b m
            else Some (False, item, b, delete_chain head m) } } })"
| "object_members 0 acc b m = None"
| "object_members (Suc n) acc b m =
     (case cJSON_New_Item m of
        (None, m) \<Rightarrow> Some (False, acc, b, m)
      | (Some new, m) \<Rightarrow> do {
          b \<leftarrow> buffer_skip_whitespace (advance 1 b);
          (ok, current_item, b, m) \<leftarrow> parse_string new b m;
          if \<not> ok then Some (False, acc @ [current_item], b, m)
          else do {
            b \<leftarrow> buffer_skip_whitespace b;
            let current_item = swap_name current_item;
            colon \<leftarrow> at_char b 58;
            if \<not> colon then Some (False, acc @ [current_item], b, m)
            else do {
              b \<leftarrow> buffer_skip_whitespace (advance 1 b);
              (ok, current_item, b, m) \<leftarrow> parse_value n current_item b m;
              let acc = acc @ [current_item];
              if \<not> ok then Some (False, acc, b, m)
              else do {
                b \<leftarrow> buffer_skip_whitespace b;
                comma \<leftarrow> at_char b 44;
                if comma then object_members n acc b m
                else do { closed \<leftarrow> at_char b 125; Some (closed, acc, b, m) } } } } })"

  by pat_completeness auto
termination
  by (relation "measure (case_sum (case_sum (\<lambda>x. fst x) (\<lambda>x. fst x)) (case_sum (\<lambda>x. fst x) (case_sum (\<lambda>x. fst x) (\<lambda>x. fst x))))") auto

declare parse_value.simps(2) [simp del] parse_array.simps(2) [simp del] array_elements.simps(2) [simp del]
  parse_object.simps(2) [simp del] object_members.simps(2) [simp del]

subsection \<open>Entry points\<close>

record error =
  err_json :: "bytes option"
  err_position :: nat

definition parse_fuel :: "parse_buffer \<Rightarrow> nat" where
  "parse_fuel b = 3 * (pb_length b - pb_offset b) + 3"

definition parse_failed :: "bytes \<Rightarrow> parse_buffer \<Rightarrow> mem \<Rightarrow> cJSON option \<times> nat option \<times> error \<times> mem" where
  \<comment> \<open>the label \<open>fail\<close> for \<open>value != NULL\<close>, with the item already deleted\<close>
  "parse_failed value b m =
     (let position = (if pb_offset b < pb_length b then pb_offset b
                      else if pb_length b > 0 then pb_length b - 1 else 0)
      in (None, Some position, \<lparr>err_json = Some value, err_position = position\<rparr>, m))"

definition cJSON_ParseWithOpts ::
    "bytes option \<Rightarrow> bool \<Rightarrow> mem \<Rightarrow> (cJSON option \<times> nat option \<times> error \<times> mem) option" where
  \<comment> \<open>the item, what a non-NULL \<open>return_parse_end\<close> receives (an index into \<open>value\<close>), the new
     \<open>global_error\<close> and the allocator\<close>
  "cJSON_ParseWithOpts value require_null_terminated m =
     (let no_error = \<lparr>err_json = None, err_position = 0\<rparr>
      in case value of
           None \<Rightarrow> Some (None, None, no_error, m)
         | Some v \<Rightarrow> do {
             len \<leftarrow> c_strlen v;
             let b = \<lparr>pb_content = v, pb_length = len + 1, pb_offset = 0, pb_depth = 0\<rparr>;
             case cJSON_New_Item m of
               (None, m) \<Rightarrow> Some (parse_failed v b m)
             | (Some item, m) \<Rightarrow> do {
                 b \<leftarrow> skip_utf8_bom b;
                 b \<leftarrow> buffer_skip_whitespace b;
                 (ok, item, b, m) \<leftarrow> parse_value (parse_fuel b) item b m;
                 if \<not> ok then Some (parse_failed v b (cJSON_Delete item m))
                 else if require_null_terminated
                 then do {
                   b \<leftarrow> buffer_skip_whitespace b;
                   if pb_offset b \<ge> pb_length b then Some (parse_failed v b (cJSON_Delete item m))
                   else do {
                     c \<leftarrow> char_at b 0;
                     if c \<noteq> 0 then Some (parse_failed v b (cJSON_Delete item m))
                     else Some (Some item, Some (pb_offset b), no_error, m) } }
                 else Some (Some item, Some (pb_offset b), no_error, m) } })"

definition cJSON_Parse :: "bytes option \<Rightarrow> mem \<Rightarrow> (cJSON option \<times> error \<times> mem) option" where
  "cJSON_Parse value m =
     map_option (\<lambda>(item, _, e, m). (item, e, m)) (cJSON_ParseWithOpts value False m)"

definition cJSON_GetErrorPtr :: "error \<Rightarrow> bytes option" where
  \<comment> \<open>the text from the position on\<close>
  "cJSON_GetErrorPtr e = map_option (drop (err_position e)) (err_json e)"

end
