(* ===== verification/CDoubleFacts.thy ===== *)
theory CDoubleFacts
  imports Complex_Main CDouble
begin

text \<open>
  What the number routines rely on: the decimal and binary scaling of \<open>CDouble\<close> finds the right
  exponent, a rounded value is a representable double, the \<open>%.Pg\<close> text has at most \<open>P + 7\<close>
  characters, all of them digits, a point, signs or an \<open>e\<close>, and an integer below \<open>10 ^ 15\<close> is
  printed as its decimal digits and read back as itself.
\<close>

subsection \<open>Scaling\<close>

lemma scale_pos [simp]: "0 < b \<Longrightarrow> 0 < scale b e"
  by (simp add: scale_def)

lemma scale_powi: "0 < b \<Longrightarrow> real (scale b e) / real (scale b (- e)) = real b powi e"
  by (cases "0 \<le> e") (simp_all add: scale_def power_int_def field_simps)

lemma scale_le_iff:
  assumes "0 < b" and "0 < d"
  shows "scale b x * d \<le> n * scale b (- x) \<longleftrightarrow> real b powi x \<le> real n / real d"
proof -
  have "scale b x * d \<le> n * scale b (- x) \<longleftrightarrow> real (scale b x) * real d \<le> real n * real (scale b (- x))"
    by (metis of_nat_le_iff of_nat_mult)
  also have "\<dots> \<longleftrightarrow> real (scale b x) / real (scale b (- x)) \<le> real n / real d"
    using assms by (simp add: divide_le_eq le_divide_eq field_simps)
  finally show ?thesis using assms by (simp add: scale_powi)
qed

definition is_length :: "nat \<Rightarrow> nat \<Rightarrow> nat \<Rightarrow> bool" where
  "is_length b l n \<longleftrightarrow> 0 < l \<and> b ^ (l - 1) \<le> n \<and> n < b ^ l"

lemma is_length_Suc:
  assumes "is_length b l (n div b)" and "1 < b"
  shows "is_length b (Suc l) n"
proof -
  from assms have l: "0 < l" "b ^ (l - 1) \<le> n div b" "n div b < b ^ l" by (auto simp: is_length_def)
  have "b ^ l = b * b ^ (l - 1)" using l(1) by (simp add: power_eq_if)
  also have "\<dots> \<le> b * (n div b)" using l(2) by simp
  also have "\<dots> \<le> n" by simp
  finally have "b ^ l \<le> n" .
  moreover have "n < b ^ Suc l"
  proof -
    have "n < b + b * (n div b)" using assms(2) by (intro dividend_less_times_div) simp
    also have "\<dots> = b * Suc (n div b)" by simp
    also have "\<dots> \<le> b * b ^ l" using l(3) by (intro mult_le_mono2) simp
    finally show ?thesis by simp
  qed
  ultimately show ?thesis by (simp add: is_length_def)
qed

lemma bit_length_ok: "0 < n \<Longrightarrow> is_length 2 (bit_length n) n"
proof (induction n rule: bit_length.induct)
  case (1 n)
  show ?case
  proof (cases "n = 1")
    case True
    then show ?thesis by (simp add: is_length_def bit_length.simps)
  next
    case False
    with 1 have "is_length 2 (bit_length (n div 2)) (n div 2)" by auto
    then have "is_length 2 (Suc (bit_length (n div 2))) n" by (rule is_length_Suc) simp
    then show ?thesis using \<open>0 < n\<close> by (subst bit_length.simps) simp
  qed
qed

lemma dec_length_ok: "0 < n \<Longrightarrow> is_length 10 (dec_length n) n"
proof (induction n rule: dec_length.induct)
  case (1 n)
  show ?case
  proof (cases "n < 10")
    case True
    with 1 show ?thesis by (subst dec_length.simps) (simp add: is_length_def)
  next
    case False
    with 1 have "is_length 10 (dec_length (n div 10)) (n div 10)" by auto
    then have "is_length 10 (Suc (dec_length (n div 10))) n" by (rule is_length_Suc) simp
    with False show ?thesis by (subst dec_length.simps) simp
  qed
qed

lemma floor_log_ok:
  assumes "is_length b l n" and "is_length b l' d" and "1 < b"
  defines "x \<equiv> floor_log b (int l - int l') n d"
  shows "real b powi x \<le> real n / real d" and "real n / real d < real b powi (x + 1)"
proof -
  define k where "k = int l - int l'"
  have d: "0 < d" using assms(2,3) by (auto simp: is_length_def intro: less_le_trans [of 0 "b ^ (l' - 1)"])
  have n: "real b powi (int l - 1) \<le> real n" "real n < real b powi int l"
    and d': "real b powi (int l' - 1) \<le> real d" "real d < real b powi int l'"
    using assms(1,2) unfolding is_length_def
    by (auto simp flip: of_nat_power simp: of_nat_diff power_int_def nat_diff_distrib)
  have bpos: "0 < real b" using assms(3) by simp
  have "real n / real d < real b powi int l / real b powi (int l' - 1)"
    using n(2) d'(1) bpos d by (intro frac_less) (auto intro: zero_less_power_int)
  also have "\<dots> = real b powi (int l - (int l' - 1))"
    using bpos by (subst power_int_diff) auto
  also have "int l - (int l' - 1) = k + 1" by (simp add: k_def)
  finally have up: "real n / real d < real b powi (k + 1)" .
  have "k - 1 = (int l - 1) - int l'" by (simp add: k_def)
  also have "real b powi \<dots> = real b powi (int l - 1) / real b powi int l'"
    using bpos by (subst power_int_diff) auto
  also have "\<dots> \<le> real n / real d"
    using n(1) d'(2) bpos d by (intro frac_le) auto
  finally have lo: "real b powi (k - 1) \<le> real n / real d" .
  have iff: "scale b k * d \<le> n * scale b (- k) \<longleftrightarrow> real b powi k \<le> real n / real d"
    using scale_le_iff [of b d k n] d bpos by simp
  have x: "x = (if real b powi k \<le> real n / real d then k else k - 1)"
    unfolding x_def floor_log_def k_def [symmetric] iff ..
  show "real b powi x \<le> real n / real d" using lo by (simp add: x)
  show "real n / real d < real b powi (x + 1)" using up by (auto simp: x)
qed

lemma round_div_bounds:
  assumes "0 < d"
  shows "A * d \<le> n \<Longrightarrow> A \<le> round_div n d" and "n \<le> B * d \<Longrightarrow> round_div n d \<le> B"
proof -
  show "A \<le> round_div n d" if "A * d \<le> n"
  proof -
    have "A \<le> n div d" using that assms by (simp add: less_eq_div_iff_mult_less_eq)
    then show ?thesis by (simp add: round_div_def Let_def)
  qed
  show "round_div n d \<le> B" if "n \<le> B * d"
  proof -
    have "n div d \<le> B" using that assms div_le_mono [of n "B * d" d] by simp
    moreover have "n mod d = 0" if "n div d = B"
      using \<open>n \<le> B * d\<close> that by (metis div_mult_mod_eq add_le_same_cancel1 le_zero_eq)
    ultimately show ?thesis using assms by (auto simp: round_div_def Let_def le_less)
  qed
qed

subsection \<open>Rounding to a double\<close>

fun wf_double :: "double \<Rightarrow> bool" where
  "wf_double (DFin s m e) \<longleftrightarrow> m < 2 ^ 53 \<and> -1074 \<le> e \<and> e \<le> 971"
| "wf_double _ \<longleftrightarrow> True"

lemma powi_add_nat: "0 < b \<Longrightarrow> real b powi (x + int k) = real b powi x * real b ^ k"
  by (simp add: power_int_add)

lemma scaled_ratio:
  assumes "0 < b" and "0 < d"
  shows "real (n * scale b (- s)) / real (d * scale b s) = (real n / real d) / real b powi s"
proof -
  have "real (n * scale b (- s)) / real (d * scale b s) = (real n / real d) / (real (scale b s) / real (scale b (- s)))"
    by simp
  then show ?thesis using assms by (simp add: scale_powi)
qed

lemma round_scaled:
  assumes "0 < b" and "0 < d" and "q = round_div (n * scale b (- s)) (d * scale b s)"
  shows "real A * real b powi s \<le> real n / real d \<Longrightarrow> A \<le> q"
    and "real n / real d \<le> real B * real b powi s \<Longrightarrow> q \<le> B"
proof -
  let ?n = "n * scale b (- s)" and ?d = "d * scale b s"
  have d: "0 < ?d" using assms by simp
  have v: "real ?n / real ?d = (real n / real d) / real b powi s" using scaled_ratio assms by blast
  have p: "0 < real b powi s" using assms(1) by simp
  show "A \<le> q" if "real A * real b powi s \<le> real n / real d"
  proof -
    have "real A \<le> real ?n / real ?d" unfolding v using that p pos_le_divide_eq [OF p] by blast
    then have "real (A * ?d) \<le> real ?n" using d by (simp add: pos_le_divide_eq)
    then have "A * ?d \<le> ?n" by (simp only: of_nat_le_iff)
    then show ?thesis using round_div_bounds(1) [OF d] assms(3) by simp
  qed
  show "q \<le> B" if "real n / real d \<le> real B * real b powi s"
  proof -
    have "real ?n / real ?d \<le> real B" unfolding v using that p pos_divide_le_eq [OF p] by blast
    then have "real ?n \<le> real (B * ?d)" using d by (simp add: pos_divide_le_eq)
    then have "?n \<le> B * ?d" by (simp only: of_nat_le_iff)
    then show ?thesis using round_div_bounds(2) [OF d] assms(3) by simp
  qed
qed

lemma wf_round_ratio:
  assumes "0 < d"
  shows "wf_double (round_ratio s n d)"
proof (cases "n = 0")
  case False
  define x where "x = floor_log 2 (int (bit_length n) - int (bit_length d)) n d"
  define e where "e = max (x - 52) (-1074)"
  define q where "q = round_div (n * scale 2 (- e)) (d * scale 2 e)"
  have x: "real n / real d < 2 powi (x + 1)"
    using floor_log_ok(2) [OF bit_length_ok bit_length_ok, of n d] False assms by (simp add: x_def)
  also have "\<dots> \<le> 2 powi (e + 53)" by (intro power_int_increasing) (auto simp: e_def)
  also have "\<dots> = real (2 ^ 53) * 2 powi e" using powi_add_nat [of 2 e 53] by simp
  finally have "q \<le> 2 ^ 53" using round_scaled(2) [OF _ assms q_def, of "2 ^ 53"] by simp
  then have "(q = 2 ^ 53) \<or> q < 2 ^ 53" by auto
  moreover have "-1074 \<le> e" by (simp add: e_def)
  ultimately show ?thesis using False
    by (auto simp: round_ratio_def Let_def x_def [symmetric] e_def [symmetric] q_def [symmetric])
qed (simp add: round_ratio_def)

lemma wf_strtod: "strtod s = (d, n) \<Longrightarrow> wf_double d"
  by (auto simp: strtod_def Let_def split: prod.splits if_splits intro!: wf_round_ratio)

subsection \<open>Decimal digits\<close>

lemma dec_digits_small: "n < 10 \<Longrightarrow> dec_digits n = [digit_char n]"
  by (subst dec_digits.simps) simp

lemma dec_digits_step: "10 \<le> n \<Longrightarrow> dec_digits n = dec_digits (n div 10) @ [digit_char (n mod 10)]"
  by (subst dec_digits.simps) simp

lemma length_dec_digits: "0 < n \<Longrightarrow> length (dec_digits n) = dec_length n"
proof (induction n rule: dec_length.induct)
  case (1 n)
  then show ?case by (cases "n < 10") (simp_all add: dec_digits_small dec_digits_step dec_length.simps [of n])
qed

lemma is_length_unique:
  assumes "is_length b l n" and "is_length b l' n" and "1 < b"
  shows "l = l'"
proof -
  have l: "b ^ (l - 1) \<le> n" "n < b ^ l" "b ^ (l' - 1) \<le> n" "n < b ^ l'" "0 < l" "0 < l'"
    using assms by (auto simp: is_length_def)
  have "b ^ (l - 1) < b ^ l'" "b ^ (l' - 1) < b ^ l" using l by linarith+
  then have "l - 1 < l'" "l' - 1 < l" using assms(3) by (simp_all add: power_strict_increasing_iff)
  with l(5,6) show ?thesis by simp
qed

lemma length_dec_digits_eq: "10 ^ (l - 1) \<le> n \<Longrightarrow> n < 10 ^ l \<Longrightarrow> 0 < l \<Longrightarrow> length (dec_digits n) = l"
proof -
  assume a: "10 ^ (l - 1) \<le> n" "n < 10 ^ l" "0 < l"
  then have "0 < n" by (intro less_le_trans [OF _ a(1)]) simp
  moreover have "is_length 10 l n" using a by (simp add: is_length_def)
  ultimately show ?thesis
    using is_length_unique [of 10 "dec_length n" n l] dec_length_ok [of n] by (simp add: length_dec_digits)
qed

lemma digit_chars: "\<forall>n \<in> set [0..<10]. is_digit (digit_char n) \<and> unat (digit_char n) - 48 = n"
  by code_simp

lemma is_digit_char: "n < 10 \<Longrightarrow> is_digit (digit_char n)"
  using digit_chars by simp

lemma digit_char_value: "n < 10 \<Longrightarrow> unat (digit_char n) - 48 = n"
  using digit_chars by simp

lemma dec_digits_are_digits: "c \<in> set (dec_digits n) \<Longrightarrow> is_digit c"
proof (induction n rule: dec_digits.induct)
  case (1 n)
  then show ?case by (cases "n < 10") (auto simp: dec_digits_small dec_digits_step is_digit_char)
qed

lemma digits_value_append: "digits_value (ds @ [c]) = 10 * digits_value ds + (unat c - 48)"
  by (simp add: digits_value_def)

lemma digits_value_dec: "digits_value (dec_digits n) = n"
proof (induction n rule: dec_digits.induct)
  case (1 n)
  show ?case
  proof (cases "n < 10")
    case True
    then show ?thesis by (simp add: dec_digits_small digits_value_def digit_char_value)
  next
    case False
    with 1 have "digits_value (dec_digits (n div 10)) = n div 10" by simp
    with False show ?thesis
      by (simp add: dec_digits_step digits_value_append digit_char_value)
  qed
qed

lemma dec_digits_not_Nil: "dec_digits n \<noteq> []"
  by (subst dec_digits.simps) simp

subsection \<open>The text of a number\<close>

definition number_text :: "bytes \<Rightarrow> bool" where
  "number_text s \<longleftrightarrow> (\<forall>c \<in> set s. is_digit c \<or> c = 43 \<or> c = 45 \<or> c = 46 \<or> c = 101)"

lemma number_text_append [simp]: "number_text (s @ t) \<longleftrightarrow> number_text s \<and> number_text t"
  by (auto simp: number_text_def)

lemma number_text_Cons [simp]: "number_text (c # s) \<longleftrightarrow> (is_digit c \<or> c = 43 \<or> c = 45 \<or> c = 46 \<or> c = 101) \<and> number_text s"
  by (auto simp: number_text_def)

lemma number_text_Nil [simp]: "number_text []"
  by (simp add: number_text_def)

lemma number_text_digits: "number_text (dec_digits n)"
  using dec_digits_are_digits by (auto simp: number_text_def)

lemma number_text_sub: "number_text s \<Longrightarrow> set t \<subseteq> set s \<Longrightarrow> number_text t"
  by (auto simp: number_text_def)

lemma is_digit_0 [simp]: "is_digit 48"
  by (simp add: is_digit_def)

lemma strip_zeros_sub: "set (strip_zeros ds) \<subseteq> set ds"
  by (auto simp: strip_zeros_def dest: set_dropWhileD)

lemma length_strip_zeros: "length (strip_zeros ds) \<le> length ds"
  using length_dropWhile_le [of _ "rev ds"] by (simp add: strip_zeros_def)

lemma number_text_fraction:
  assumes "number_text ip" and "number_text fp"
  shows "number_text (with_fraction ip fp)"
  using assms number_text_sub [OF assms(2) strip_zeros_sub] by (simp add: with_fraction_def Let_def)

lemma length_with_fraction: "length (with_fraction ip fp) \<le> length ip + 1 + length fp"
  using length_strip_zeros [of fp] by (simp add: with_fraction_def Let_def)

lemma exponent_part_text:
  shows "number_text (exponent_part x)" and "\<bar>x\<bar> < 1000 \<Longrightarrow> length (exponent_part x) \<le> 5"
proof -
  show "number_text (exponent_part x)"
    using number_text_digits by (simp add: exponent_part_def Let_def)
  show "length (exponent_part x) \<le> 5" if "\<bar>x\<bar> < 1000"
  proof (cases "x = 0")
    case True
    then show ?thesis by (simp add: exponent_part_def dec_digits_small)
  next
    case False
    have "length (dec_digits (nat \<bar>x\<bar>)) \<le> 3"
    proof (rule ccontr)
      assume "\<not> length (dec_digits (nat \<bar>x\<bar>)) \<le> 3"
      then have "3 \<le> dec_length (nat \<bar>x\<bar>) - 1" using False by (simp add: length_dec_digits)
      then have "10 ^ 3 \<le> (10::nat) ^ (dec_length (nat \<bar>x\<bar>) - 1)" by (intro power_increasing) auto
      also have "\<dots> \<le> nat \<bar>x\<bar>" using dec_length_ok [of "nat \<bar>x\<bar>"] False by (simp add: is_length_def)
      finally show False using that by simp
    qed
    then show ?thesis by (auto simp: exponent_part_def Let_def)
  qed
qed

definition rounded :: "nat \<Rightarrow> nat \<Rightarrow> nat \<Rightarrow> nat \<times> int" where
  \<comment> \<open>the \<open>P\<close> digits and the exponent of \<open>n / d\<close>\<close>
  "rounded P n d =
     (let x = floor_log 10 (int (dec_length n) - int (dec_length d)) n d;
          s = x - (int P - 1);
          q = round_div (n * scale 10 (- s)) (d * scale 10 s)
      in if q = 10 ^ P then (10 ^ (P - 1), x + 1) else (q, x))"

lemma format_mag_rounded:
  "format_mag P n d = (case rounded P n d of (q, x) \<Rightarrow>
     let ds = dec_digits q
     in if -4 \<le> x \<and> x < int P
        then if 0 \<le> x then with_fraction (take (nat x + 1) ds) (drop (nat x + 1) ds)
             else with_fraction [48] (replicate (nat (- x) - 1) 48 @ ds)
        else with_fraction (take 1 ds) (drop 1 ds) @ exponent_part x)"
  by (simp add: format_mag_def rounded_def Let_def)

lemma rounded_bounds:
  assumes "0 < P" and "0 < n" and "0 < d" and r: "rounded P n d = (q, x)"
  shows "10 ^ (P - 1) \<le> q" and "q < 10 ^ P"
    and "10 powi (x - 1) \<le> real n / real d" and "real n / real d < 10 powi (x + 1)"
proof -
  define x0 where "x0 = floor_log 10 (int (dec_length n) - int (dec_length d)) n d"
  define s where "s = x0 - (int P - 1)"
  define q0 where "q0 = round_div (n * scale 10 (- s)) (d * scale 10 s)"
  have v: "10 powi x0 \<le> real n / real d" "real n / real d < 10 powi (x0 + 1)"
    using floor_log_ok [OF dec_length_ok dec_length_ok, of n d] assms(2,3) by (simp_all add: x0_def)
  have "real (10 ^ (P - 1)) * 10 powi s = 10 powi x0"
    using powi_add_nat [of 10 s "P - 1"] assms(1) by (simp add: s_def of_nat_diff mult.commute)
  then have lo: "10 ^ (P - 1) \<le> q0"
    using v(1) round_scaled(1) [OF _ assms(3) q0_def, of "10 ^ (P - 1)"] by simp
  have "real (10 ^ P) * 10 powi s = 10 powi (x0 + 1)"
    using powi_add_nat [of 10 s P] by (simp add: s_def mult.commute)
  then have hi: "q0 \<le> 10 ^ P"
    using v(2) round_scaled(2) [OF _ assms(3) q0_def, of "10 ^ P"] by simp
  have qx: "(q, x) = (if q0 = 10 ^ P then (10 ^ (P - 1), x0 + 1) else (q0, x0))"
    using r [symmetric] unfolding rounded_def Let_def x0_def s_def q0_def .
  have "(10::nat) ^ (P - 1) < 10 ^ P" using assms(1) by simp
  then show "10 ^ (P - 1) \<le> q" "q < 10 ^ P" using qx lo hi by (auto split: if_splits)
  have mono: "10 powi (x0 - 1) \<le> (10 powi x0 :: real)" "10 powi (x0 + 1) \<le> (10 powi (x0 + 2) :: real)"
    by (simp_all add: power_int_increasing)
  show "10 powi (x - 1) \<le> real n / real d" using qx v mono by (auto split: if_splits)
  show "real n / real d < 10 powi (x + 1)" using qx v mono by (auto split: if_splits simp: add.assoc)
qed

lemma format_mag_text:
  assumes "0 < P" and "0 < n" and "0 < d"
  shows "number_text (format_mag P n d)"
proof -
  obtain q x where r: "rounded P n d = (q, x)" by fastforce
  have t: "number_text (dec_digits q)" by (rule number_text_digits)
  have "number_text (take k (dec_digits q))" "number_text (drop k (dec_digits q))" for k
    using number_text_sub [OF t set_take_subset] number_text_sub [OF t set_drop_subset] by auto
  moreover have "number_text (replicate k 48)" for k by (auto simp: number_text_def)
  ultimately show ?thesis using t
    by (auto simp: format_mag_rounded r Let_def exponent_part_text(1) intro!: number_text_fraction)
qed

lemma length_format_mag:
  assumes "0 < P" and "0 < n" and "0 < d"
    and "10 powi (-400) \<le> real n / real d" and "real n / real d < 10 powi 400"
  shows "length (format_mag P n d) \<le> P + 6"
proof -
  obtain q x where r: "rounded P n d = (q, x)" by fastforce
  note b = rounded_bounds [OF assms(1-3) r]
  have ds: "length (dec_digits q) = P" using length_dec_digits_eq b(1,2) assms(1) by blast
  have "10 powi (-400) < (10 powi (x + 1) :: real)" "10 powi (x - 1) < (10 powi 400 :: real)"
    using assms(4,5) b(3,4) by linarith+
  then have "-400 < x + 1" "x - 1 < 400"
    by (metis not_less power_int_increasing one_le_numeral)+
  then have "length (exponent_part x) \<le> 5" by (intro exponent_part_text(2)) simp
  then show ?thesis
    using ds assms(1) length_with_fraction [of "take 1 (dec_digits q)" "drop 1 (dec_digits q)"]
      length_with_fraction [of "take (nat x + 1) (dec_digits q)" "drop (nat x + 1) (dec_digits q)"]
      length_with_fraction [of "[48]" "replicate (nat (- x) - 1) 48 @ dec_digits q"]
    by (auto simp: format_mag_rounded r Let_def)
qed

lemma to_ratio_pos: "to_ratio m e = (n, d) \<Longrightarrow> 0 < d \<and> (0 < m \<longrightarrow> 0 < n) \<and> real n / real d = real m * 2 powi e"
  using scale_powi [of 2 e] by (auto simp: to_ratio_def simp flip: times_divide_eq_right)

lemma wf_double_range:
  assumes "wf_double (DFin s m e)" and "0 < m" and "to_ratio m e = (n, d)"
  shows "10 powi (-400) \<le> real n / real d" and "real n / real d < 10 powi 400"
proof -
  have v: "real n / real d = real m * 2 powi e" using to_ratio_pos [OF assms(3)] by simp
  have e: "-1074 \<le> e" "e \<le> 971" and m: "real m < 2 ^ 53" "1 \<le> real m"
    using assms(1,2) by (simp_all add: less_imp_of_nat_less flip: of_nat_power)
  have "10 powi (-400) \<le> (2 powi (-1074) :: real)" by (simp add: power_int_def field_simps)
  also have "\<dots> \<le> 2 powi e" using e by (intro power_int_increasing) auto
  also have "\<dots> \<le> real m * 2 powi e" using m by simp
  finally show "10 powi (-400) \<le> real n / real d" using v by simp
  have "real m * 2 powi e < 2 ^ 53 * 2 powi e" using m by simp
  also have "\<dots> \<le> 2 ^ 53 * 2 powi 971" using e by (intro mult_left_mono power_int_increasing) auto
  also have "\<dots> < 10 powi 400" by (simp add: power_int_def)
  finally show "real n / real d < 10 powi 400" using v by simp
qed

lemma format_g_text:
  assumes "wf_double d" and "\<not> is_nan_or_inf d" and "0 < P"
  shows "number_text (format_g P d)" and "length (format_g P d) \<le> P + 7"
proof -
  obtain s m e where d: "d = DFin s m e" using assms(2) by (cases d) (auto simp: is_nan_or_inf_def)
  obtain n k where r: "to_ratio m e = (n, k)" by fastforce
  have p: "0 < k" "0 < m \<Longrightarrow> 0 < n" using to_ratio_pos [OF r] by auto
  show "number_text (format_g P d)"
    using format_mag_text [OF assms(3) _ p(1), of n] p by (simp add: d r)
  show "length (format_g P d) \<le> P + 7"
    using length_format_mag [OF assms(3) _ p(1), of n] p wf_double_range [OF assms(1) [unfolded d] _ r]
    by (cases "m = 0") (auto simp: d r)
qed

subsection \<open>Integers\<close>

lemma round_div_exact: "0 < d \<Longrightarrow> round_div (q * d) d = q"
  by (simp add: round_div_def)

lemma powi_nat_diff: "0 < b \<Longrightarrow> real b powi (int l - 1) = real b ^ (l - 1) \<or> l = 0"
  by (cases l) (auto simp: power_int_def)

lemma floor_log_int:
  assumes "is_length b l n" and "is_length b l1 m" and "is_length b l2 d" and "1 < b" and "0 < d"
    and "real m / real d = real n"
  shows "floor_log b (int l1 - int l2) m d = int l - 1"
proof -
  let ?x = "floor_log b (int l1 - int l2) m d"
  have l: "0 < l" "b ^ (l - 1) \<le> n" "n < b ^ l" using assms(1) by (auto simp: is_length_def)
  have p: "real b powi (int l - 1) = real b ^ (l - 1)" "real b powi int l = real b ^ l"
    using l(1) by (simp_all add: power_int_def nat_diff_distrib)
  have n: "real b powi (int l - 1) \<le> real n" "real n < real b powi int l"
    unfolding p using l by (simp_all flip: of_nat_power)
  have x: "real b powi ?x \<le> real n" "real n < real b powi (?x + 1)"
    using floor_log_ok [OF assms(2-4)] assms(6) by simp_all
  have b: "1 < real b" using assms(4) by simp
  have "real b powi ?x < real b powi int l" "real b powi (int l - 1) < real b powi (?x + 1)"
    using n x by linarith+
  moreover have "real b powi int l \<le> real b powi ?x" if "int l \<le> ?x"
    using that b by (intro power_int_increasing) auto
  moreover have "real b powi (?x + 1) \<le> real b powi (int l - 1)" if "?x + 1 \<le> int l - 1"
    using that b by (intro power_int_increasing) auto
  ultimately have "\<not> int l \<le> ?x" "\<not> ?x + 1 \<le> int l - 1" by (meson not_less)+
  then show ?thesis by linarith
qed

lemma double_of_int_shape:
  assumes "k \<noteq> 0" and "\<bar>k\<bar> < 2 ^ 53"
  obtains j where "double_of_int k = DFin (k < 0) (nat \<bar>k\<bar> * 2 ^ j) (- int j)" and "j < 53"
proof -
  let ?n = "nat \<bar>k\<bar>"
  have n: "0 < ?n" "?n < 2 ^ 53" using assms by (auto simp: nat_less_iff)
  define l where "l = bit_length ?n"
  have il: "is_length 2 l ?n" using bit_length_ok [OF n(1)] by (simp add: l_def)
  have "is_length 2 (bit_length 1) 1" by (rule bit_length_ok) simp
  from floor_log_int [OF il il this] have x: "floor_log 2 (int l - int (bit_length 1)) ?n 1 = int l - 1" by simp
  have "l \<le> 53"
  proof (rule ccontr)
    assume "\<not> l \<le> 53"
    then have "(2::nat) ^ 53 \<le> 2 ^ (l - 1)" by (intro power_increasing) auto
    also have "\<dots> \<le> ?n" using il by (simp add: is_length_def)
    finally show False using n(2) by linarith
  qed
  moreover have "0 < l" using il by (simp add: is_length_def)
  ultimately have e: "max (int l - 1 - 52) (-1074) = - int (53 - l)" by (simp add: of_nat_diff)
  have q: "round_div (?n * scale 2 (int (53 - l))) (1 * scale 2 (- int (53 - l))) = ?n * 2 ^ (53 - l)"
    using round_div_exact [of 1 "?n * 2 ^ (53 - l)"] by (simp add: scale_def)
  have "?n * 2 ^ (53 - l) < 2 ^ l * 2 ^ (53 - l)" using il by (simp add: is_length_def)
  also have "\<dots> = 2 ^ 53" using \<open>l \<le> 53\<close> by (simp flip: power_add)
  finally have ne: "?n * 2 ^ (53 - l) \<noteq> 2 ^ 53" by linarith
  have "?n \<noteq> 0" using n(1) by simp
  then have "double_of_int k = DFin (k < 0) (?n * 2 ^ (53 - l)) (- int (53 - l))"
    unfolding double_of_int_def round_ratio_def Let_def l_def [symmetric] x e minus_minus q if_not_P [OF ne]
    by simp
  then show thesis using \<open>0 < l\<close> by (intro that) auto
qed

lemma dec_digits_shift: "0 < n \<Longrightarrow> dec_digits (n * 10 ^ j) = dec_digits n @ replicate j 48"
proof (induction j)
  case (Suc j)
  have "10 \<le> n * 10 ^ Suc j" using Suc.prems by (simp add: Suc_le_eq)
  then have "dec_digits (n * 10 ^ Suc j) = dec_digits (n * 10 ^ j) @ [digit_char 0]"
    by (simp add: dec_digits_step mult.assoc [symmetric] mult.commute [of _ 10])
  then show ?case using Suc by (simp add: digit_char_def replicate_append_same)
qed simp

lemma strip_zeros_replicate [simp]: "strip_zeros (replicate j 48) = []"
  by (simp add: strip_zeros_def dropWhile_eq_Nil_conv)

lemma format_mag_int:
  assumes "0 < n" and "n < 10 ^ P" and "0 < d" and v: "m = n * d"
  shows "format_mag P m d = dec_digits n"
proof -
  define l where "l = dec_length n"
  have il: "is_length 10 l n" using dec_length_ok [OF assms(1)] by (simp add: l_def)
  have m: "0 < m" using v assms(1,3) by simp
  have x: "floor_log 10 (int (dec_length m) - int (dec_length d)) m d = int l - 1"
    using v assms(3) by (intro floor_log_int [OF il dec_length_ok [OF m] dec_length_ok [OF assms(3)]]) auto
  have l: "0 < l" "l \<le> P"
  proof -
    show "0 < l" using il by (simp add: is_length_def)
    show "l \<le> P"
    proof (rule ccontr)
      assume "\<not> l \<le> P"
      then have "(10::nat) ^ P \<le> 10 ^ (l - 1)" by (intro power_increasing) auto
      also have "\<dots> \<le> n" using il by (simp add: is_length_def)
      finally show False using assms(2) by linarith
    qed
  qed
  then have s: "int l - 1 - (int P - 1) = - int (P - l)" by (simp add: of_nat_diff)
  have q: "round_div (m * scale 10 (int (P - l))) (d * scale 10 (- int (P - l))) = n * 10 ^ (P - l)"
    using round_div_exact [OF assms(3), of "n * 10 ^ (P - l)"] by (simp add: scale_def v ac_simps)
  have "n * 10 ^ (P - l) < 10 ^ l * 10 ^ (P - l)" using il by (simp add: is_length_def)
  also have "\<dots> = 10 ^ P" using l(2) by (simp flip: power_add)
  finally have "n * 10 ^ (P - l) \<noteq> 10 ^ P" by linarith
  then have "rounded P m d = (n * 10 ^ (P - l), int l - 1)"
    unfolding rounded_def Let_def x s minus_minus q by (rule if_not_P)
  moreover have "length (dec_digits n) = l" using assms(1) by (simp add: length_dec_digits l_def)
  ultimately show ?thesis using l
    by (simp add: format_mag_rounded Let_def dec_digits_shift [OF assms(1)] nat_diff_distrib with_fraction_def)
qed

definition int_text :: "int \<Rightarrow> bytes" where
  "int_text k = (if k < 0 then [45] else []) @ dec_digits (nat \<bar>k\<bar>)"

lemma format_g_int:
  assumes "\<bar>k\<bar> < 10 ^ P" and "P \<le> 15"
  shows "format_g P (double_of_int k) = int_text k"
proof (cases "k = 0")
  case True
  then show ?thesis by (simp add: double_of_int_def round_ratio_def int_text_def dec_digits_small digit_char_def)
next
  case False
  have "(10::int) ^ P \<le> 10 ^ 15" using assms(2) by (intro power_increasing) auto
  then have "\<bar>k\<bar> < 2 ^ 53" using assms(1) by simp
  then obtain j where j: "double_of_int k = DFin (k < 0) (nat \<bar>k\<bar> * 2 ^ j) (- int j)"
    using double_of_int_shape [OF False] by blast
  have "format_mag P (nat \<bar>k\<bar> * 2 ^ j) (2 ^ j) = dec_digits (nat \<bar>k\<bar>)"
    using False assms(1) by (intro format_mag_int) (auto simp: nat_less_iff)
  then show ?thesis using False by (simp add: j to_ratio_def scale_def int_text_def)
qed

lemma takeWhile_digits: "takeWhile is_digit (dec_digits n) = dec_digits n"
  and dropWhile_digits: "dropWhile is_digit (dec_digits n) = []"
  by (auto simp: takeWhile_eq_all_conv dec_digits_are_digits dropWhile_eq_Nil_conv)

lemma strtod_int_text: "strtod (int_text k) = (double_of_int k, length (int_text k))"
proof -
  obtain c r where d: "dec_digits (nat \<bar>k\<bar>) = c # r" using dec_digits_not_Nil by (cases "dec_digits (nat \<bar>k\<bar>)") auto
  then have "is_digit c" using dec_digits_are_digits [of c] by (metis list.set_intros(1))
  then have "c \<noteq> 45" "c \<noteq> 43" by (auto simp: is_digit_def)
  then have "split_sign (int_text k) = (k < 0, dec_digits (nat \<bar>k\<bar>))"
    by (auto simp: int_text_def split_sign_def d)
  then show ?thesis
    using dec_digits_not_Nil [of "nat \<bar>k\<bar>"]
    by (simp add: strtod_def takeWhile_digits dropWhile_digits split_fraction_def split_exponent_def
        digits_value_dec scale_def double_of_int_def Let_def)
qed

subsection \<open>A finite double compares equal to itself\<close>

lemma round_ratio_finite: "round_ratio False 0 d = DFin False 0 (-1074)"
  by (simp add: round_ratio_def)

lemma round_ratio_cases: "round_ratio s n d = DInf s \<or> (\<exists>m e. round_ratio s n d = DFin s m e)"
  by (auto simp: round_ratio_def Let_def split: prod.splits if_splits)

lemma compare_double_refl:
  assumes "\<not> is_nan_or_inf d"
  shows "compare_double d d"
proof -
  obtain s m e where d: "d = DFin s m e" using assms by (cases d) (auto simp: is_nan_or_inf_def)
  consider (inf) "CJSON_DOUBLE_PRECISION = DInf False" | (fin) m e where "CJSON_DOUBLE_PRECISION = DFin False m e"
    using round_ratio_cases [of False 1 "10 ^ 16"] unfolding CJSON_DOUBLE_PRECISION_def by blast
  then show ?thesis
  proof cases
    case inf
    show ?thesis unfolding compare_double_def inf by (simp add: d round_ratio_finite)
  next
    case fin
    show ?thesis unfolding compare_double_def fin by (simp add: d round_ratio_finite to_ratio_def)
  qed
qed

end
