(* ===== verification/JsonParseSafe.thy ===== *)
theory JsonParseSafe
  imports JsonScan JsonParse CDoubleFacts
begin

text \<open>
  The parser on every input and every allocator: it terminates within its fuel, reads only
  inside the text, leaks nothing and builds only well-formed items, nested at most
  \<open>CJSON_NESTING_LIMIT\<close> deep.
\<close>

unbundle bit_operations_syntax

subsection \<open>Well-formed items\<close>

fun valid :: "cJSON \<Rightarrow> bool" where
  \<comment> \<open>what the parser builds: no flags, the value the type announces and no other\<close>
  "valid (CJ ty vs vi vd s c) \<longleftrightarrow>
     (case s of None \<Rightarrow> True | Some k \<Rightarrow> c_string k) \<and> wf_double vd \<and>
     (if ty = cJSON_String then (case vs of None \<Rightarrow> False | Some x \<Rightarrow> c_string x) \<and> c = []
      else vs = None \<and>
        (if ty = cJSON_Number then vi = saturate vd \<and> c = []
         else if ty = cJSON_Array then list_all valid c
         else if ty = cJSON_Object then list_all (\<lambda>t. valid t \<and> jstring t \<noteq> None) c
         else (ty = cJSON_False \<or> ty = cJSON_True \<or> ty = cJSON_NULL) \<and> c = []))"

lemma wf_d_zero [simp]: "wf_double d_zero"
  by (simp add: d_zero_def)

fun nesting :: "cJSON \<Rightarrow> nat" and nesting_list :: "cJSON list \<Rightarrow> nat" where
  \<comment> \<open>how deep arrays and objects are nested\<close>
  "nesting (CJ ty vs vi vd s c) =
     (if ty = cJSON_Array \<or> ty = cJSON_Object then Suc (nesting_list c) else 0)"
| "nesting_list [] = 0"
| "nesting_list (t # ts) = max (nesting t) (nesting_list ts)"

lemma nesting_list_le: "nesting_list ts \<le> n \<longleftrightarrow> (\<forall>t \<in> set ts. nesting t \<le> n)"
  by (induction ts) auto

definition fresh :: "cJSON \<Rightarrow> bool" where
  "fresh t \<longleftrightarrow> jvaluestring t = None \<and> jchild t = [] \<and> \<not> is_reference t \<and> \<not> is_const_key t
     \<and> wf_double (jvaluedouble t) \<and> (case jstring t of None \<Rightarrow> True | Some k \<Rightarrow> c_string k)"

definition key_block :: "cJSON \<Rightarrow> int" where
  "key_block t = (if jstring t = None then 1 else 2)"

lemma blocks_fresh: "fresh t \<Longrightarrow> blocks t = key_block t"
  by (cases t) (auto simp: fresh_def key_block_def)

lemma plain_types:
  "ty \<in> {cJSON_False, cJSON_True, cJSON_NULL, cJSON_Number, cJSON_String, cJSON_Array, cJSON_Object}
   \<Longrightarrow> ty AND cJSON_IsReference = 0 \<and> ty AND cJSON_StringIsConst = 0"
  by (auto simp: cJSON_types)

lemma cJSON_types_distinct [simp]:
  "distinct [cJSON_False, cJSON_True, cJSON_NULL, cJSON_Number, cJSON_String, cJSON_Array, cJSON_Object]"
  by (simp add: cJSON_types)

lemma types_neq [simp]:
  "cJSON_False \<noteq> cJSON_String" "cJSON_True \<noteq> cJSON_String" "cJSON_NULL \<noteq> cJSON_String"
  "cJSON_Number \<noteq> cJSON_String" "cJSON_Array \<noteq> cJSON_String" "cJSON_Object \<noteq> cJSON_String"
  "cJSON_False \<noteq> cJSON_Number" "cJSON_True \<noteq> cJSON_Number" "cJSON_NULL \<noteq> cJSON_Number"
  "cJSON_Array \<noteq> cJSON_Number" "cJSON_Object \<noteq> cJSON_Number" "cJSON_String \<noteq> cJSON_Number"
  "cJSON_False \<noteq> cJSON_Array" "cJSON_True \<noteq> cJSON_Array" "cJSON_NULL \<noteq> cJSON_Array"
  "cJSON_Object \<noteq> cJSON_Array" "cJSON_String \<noteq> cJSON_Array" "cJSON_Number \<noteq> cJSON_Array"
  "cJSON_False \<noteq> cJSON_Object" "cJSON_True \<noteq> cJSON_Object" "cJSON_NULL \<noteq> cJSON_Object"
  "cJSON_Array \<noteq> cJSON_Object" "cJSON_String \<noteq> cJSON_Object" "cJSON_Number \<noteq> cJSON_Object"
  by (simp_all add: cJSON_types)

subsection \<open>The contract\<close>

definition settled :: "cJSON \<Rightarrow> parse_buffer \<Rightarrow> mem \<Rightarrow> bool \<times> cJSON \<times> parse_buffer \<times> mem \<Rightarrow> bool" where
  "settled item b m = (\<lambda>(ok, item', b', m'). alloc_ok m' = alloc_ok m \<and>
     (if ok then (\<exists>k. b' = b\<lparr>pb_offset := k\<rparr> \<and> pb_offset b < k \<and> k < pb_length b)
          \<and> valid item' \<and> jstring item' = jstring item \<and> pb_depth b + nesting item' \<le> CJSON_NESTING_LIMIT
          \<and> live m' = live m + blocks item' - blocks item
      else same_text b b' \<and> pb_offset b' \<le> pb_length b
          \<and> item' = item \<and> live m' = live m))"

definition good :: "cJSON \<Rightarrow> parse_buffer \<Rightarrow> mem \<Rightarrow> parse_result \<Rightarrow> bool" where
  "good item b m r \<longleftrightarrow> (\<exists>x. r = Some x \<and> settled item b m x)"

lemma good_Some [simp]: "good item b m (Some x) \<longleftrightarrow> settled item b m x"
  by (simp add: good_def)

definition settles :: "(cJSON \<Rightarrow> parse_buffer \<Rightarrow> mem \<Rightarrow> parse_result) \<Rightarrow> cJSON \<Rightarrow> parse_buffer \<Rightarrow> mem \<Rightarrow> bool" where
  "settles f item b m \<longleftrightarrow> good item b m (f item b m)"

definition listed :: "(cJSON \<Rightarrow> bool) \<Rightarrow> cJSON list \<Rightarrow> parse_buffer \<Rightarrow> mem \<Rightarrow> bool \<times> cJSON list \<times> parse_buffer \<times> mem \<Rightarrow> bool" where
  "listed P acc b m = (\<lambda>(ok, items, b', m'). alloc_ok m' = alloc_ok m \<and>
     (\<exists>new. items = acc @ new \<and> live m' = live m + blocks_list new \<and>
       (if ok then (\<exists>k. b' = b\<lparr>pb_offset := k\<rparr> \<and> pb_offset b < k \<and> k + 1 < pb_length b)
            \<and> (\<forall>t \<in> set new. valid t \<and> P t \<and> pb_depth b + nesting t \<le> CJSON_NESTING_LIMIT)
        else same_text b b' \<and> pb_offset b' \<le> pb_length b)))"

lemma wf_offset [simp]: "wf_pb b \<Longrightarrow> wf_pb (b\<lparr>pb_offset := k\<rparr>) \<longleftrightarrow> k < pb_length b"
  by (simp add: wf_pb_def)

lemma wf_depth [simp]: "wf_pb (b\<lparr>pb_depth := d\<rparr>) \<longleftrightarrow> wf_pb b"
  by (simp add: wf_pb_def)

subsection \<open>Whitespace, literals and numbers\<close>

lemma ws_end_safe:
  "n \<le> length c \<Longrightarrow> i \<le> n \<Longrightarrow> \<exists>j. ws_end c n i = Some j \<and> i \<le> j \<and> j \<le> n"
proof (induction c n i rule: ws_end.induct)
  case (1 c n i)
  show ?case
  proof (cases "i < n")
    case True
    with 1 have r: "read_at c i = Some (c ! i)" by (simp add: read_at_def)
    show ?thesis
    proof (cases "c ! i \<le> 32")
      case le: True
      have "\<exists>j. ws_end c n (i + 1) = Some j \<and> i + 1 \<le> j \<and> j \<le> n"
        using "1.IH" [OF True r le] "1.prems" True by simp
      then show ?thesis using True r le by (subst ws_end.simps) auto
    next
      case False
      with True r show ?thesis by (subst ws_end.simps) simp
    qed
  next
    case False
    with 1 show ?thesis by (subst ws_end.simps) simp
  qed
qed

lemma skip_safe:
  assumes "wf_pb b"
  shows "\<exists>k. buffer_skip_whitespace b = Some (b\<lparr>pb_offset := k\<rparr>) \<and> pb_offset b \<le> k \<and> k < pb_length b"
proof -
  obtain j where "ws_end (pb_content b) (pb_length b) (pb_offset b) = Some j" "pb_offset b \<le> j" "j \<le> pb_length b"
    using ws_end_safe [of "pb_length b" "pb_content b" "pb_offset b"] assms by (auto simp: wf_pb_def)
  then show ?thesis using assms
    by (auto simp: buffer_skip_whitespace_def Let_def step_back_def wf_pb_def)
qed

lemma char_at_safe: "wf_pb b \<Longrightarrow> char_at b 0 = Some (pb_content b ! pb_offset b)"
  by (simp add: char_at_def read_at_def wf_pb_def)

lemma at_char_safe: "wf_pb b \<Longrightarrow> at_char b c = Some (pb_content b ! pb_offset b = c)"
  by (simp add: at_char_def char_at_safe can_access_at_index_def) (simp add: wf_pb_def)

lemma not_at_end:
  "wf_pb b \<Longrightarrow> pb_content b ! pb_offset b \<noteq> 0 \<Longrightarrow> pb_offset b + 1 < pb_length b"
  by (cases "pb_offset b = pb_length b - 1") (auto simp: wf_pb_def)

lemma literal_safe:
  assumes "wf_pb b" and "l \<noteq> []" and "c_string l"
  shows "\<exists>x. literal b l = Some x \<and> (x \<longrightarrow> pb_offset b + length l < pb_length b)"
proof (cases "can_read b (length l)")
  case True
  have len: "pb_offset b + length l \<le> pb_length b" using True by (simp add: can_read_def)
  with assms(1) have rr: "read_range (pb_content b) (pb_offset b) (length l)
      = Some (take (length l) (drop (pb_offset b) (pb_content b)))"
    by (simp add: read_range_def wf_pb_def)
  have "pb_offset b + length l < pb_length b" if eq: "take (length l) (drop (pb_offset b) (pb_content b)) = l"
  proof (rule ccontr)
    assume "\<not> pb_offset b + length l < pb_length b"
    with len have e: "pb_offset b + length l = pb_length b" by simp
    have "l ! (length l - 1) = pb_content b ! (pb_offset b + (length l - 1))"
      using arg_cong [OF eq, of "\<lambda>z. z ! (length l - 1)"] assms e by (simp add: wf_pb_def)
    also have "pb_offset b + (length l - 1) = pb_length b - 1" using e assms(2) by (cases l) auto
    also have "pb_content b ! (pb_length b - 1) = 0" using assms(1) by (simp add: wf_pb_def)
    finally have "l ! (length l - 1) = 0" .
    moreover have "l ! (length l - 1) \<in> set l" using assms(2) by simp
    ultimately show False using assms(3) by (simp add: c_string_def)
  qed
  then show ?thesis using True rr by (simp add: literal_def starts_with_def)
next
  case False
  then show ?thesis by (intro exI [of _ False]) (simp add: literal_def)
qed

lemma number_c_string_safe:
  assumes "wf_pb b"
  shows "pb_offset b + i < pb_length b \<Longrightarrow> \<exists>cs. number_c_string b i k = Some cs \<and> pb_offset b + i + length cs < pb_length b"
proof (induction k arbitrary: i)
  case (Suc k)
  have c: "char_at b i = Some (pb_content b ! (pb_offset b + i))"
    using Suc.prems assms by (simp add: char_at_def read_at_def wf_pb_def)
  show ?case
  proof (cases "number_char (pb_content b ! (pb_offset b + i))")
    case True
    then have "pb_content b ! (pb_offset b + i) \<noteq> 0" by (auto simp: number_char_def)
    then have "pb_offset b + i \<noteq> pb_length b - 1" using assms by (auto simp: wf_pb_def)
    then have "pb_offset b + (i + 1) < pb_length b" using Suc.prems by linarith
    with Suc.IH [of "i + 1"] c True Suc.prems show ?thesis by (auto simp: can_access_at_index_def)
  qed (use c Suc.prems in simp)
qed simp

lemma settled_leaf:
  assumes "pb_offset b < k" and "k < pb_length b" and "pb_depth b \<le> CJSON_NESTING_LIMIT"
    and "valid item'" and "nesting item' = 0" and "jstring item' = jstring item" and "blocks item' = blocks item"
  shows "settled item b m (True, item', b\<lparr>pb_offset := k\<rparr>, m)"
  using assms unfolding settled_def by (auto intro!: exI [of _ k])

lemma fresh_leaf:
  assumes "fresh item" and "ty \<in> {cJSON_False, cJSON_True, cJSON_NULL}"
  shows "valid (set_type ty item)" and "nesting (set_type ty item) = 0"
    and "jstring (set_type ty item) = jstring item" and "blocks (set_type ty item) = blocks item"
  using assms plain_types [of ty] by (cases item; auto simp: fresh_def is_reference_def is_const_key_def)+

lemma fresh_number:
  assumes "fresh item" and "wf_double d"
    and "t = set_type cJSON_Number (set_valueint (saturate d) (set_valuedouble d item))"
  shows "valid t" and "nesting t = 0" and "jstring t = jstring item" and "blocks t = blocks item"
  using assms plain_types [of cJSON_Number]
  by (cases item; auto simp: fresh_def is_reference_def is_const_key_def)+

lemma settled_refuse:
  assumes "wf_pb b"
  shows "settled item b m (False, item, b, m)"
  using assms by (simp add: settled_def wf_pb_def)

lemma settles_number:
  assumes "wf_pb b" and "fresh item" and "pb_depth b \<le> CJSON_NESTING_LIMIT"
  shows "settles parse_number item b m"
proof -
  obtain cs where cs: "number_c_string b 0 63 = Some cs" "pb_offset b + length cs < pb_length b"
    using number_c_string_safe [OF assms(1), of 0 63] assms(1) by (auto simp: wf_pb_def)
  obtain d n where d: "strtod cs = (d, n)" by fastforce
  then have "n \<le> length cs" using strtod_consumed [of cs] by simp
  then have "settled item b m (True, set_type cJSON_Number (set_valueint (saturate d) (set_valuedouble d item)),
      b\<lparr>pb_offset := pb_offset b + n\<rparr>, m)" if "n \<noteq> 0"
    using that cs assms(3) fresh_number [OF assms(2) wf_strtod [OF d]] by (intro settled_leaf) auto
  then show ?thesis using cs(1) d settled_refuse [OF assms(1)]
    by (cases "n = 0") (simp_all add: settles_def parse_number_def Let_def advance_def)
qed

subsection \<open>Strings and values\<close>

lemma fresh_string:
  assumes "fresh item" and "c_string x" and "t = set_valuestring (Some x) (set_type cJSON_String item)"
  shows "valid t" and "nesting t = 0" and "jstring t = jstring item" and "blocks t = blocks item + 1"
  using assms plain_types [of cJSON_String]
  by (cases item; auto simp: fresh_def is_reference_def is_const_key_def)+

lemma settles_string:
  assumes "wf_pb b" and "fresh item" and "pb_depth b \<le> CJSON_NESTING_LIMIT"
  shows "settles parse_string item b m"
proof -
  obtain ok item' b' m' where r: "parse_string item b m = Some (ok, item', b', m')"
    and p: "parsed_string item b m (ok, item', b', m')"
    using parse_string_safe [OF assms(1), of item m] by auto
  have "settled item b m (ok, item', b', m')"
  proof (cases ok)
    case True
    with p obtain x where x: "c_string x" "item' = set_valuestring (Some x) (set_type cJSON_String item)"
      by (auto simp: parsed_string_def)
    then show ?thesis using p True assms(3) fresh_string [OF assms(2) x]
      by (auto simp: parsed_string_def settled_def)
  next
    case False
    with p show ?thesis by (auto simp: parsed_string_def settled_def)
  qed
  with r show ?thesis by (simp add: settles_def)
qed

lemma settles_literal:
  assumes "wf_pb b" and "fresh item" and "pb_depth b \<le> CJSON_NESTING_LIMIT"
    and "ty \<in> {cJSON_False, cJSON_True, cJSON_NULL}" and "0 < n" and "pb_offset b + n < pb_length b"
  shows "settled item b m (True, set_type ty item, advance n b, m)"
    and "settled item b m (True, set_valueint i (set_type ty item), advance n b, m)"
proof -
  note f = fresh_leaf [OF assms(2,4)]
  show "settled item b m (True, set_type ty item, advance n b, m)"
    unfolding advance_def using assms f by (intro settled_leaf) auto
  have "valid (set_valueint i (set_type ty item))" "nesting (set_valueint i (set_type ty item)) = 0"
    "jstring (set_valueint i (set_type ty item)) = jstring item" "blocks (set_valueint i (set_type ty item)) = blocks item"
    using f assms(4) by (cases item; auto simp: is_reference_def is_const_key_def)+
  then show "settled item b m (True, set_valueint i (set_type ty item), advance n b, m)"
    unfolding advance_def using assms by (intro settled_leaf) auto
qed

lemma value_step:
  assumes wf: "wf_pb b" and f: "fresh item" and d: "pb_depth b \<le> CJSON_NESTING_LIMIT"
    and arr: "pb_content b ! pb_offset b = 91 \<Longrightarrow> settles (parse_array n) item b m"
    and obj: "pb_content b ! pb_offset b = 123 \<Longrightarrow> settles (parse_object n) item b m"
  shows "settles (parse_value (Suc n)) item b m"
proof -
  have null: "settled item b m (True, set_type cJSON_NULL item, advance 4 b, m)"
    if "pb_offset b + 4 < pb_length b" using that by (intro settles_literal [OF wf f d]) auto
  have false: "settled item b m (True, set_type cJSON_False item, advance 5 b, m)"
    if "pb_offset b + 5 < pb_length b" using that by (intro settles_literal [OF wf f d]) auto
  have true: "settled item b m (True, set_valueint 1 (set_type cJSON_True item), advance 4 b, m)"
    if "pb_offset b + 4 < pb_length b" using that by (intro settles_literal [OF wf f d]) auto
  obtain x y z where lit: "literal b (cstr ''null'') = Some x" "x \<longrightarrow> pb_offset b + 4 < pb_length b"
      "literal b (cstr ''false'') = Some y" "y \<longrightarrow> pb_offset b + 5 < pb_length b"
      "literal b (cstr ''true'') = Some z" "z \<longrightarrow> pb_offset b + 4 < pb_length b"
    using literal_safe [OF wf, of "cstr ''null''"] literal_safe [OF wf, of "cstr ''false''"]
      literal_safe [OF wf, of "cstr ''true''"] by (auto simp: byte_of_def)
  have c: "char_at b 0 = Some (pb_content b ! pb_offset b)" by (rule char_at_safe [OF wf])
  let ?c = "pb_content b ! pb_offset b"
  let ?rest = "if \<not> can_access_at_index b 0 then Some (False, item, b, m)
    else if ?c = 34 then parse_string item b m
    else if ?c = 45 \<or> 48 \<le> ?c \<and> ?c \<le> 57 then parse_number item b m
    else if ?c = 91 then parse_array n item b m
    else if ?c = 123 then parse_object n item b m
    else Some (False, item, b, m)"
  have eq: "parse_value (Suc n) item b m =
      (if x then Some (True, set_type cJSON_NULL item, advance 4 b, m)
       else if y then Some (True, set_type cJSON_False item, advance 5 b, m)
       else if z then Some (True, set_valueint 1 (set_type cJSON_True item), advance 4 b, m)
       else ?rest)"
    by (simp only: parse_value.simps(2) lit c bind.bind_lunit if_distrib [of "\<lambda>a. Option.bind a f" for f] cong: if_cong)
  have "good item b m ?rest"
    using arr obj settles_string [OF wf f d, of m] settles_number [OF wf f d, of m] settled_refuse [OF wf, of item m]
    unfolding settles_def by (simp split: if_split)
  then show ?thesis
    unfolding settles_def eq using null false true lit(2,4,6) by (simp split: if_split)
qed

subsection \<open>Arrays\<close>

definition fills :: "(cJSON list \<Rightarrow> parse_buffer \<Rightarrow> mem \<Rightarrow> list_result) \<Rightarrow> (cJSON \<Rightarrow> bool) \<Rightarrow>
    cJSON list \<Rightarrow> parse_buffer \<Rightarrow> mem \<Rightarrow> bool" where
  "fills f P acc b m \<longleftrightarrow> (\<exists>r. f acc b m = Some r \<and> listed P acc b m r)"

lemma settled_finish:
  assumes f: "fresh item" and ty: "ty = cJSON_Array \<or> ty = cJSON_Object \<and> (\<forall>t \<in> set head. jstring t \<noteq> None)"
    and d: "pb_depth b < CJSON_NESTING_LIMIT"
    and v: "\<forall>t \<in> set head. valid t \<and> pb_depth b + 1 + nesting t \<le> CJSON_NESTING_LIMIT"
    and k: "pb_offset b < k" "k + 1 < pb_length b"
    and m: "alloc_ok m' = alloc_ok m" "live m' = live m + blocks_list head"
  shows "good item b m (finish_list ty head item (b\<lparr>pb_depth := pb_depth b + 1, pb_offset := k\<rparr>) m')"
proof -
  let ?t = "set_child head (set_type ty item)"
  have "valid ?t" "jstring ?t = jstring item" "blocks ?t = blocks item + blocks_list head"
    "nesting ?t = Suc (nesting_list head)"
    using f ty v plain_types [of ty]
    by (cases item; auto simp: fresh_def is_reference_def is_const_key_def list_all_iff)+
  moreover have "nesting_list head \<le> CJSON_NESTING_LIMIT - (pb_depth b + 1)"
    using v by (auto simp: nesting_list_le)
  moreover have "b\<lparr>pb_depth := pb_depth b + 1, pb_offset := k,
      pb_depth := pb_depth b + 1 - 1, pb_offset := k + 1\<rparr> = b\<lparr>pb_offset := k + 1\<rparr>" by simp
  ultimately show ?thesis using d k m
    by (auto simp: finish_list_def settled_def intro!: exI [of _ "k + 1"])
qed

definition list_tail :: "(cJSON list \<Rightarrow> parse_buffer \<Rightarrow> mem \<Rightarrow> list_result) \<Rightarrow> u8 \<Rightarrow> u32 \<Rightarrow> cJSON \<Rightarrow> parse_buffer \<Rightarrow> mem \<Rightarrow>
    parse_result" where
  \<comment> \<open>what \<open>parse_array\<close> and \<open>parse_object\<close> do after the opening bracket\<close>
  "list_tail elements close ty item b m = do {
     b \<leftarrow> buffer_skip_whitespace (advance 1 b);
     empty \<leftarrow> at_char b close;
     if empty then finish_list ty [] item b m
     else if \<not> can_access_at_index b 0 then do { b \<leftarrow> step_back b; Some (False, item, b, m) }
     else do {
       b \<leftarrow> step_back b;
       (ok, head, b, m) \<leftarrow> elements [] b m;
       if ok then finish_list ty head item b m
       else Some (False, item, b, delete_chain head m) } }"

lemma parse_array_tail:
  "parse_array (Suc n) item b m =
     (if pb_depth b \<ge> CJSON_NESTING_LIMIT then Some (False, item, b, m)
      else do {
        c \<leftarrow> char_at b 0;
        if c \<noteq> 91 then Some (False, item, b\<lparr>pb_depth := pb_depth b + 1\<rparr>, m)
        else list_tail (array_elements n) 93 cJSON_Array item (b\<lparr>pb_depth := pb_depth b + 1\<rparr>) m })"
  unfolding parse_array.simps(2) list_tail_def Let_def by (simp add: char_at_def)

lemma parse_object_tail:
  "parse_object (Suc n) item b m =
     (if pb_depth b \<ge> CJSON_NESTING_LIMIT then Some (False, item, b, m)
      else do {
        opened \<leftarrow> at_char b 123;
        if \<not> opened then Some (False, item, b\<lparr>pb_depth := pb_depth b + 1\<rparr>, m)
        else list_tail (object_members n) 125 cJSON_Object item (b\<lparr>pb_depth := pb_depth b + 1\<rparr>) m })"
  unfolding parse_object.simps(2) list_tail_def Let_def
  by (simp add: at_char_def char_at_def can_access_at_index_def)

lemma list_tail_good:
  assumes wf: "wf_pb b" and f: "fresh item" and d: "pb_depth b < CJSON_NESTING_LIMIT"
    and open_c: "pb_content b ! pb_offset b \<noteq> 0" and "close \<noteq> 0"
    and ty: "ty = cJSON_Array \<or> ty = cJSON_Object \<and> (\<forall>t. P t \<longrightarrow> jstring t \<noteq> None)"
    and el: "\<And>k. pb_offset b \<le> k \<Longrightarrow> k + 1 < pb_length b \<Longrightarrow>
        fills elements P [] (b\<lparr>pb_depth := pb_depth b + 1, pb_offset := k\<rparr>) m"
  shows "good item b m (list_tail elements close ty item (b\<lparr>pb_depth := pb_depth b + 1\<rparr>) m)"
proof -
  let ?b = "b\<lparr>pb_depth := pb_depth b + 1\<rparr>"
  have adv: "pb_offset b + 1 < pb_length b" using not_at_end [OF wf open_c] .
  then obtain k where k: "buffer_skip_whitespace (advance 1 ?b) = Some (?b\<lparr>pb_offset := k\<rparr>)"
      "pb_offset b + 1 \<le> k" "k < pb_length b"
    using skip_safe [of "advance 1 ?b"] wf by (auto simp: advance_def)
  have wf': "wf_pb (?b\<lparr>pb_offset := k\<rparr>)" using wf k(3) by simp
  have acc: "can_access_at_index (?b\<lparr>pb_offset := k\<rparr>) 0" using k by (simp add: can_access_at_index_def)
  show ?thesis
  proof (cases "pb_content b ! k = close")
    case True
    then have "k + 1 < pb_length b" using not_at_end [OF wf'] \<open>close \<noteq> 0\<close> by simp
    then have "good item b m (finish_list ty [] item (?b\<lparr>pb_offset := k\<rparr>) m)"
      using ty k d by (intro settled_finish [OF f]) auto
    then show ?thesis using k(1) at_char_safe [OF wf', of close] True by (simp add: list_tail_def)
  next
    case False
    have bk: "step_back (?b\<lparr>pb_offset := k\<rparr>) = Some (?b\<lparr>pb_offset := k - 1\<rparr>)"
      using k(2) by (simp add: step_back_def)
    obtain ok head b' m' where r: "elements [] (?b\<lparr>pb_offset := k - 1\<rparr>) m = Some (ok, head, b', m')"
      and l: "listed P [] (?b\<lparr>pb_offset := k - 1\<rparr>) m (ok, head, b', m')"
    proof -
      have "pb_offset b \<le> k - 1" "k - 1 + 1 < pb_length b" using k by auto
      from el [OF this] that show ?thesis by (auto simp: fills_def)
    qed
    have eq: "list_tail elements close ty item ?b m =
        (if ok then finish_list ty head item b' m' else Some (False, item, b', delete_chain head m'))"
      using k(1) at_char_safe [OF wf', of close] False acc bk r by (simp add: list_tail_def)
    show ?thesis
    proof (cases ok)
      case True
      with l obtain k' where b': "b' = ?b\<lparr>pb_offset := k'\<rparr>" "k - 1 < k'" "k' + 1 < pb_length b"
        and h: "alloc_ok m' = alloc_ok m" "live m' = live m + blocks_list head"
          "\<forall>t \<in> set head. valid t \<and> P t \<and> pb_depth b + 1 + nesting t \<le> CJSON_NESTING_LIMIT"
        by (auto simp: listed_def)
      have "good item b m (finish_list ty head item b' m')"
        unfolding b'(1) by (rule settled_finish [OF f _ d]) (use ty k(2) b' h in auto)
      then show ?thesis unfolding eq using True by simp
    next
      case False
      with l show ?thesis unfolding eq by (auto simp: listed_def settled_def delete_frees same_text_def)
    qed
  qed
qed

lemma array_step:
  assumes wf: "wf_pb b" and f: "fresh item" and c: "pb_content b ! pb_offset b = 91"
    and el: "\<And>k. pb_depth b < CJSON_NESTING_LIMIT \<Longrightarrow> pb_offset b \<le> k \<Longrightarrow> k + 1 < pb_length b \<Longrightarrow>
        fills (array_elements n) (\<lambda>_. True) [] (b\<lparr>pb_depth := pb_depth b + 1, pb_offset := k\<rparr>) m"
  shows "settles (parse_array (Suc n)) item b m"
proof (cases "pb_depth b < CJSON_NESTING_LIMIT")
  case True
  have "good item b m (list_tail (array_elements n) 93 cJSON_Array item (b\<lparr>pb_depth := pb_depth b + 1\<rparr>) m)"
    using c el True by (intro list_tail_good [OF wf f True, where P = "\<lambda>_. True"]) auto
  then show ?thesis using True c char_at_safe [OF wf] by (simp add: settles_def parse_array_tail)
qed (simp add: settles_def parse_array_tail settled_refuse [OF wf])

lemma object_step:
  assumes wf: "wf_pb b" and f: "fresh item" and c: "pb_content b ! pb_offset b = 123"
    and el: "\<And>k. pb_depth b < CJSON_NESTING_LIMIT \<Longrightarrow> pb_offset b \<le> k \<Longrightarrow> k + 1 < pb_length b \<Longrightarrow>
        fills (object_members n) (\<lambda>t. jstring t \<noteq> None) [] (b\<lparr>pb_depth := pb_depth b + 1, pb_offset := k\<rparr>) m"
  shows "settles (parse_object (Suc n)) item b m"
proof (cases "pb_depth b < CJSON_NESTING_LIMIT")
  case True
  have "good item b m (list_tail (object_members n) 125 cJSON_Object item (b\<lparr>pb_depth := pb_depth b + 1\<rparr>) m)"
    using c el True by (intro list_tail_good [OF wf f True, where P = "\<lambda>t. jstring t \<noteq> None"]) auto
  then show ?thesis using True c at_char_safe [OF wf] by (simp add: settles_def parse_object_tail)
qed (simp add: settles_def parse_object_tail settled_refuse [OF wf])

subsection \<open>The loops\<close>

lemma fresh_new_item [simp]: "fresh new_item"
  by (simp add: fresh_def new_item_def is_reference_def is_const_key_def)

lemma jstring_new_item [simp]: "jstring new_item = None"
  by (simp add: new_item_def)

lemma blocks_new_item [simp]: "blocks new_item = 1"
  by (simp add: blocks_fresh key_block_def)

lemma new_item_cases:
  obtains (no) m1 where "cJSON_New_Item m = (None, m1)" "alloc_ok m1 = alloc_ok m" "live m1 = live m"
  | (yes) m1 where "cJSON_New_Item m = (Some new_item, m1)" "alloc_ok m1 = alloc_ok m" "live m1 = live m + 1"
  by (cases "alloc_ok m (calls m)") (auto simp: cJSON_New_Item_def c_allocate_def)

definition loop_tail :: "(cJSON list \<Rightarrow> parse_buffer \<Rightarrow> mem \<Rightarrow> list_result) \<Rightarrow> u8 \<Rightarrow> cJSON list \<Rightarrow>
    bool \<times> cJSON \<times> parse_buffer \<times> mem \<Rightarrow> list_result" where
  \<comment> \<open>what both loops do with the result of \<open>parse_value\<close>\<close>
  "loop_tail again close acc = (\<lambda>(ok, current_item, b, m).
     let acc = acc @ [current_item]
     in if \<not> ok then Some (False, acc, b, m)
        else do {
          b \<leftarrow> buffer_skip_whitespace b;
          comma \<leftarrow> at_char b 44;
          if comma then again acc b m
          else do { closed \<leftarrow> at_char b close; Some (closed, acc, b, m) } })"

lemma array_elements_tail:
  "array_elements (Suc n) acc b m =
     (case cJSON_New_Item m of
        (None, m) \<Rightarrow> Some (False, acc, b, m)
      | (Some new, m) \<Rightarrow> do {
          b \<leftarrow> buffer_skip_whitespace (advance 1 b);
          r \<leftarrow> parse_value n new b m;
          loop_tail (array_elements n) 93 acc r })"
  unfolding array_elements.simps(2) loop_tail_def by simp

lemma object_members_tail:
  "object_members (Suc n) acc b m =
     (case cJSON_New_Item m of
        (None, m) \<Rightarrow> Some (False, acc, b, m)
      | (Some new, m) \<Rightarrow> do {
          b \<leftarrow> buffer_skip_whitespace (advance 1 b);
          (ok, current_item, b, m) \<leftarrow> parse_string new b m;
          if \<not> ok then Some (False, acc @ [current_item], b, m)
          else do {
            b \<leftarrow> buffer_skip_whitespace b;
            let current_item = swap_name current_item;
            colon \<leftarrow> at_char b 58;
            if \<not> colon then Some (False, acc @ [current_item], b, m)
            else do {
              b \<leftarrow> buffer_skip_whitespace (advance 1 b);
              r \<leftarrow> parse_value n current_item b m;
              loop_tail (object_members n) 125 acc r } } })"
  unfolding object_members.simps(2) loop_tail_def by simp

lemma loop_tail_listed:
  assumes wf: "wf_pb b" and s: "settled item b m (ok, item', b', m')"
    and P: "\<And>t. jstring t = jstring item \<Longrightarrow> P t" and "close \<noteq> 0"
    and al: "alloc_ok m = alloc_ok m0" and lv: "live m = live m0 + blocks item"
    and again: "\<And>acc k m1. pb_offset b < k \<Longrightarrow> k + 1 < pb_length b \<Longrightarrow> fills again P acc (b\<lparr>pb_offset := k\<rparr>) m1"
    and b0: "b = b0\<lparr>pb_offset := k0\<rparr>" "pb_offset b0 \<le> k0"
  shows "\<exists>r. loop_tail again close acc (ok, item', b', m') = Some r \<and> listed P acc b0 m0 r"
proof (cases ok)
  case False
  with s al lv b0 show ?thesis
    by (auto simp: loop_tail_def settled_def listed_def same_text_def intro!: exI [of _ "[item]"])
next
  case True
  with s obtain k where k: "b' = b\<lparr>pb_offset := k\<rparr>" "pb_offset b < k" "k < pb_length b"
    and it: "valid item'" "jstring item' = jstring item" "pb_depth b + nesting item' \<le> CJSON_NESTING_LIMIT"
      "live m' = live m + blocks item' - blocks item" "alloc_ok m' = alloc_ok m"
    by (auto simp: settled_def)
  obtain k' where k': "buffer_skip_whitespace b' = Some (b\<lparr>pb_offset := k'\<rparr>)" "k \<le> k'" "k' < pb_length b"
    using skip_safe [of b'] wf k by auto
  have wf': "wf_pb (b\<lparr>pb_offset := k'\<rparr>)" using wf k'(3) by simp
  have here: "valid item' \<and> P item' \<and> pb_depth b0 + nesting item' \<le> CJSON_NESTING_LIMIT"
    using it P b0 by simp
  have bal: "live m' = live m0 + blocks item'" using it lv by simp
  show ?thesis
  proof (cases "pb_content b ! k' = 44")
    case comma: True
    then have k1: "k' + 1 < pb_length b" using not_at_end [OF wf'] by simp
    obtain ok2 items b2 m2 where r: "again (acc @ [item']) (b\<lparr>pb_offset := k'\<rparr>) m' = Some (ok2, items, b2, m2)"
      and l: "listed P (acc @ [item']) (b\<lparr>pb_offset := k'\<rparr>) m' (ok2, items, b2, m2)"
      using again [OF _ k1, of "acc @ [item']" m'] k k'(2) by (auto simp: fills_def)
    from l obtain new where new: "items = (acc @ [item']) @ new" "live m2 = live m' + blocks_list new"
      by (auto simp: listed_def)
    have "listed P acc b0 m0 (ok2, items, b2, m2)"
    proof (cases ok2)
      case True
      with l new(1) obtain j where "b2 = b\<lparr>pb_offset := k', pb_offset := j\<rparr>" "k' < j" "j + 1 < pb_length b"
        and "alloc_ok m2 = alloc_ok m'"
          "\<forall>t \<in> set new. valid t \<and> P t \<and> pb_depth b + nesting t \<le> CJSON_NESTING_LIMIT"
        by (auto simp: listed_def)
      then show ?thesis using True new bal al it(5) here b0 k k'(2)
        by (auto simp: listed_def intro!: exI [of _ "item' # new"] exI [of _ j])
    next
      case False
      then show ?thesis using l new bal al it(5) here b0 k k'(2)
        by (auto simp: listed_def same_text_def intro!: exI [of _ "item' # new"])
    qed
    then show ?thesis using r True k'(1) at_char_safe [OF wf', of 44] comma
      by (simp add: loop_tail_def)
  next
    case False
    have "loop_tail again close acc (ok, item', b', m')
        = Some (pb_content b ! k' = close, acc @ [item'], b\<lparr>pb_offset := k'\<rparr>, m')"
      using True k'(1) at_char_safe [OF wf', of 44] at_char_safe [OF wf', of close] False
      by (simp add: loop_tail_def)
    moreover have "k' + 1 < pb_length b" if "pb_content b ! k' = close"
      using that not_at_end [OF wf'] \<open>close \<noteq> 0\<close> by simp
    ultimately show ?thesis using bal al it(5) here b0 k k'(2,3)
      by (auto simp: listed_def same_text_def intro!: exI [of _ "[item']"])
  qed
qed

lemma listed_stop:
  "same_text b b' \<Longrightarrow> pb_offset b' \<le> pb_length b \<Longrightarrow> alloc_ok m' = alloc_ok m \<Longrightarrow>
   live m' = live m + blocks_list new \<Longrightarrow> listed P acc b m (False, acc @ new, b', m')"
  by (auto simp: listed_def)

lemma elements_step:
  assumes wf: "wf_pb b" and o: "pb_offset b + 1 < pb_length b"
    and val: "\<And>k m. pb_offset b < k \<Longrightarrow> k < pb_length b \<Longrightarrow> settles (parse_value n) new_item (b\<lparr>pb_offset := k\<rparr>) m"
    and again: "\<And>acc k m. pb_offset b < k \<Longrightarrow> k + 1 < pb_length b \<Longrightarrow>
        fills (array_elements n) (\<lambda>_. True) acc (b\<lparr>pb_offset := k\<rparr>) m"
  shows "fills (array_elements (Suc n)) (\<lambda>_. True) acc b m"
proof (cases rule: new_item_cases [of m])
  case (no m1)
  then show ?thesis using wf listed_stop [of b b m1 m "[]"]
    by (simp add: fills_def array_elements_tail wf_pb_def)
next
  case (yes m1)
  obtain k where k: "buffer_skip_whitespace (advance 1 b) = Some (b\<lparr>pb_offset := k\<rparr>)" "pb_offset b + 1 \<le> k" "k < pb_length b"
    using skip_safe [of "advance 1 b"] wf o by (auto simp: advance_def)
  have wk: "wf_pb (b\<lparr>pb_offset := k\<rparr>)" using wf k(3) by simp
  obtain ok item' b' m' where v: "parse_value n new_item (b\<lparr>pb_offset := k\<rparr>) m1 = Some (ok, item', b', m')"
    and s: "settled new_item (b\<lparr>pb_offset := k\<rparr>) m1 (ok, item', b', m')"
    using val [of k m1] k(2,3) by (auto simp: settles_def good_def)
  have "\<exists>r. loop_tail (array_elements n) 93 acc (ok, item', b', m') = Some r \<and> listed (\<lambda>_. True) acc b m r"
    by (rule loop_tail_listed [OF wk s]) (use yes k again in \<open>auto\<close>)
  then show ?thesis using yes(1) k(1) v by (auto simp: fills_def array_elements_tail)
qed

lemma fresh_swap:
  assumes "c_string x" and "t = swap_name (set_valuestring (Some x) (set_type cJSON_String new_item))"
  shows "fresh t" and "jstring t = Some x" and "blocks t = 2"
  using assms plain_types [of cJSON_String]
  by (auto simp: swap_name_def new_item_def fresh_def is_reference_def is_const_key_def)

lemma members_step:
  assumes wf: "wf_pb b" and o: "pb_offset b + 1 < pb_length b" and d: "pb_depth b \<le> CJSON_NESTING_LIMIT"
    and val: "\<And>item k m. fresh item \<Longrightarrow> pb_offset b < k \<Longrightarrow> k < pb_length b \<Longrightarrow>
        settles (parse_value n) item (b\<lparr>pb_offset := k\<rparr>) m"
    and again: "\<And>acc k m. pb_offset b < k \<Longrightarrow> k + 1 < pb_length b \<Longrightarrow>
        fills (object_members n) (\<lambda>t. jstring t \<noteq> None) acc (b\<lparr>pb_offset := k\<rparr>) m"
  shows "fills (object_members (Suc n)) (\<lambda>t. jstring t \<noteq> None) acc b m"
proof (cases rule: new_item_cases [of m])
  case (no m1)
  then show ?thesis using wf listed_stop [of b b m1 m "[]"]
    by (simp add: fills_def object_members_tail wf_pb_def)
next
  case (yes m1)
  obtain k where k: "buffer_skip_whitespace (advance 1 b) = Some (b\<lparr>pb_offset := k\<rparr>)" "pb_offset b + 1 \<le> k" "k < pb_length b"
    using skip_safe [of "advance 1 b"] wf o by (auto simp: advance_def)
  have wk: "wf_pb (b\<lparr>pb_offset := k\<rparr>)" using wf k(3) by simp
  obtain ok name b1 m2 where str: "parse_string new_item (b\<lparr>pb_offset := k\<rparr>) m1 = Some (ok, name, b1, m2)"
    and p: "parsed_string new_item (b\<lparr>pb_offset := k\<rparr>) m1 (ok, name, b1, m2)"
    using parse_string_safe [OF wk, of new_item m1] by auto
  show ?thesis
  proof (cases ok)
    case False
    with p yes have "listed (\<lambda>t. jstring t \<noteq> None) acc b m (False, acc @ [name], b1, m2)"
      by (intro listed_stop) (auto simp: parsed_string_def same_text_def)
    then show ?thesis using yes(1) k(1) str False by (simp add: fills_def object_members_tail)
  next
    case True
    with p obtain x k1 where x: "c_string x" "name = set_valuestring (Some x) (set_type cJSON_String new_item)"
      and b1: "b1 = b\<lparr>pb_offset := k1\<rparr>" "k < k1" "k1 < pb_length b"
      and m2: "alloc_ok m2 = alloc_ok m1" "live m2 = live m1 + 1"
      by (auto simp: parsed_string_def)
    obtain k2 where k2: "buffer_skip_whitespace b1 = Some (b\<lparr>pb_offset := k2\<rparr>)" "k1 \<le> k2" "k2 < pb_length b"
      using skip_safe [of b1] wf b1 by auto
    have wk2: "wf_pb (b\<lparr>pb_offset := k2\<rparr>)" using wf k2(3) by simp
    define it where "it = swap_name name"
    have it: "fresh it" "jstring it = Some x" "blocks it = 2"
      using fresh_swap [OF x(1), of it] x(2) it_def by auto
    show ?thesis
    proof (cases "pb_content b ! k2 = 58")
      case False
      have "listed (\<lambda>t. jstring t \<noteq> None) acc b m (False, acc @ [it], b\<lparr>pb_offset := k2\<rparr>, m2)"
        using yes m2 it k2 by (intro listed_stop) (auto simp: same_text_def)
      then show ?thesis using yes(1) k(1) str True k2(1) at_char_safe [OF wk2, of 58] False
        by (simp add: fills_def object_members_tail it_def Let_def)
    next
      case colon: True
      then have o2: "k2 + 1 < pb_length b" using not_at_end [OF wk2] by simp
      obtain k3 where k3: "buffer_skip_whitespace (advance 1 (b\<lparr>pb_offset := k2\<rparr>)) = Some (b\<lparr>pb_offset := k3\<rparr>)"
          "k2 + 1 \<le> k3" "k3 < pb_length b"
        using skip_safe [of "advance 1 (b\<lparr>pb_offset := k2\<rparr>)"] wf o2 by (auto simp: advance_def)
      have wk3: "wf_pb (b\<lparr>pb_offset := k3\<rparr>)" using wf k3(3) by simp
      obtain ok' item' b' m' where v: "parse_value n it (b\<lparr>pb_offset := k3\<rparr>) m2 = Some (ok', item', b', m')"
        and s: "settled it (b\<lparr>pb_offset := k3\<rparr>) m2 (ok', item', b', m')"
        using val [OF it(1), of k3 m2] k(2) b1(2) k2(2) k3(2,3) by (auto simp: settles_def good_def)
      have "\<exists>r. loop_tail (object_members n) 125 acc (ok', item', b', m') = Some r
          \<and> listed (\<lambda>t. jstring t \<noteq> None) acc b m r"
        by (rule loop_tail_listed [OF wk3 s]) (use yes k b1 k2 k3 m2 it again in \<open>auto\<close>)
      then show ?thesis using yes(1) k(1) str True k2(1) at_char_safe [OF wk2, of 58] colon k3(1) v
        by (auto simp: fills_def object_members_tail it_def Let_def)
    qed
  qed
qed

subsection \<open>The parser\<close>

lemma parser_settles:
  "(\<forall>b item m. wf_pb b \<longrightarrow> fresh item \<longrightarrow> pb_depth b \<le> CJSON_NESTING_LIMIT \<longrightarrow>
      3 * (pb_length b - pb_offset b) \<le> n \<longrightarrow> settles (parse_value n) item b m) \<and>
   (\<forall>b item m. wf_pb b \<longrightarrow> fresh item \<longrightarrow> pb_content b ! pb_offset b = 91 \<longrightarrow>
      3 * (pb_length b - pb_offset b) \<le> n + 1 \<longrightarrow> settles (parse_array n) item b m) \<and>
   (\<forall>b item m. wf_pb b \<longrightarrow> fresh item \<longrightarrow> pb_content b ! pb_offset b = 123 \<longrightarrow>
      3 * (pb_length b - pb_offset b) \<le> n + 1 \<longrightarrow> settles (parse_object n) item b m) \<and>
   (\<forall>b acc m. wf_pb b \<longrightarrow> pb_offset b + 1 < pb_length b \<longrightarrow> pb_depth b \<le> CJSON_NESTING_LIMIT \<longrightarrow>
      3 * (pb_length b - pb_offset b) \<le> n + 2 \<longrightarrow> fills (array_elements n) (\<lambda>_. True) acc b m) \<and>
   (\<forall>b acc m. wf_pb b \<longrightarrow> pb_offset b + 1 < pb_length b \<longrightarrow> pb_depth b \<le> CJSON_NESTING_LIMIT \<longrightarrow>
      3 * (pb_length b - pb_offset b) \<le> n + 2 \<longrightarrow> fills (object_members n) (\<lambda>t. jstring t \<noteq> None) acc b m)"
proof (induction n)
  case 0
  have "pb_offset b < pb_length b" if "wf_pb b" for b using that by (simp add: wf_pb_def)
  then show ?case by fastforce
next
  case (Suc n)
  note IH = Suc.IH [THEN conjunct1] Suc.IH [THEN conjunct2, THEN conjunct1]
    Suc.IH [THEN conjunct2, THEN conjunct2, THEN conjunct1]
    Suc.IH [THEN conjunct2, THEN conjunct2, THEN conjunct2, THEN conjunct1]
    Suc.IH [THEN conjunct2, THEN conjunct2, THEN conjunct2, THEN conjunct2]
  have pos: "0 < pb_length b - pb_offset b" if "wf_pb b" for b using that by (simp add: wf_pb_def)
  show ?case
  proof (intro conjI allI impI)
    fix b item m
    assume "wf_pb b" "fresh item" "pb_depth b \<le> CJSON_NESTING_LIMIT" "3 * (pb_length b - pb_offset b) \<le> Suc n"
    then show "settles (parse_value (Suc n)) item b m"
      by (intro value_step) (auto intro!: IH(2,3) [rule_format])
  next
    fix b item m
    assume "wf_pb b" "fresh item" "pb_content b ! pb_offset b = 91" "3 * (pb_length b - pb_offset b) \<le> Suc n + 1"
    then show "settles (parse_array (Suc n)) item b m"
      by (intro array_step) (auto intro!: IH(4) [rule_format])
  next
    fix b item m
    assume "wf_pb b" "fresh item" "pb_content b ! pb_offset b = 123" "3 * (pb_length b - pb_offset b) \<le> Suc n + 1"
    then show "settles (parse_object (Suc n)) item b m"
      by (intro object_step) (auto simp del: not_None_eq intro!: IH(5) [rule_format])
  next
    fix b acc m
    assume "wf_pb b" "pb_offset b + 1 < pb_length b" "pb_depth b \<le> CJSON_NESTING_LIMIT"
      "3 * (pb_length b - pb_offset b) \<le> Suc n + 2"
    then show "fills (array_elements (Suc n)) (\<lambda>_. True) acc b m"
      by (intro elements_step) (auto intro!: IH(1,4) [rule_format])
  next
    fix b acc m
    assume "wf_pb b" "pb_offset b + 1 < pb_length b" "pb_depth b \<le> CJSON_NESTING_LIMIT"
      "3 * (pb_length b - pb_offset b) \<le> Suc n + 2"
    then show "fills (object_members (Suc n)) (\<lambda>t. jstring t \<noteq> None) acc b m"
      by (intro members_step) (auto simp del: not_None_eq intro!: IH(1,5) [rule_format])
  qed
qed

lemma parse_value_settles:
  assumes "wf_pb b" and "fresh item" and "pb_depth b \<le> CJSON_NESTING_LIMIT"
  shows "settles (parse_value (parse_fuel b)) item b m"
  using parser_settles [of "parse_fuel b"] assms by (simp add: parse_fuel_def)

lemma bom_safe:
  assumes "wf_pb b" and "pb_offset b = 0"
  shows "\<exists>k. skip_utf8_bom b = Some (b\<lparr>pb_offset := k\<rparr>) \<and> k < pb_length b"
proof -
  have "b = b\<lparr>pb_offset := 0\<rparr>" using assms(2) by simp
  then show ?thesis
    using assms by (auto simp: skip_utf8_bom_def can_access_at_index_def starts_with_def read_range_def
        wf_pb_def advance_def intro: exI [of _ "0::nat"])
qed

definition parse_outcome :: "bytes \<Rightarrow> bool \<Rightarrow> mem \<Rightarrow> cJSON option \<times> nat option \<times> error \<times> mem \<Rightarrow> bool" where
  "parse_outcome v req m = (\<lambda>(item, end, e, m'). alloc_ok m' = alloc_ok m \<and>
     (\<exists>k. end = Some k \<and> k \<le> length (string_of_buf v) \<and>
       (case item of
          Some t \<Rightarrow> valid t \<and> jstring t = None \<and> nesting t \<le> CJSON_NESTING_LIMIT
            \<and> live m' = live m + blocks t \<and> e = \<lparr>err_json = None, err_position = 0\<rparr>
            \<and> (req \<longrightarrow> k = length (string_of_buf v))
        | None \<Rightarrow> live m' = live m \<and> e = \<lparr>err_json = Some v, err_position = k\<rparr>)))"

lemma parse_failed_outcome:
  assumes "pb_length b = length (string_of_buf v) + 1" and "alloc_ok m' = alloc_ok m" and "live m' = live m"
  shows "parse_outcome v req m (parse_failed v b m')"
  using assms by (auto simp: parse_outcome_def parse_failed_def Let_def)

lemma ParseWithOpts_outcome:
  assumes "0 \<in> set v"
  shows "\<exists>r. cJSON_ParseWithOpts (Some v) req m = Some r \<and> parse_outcome v req m r"
proof -
  obtain len where len: "c_strlen v = Some len" using c_strlen_ex [OF assms] by blast
  then have v: "len < length v" "v ! len = 0" "len = length (string_of_buf v)"
    using c_strlen_Some c_strlen_string_of_buf by blast+
  define b where "b = \<lparr>pb_content = v, pb_length = len + 1, pb_offset = 0, pb_depth = 0\<rparr>"
  have wf: "wf_pb b" using v by (simp add: wf_pb_def b_def)
  have L: "pb_length b = length (string_of_buf v) + 1" using v by (simp add: b_def)
  have D: "pb_depth b = 0" "pb_offset b = 0" "pb_content b = v" "pb_length b = len + 1" by (simp_all add: b_def)
  note compute = cJSON_ParseWithOpts_def Let_def len b_def [symmetric, simplified]
  show ?thesis
  proof (cases rule: new_item_cases [of m])
    case (no m1)
    then show ?thesis using parse_failed_outcome [OF L, of m1 m req] by (simp add: compute)
  next
    case (yes m1)
    obtain k where k: "skip_utf8_bom b = Some (b\<lparr>pb_offset := k\<rparr>)" "k < pb_length b"
      using bom_safe [OF wf] D by auto
    obtain k1 where k1: "buffer_skip_whitespace (b\<lparr>pb_offset := k\<rparr>) = Some (b\<lparr>pb_offset := k1\<rparr>)" "k1 < pb_length b"
      using skip_safe [of "b\<lparr>pb_offset := k\<rparr>"] wf k by auto
    let ?b = "b\<lparr>pb_offset := k1\<rparr>"
    obtain ok item b' m2 where r: "parse_value (parse_fuel ?b) new_item ?b m1 = Some (ok, item, b', m2)"
      and s: "settled new_item ?b m1 (ok, item, b', m2)"
      using parse_value_settles [of ?b new_item m1] wf k1 D by (auto simp: settles_def good_def)
    show ?thesis
    proof (cases ok)
      case False
      with s yes have "parse_outcome v req m (parse_failed v b' (cJSON_Delete item m2))"
        by (intro parse_failed_outcome) (auto simp: settled_def same_text_def delete_frees L)
      then show ?thesis using yes k k1 r False by (simp add: compute)
    next
      case True
      with s obtain k2 where k2: "b' = b\<lparr>pb_offset := k2\<rparr>" "k2 < pb_length b"
        and t: "valid item" "jstring item = None" "nesting item \<le> CJSON_NESTING_LIMIT"
          "live m2 = live m1 + blocks item - 1" "alloc_ok m2 = alloc_ok m1"
        using D by (auto simp: settled_def)
      show ?thesis
      proof (cases req)
        case False
        then show ?thesis using yes k k1 r True k2 t L
          by (simp add: compute parse_outcome_def)
      next
        case req: True
        obtain k3 where k3: "buffer_skip_whitespace b' = Some (b\<lparr>pb_offset := k3\<rparr>)" "k3 < pb_length b"
          using skip_safe [of b'] wf k2 by auto
        have c: "char_at (b\<lparr>pb_offset := k3\<rparr>) 0 = Some (v ! k3)"
          using char_at_safe [of "b\<lparr>pb_offset := k3\<rparr>"] wf k3 D by simp
        show ?thesis
        proof (cases "v ! k3 = 0")
          case zero: True
          then have "k3 = len" using c_strlen_first [OF len, of k3] k3(2) zero D by simp
          then show ?thesis using yes k k1 r True req k3 c zero t v(3) [symmetric]
            by (simp add: compute parse_outcome_def)
        next
          case False
          have "parse_outcome v req m (parse_failed v (b\<lparr>pb_offset := k3\<rparr>) (cJSON_Delete item m2))"
            using t yes by (intro parse_failed_outcome) (auto simp: delete_frees L)
          then show ?thesis using yes k k1 r True req k3 c False by (simp add: compute)
        qed
      qed
    qed
  qed
qed

subsection \<open>Properties\<close>

text \<open>
  C4: on every NUL-terminated text and with every pattern of allocation failures the parser
  terminates and never leaves the text: it returns either a well-formed item (each type with
  its own value and nothing else, a key on every member of an object), nested at most 1000
  deep, owning exactly the blocks that were allocated, or no item, in which case every block has
  been freed and the error position is inside the text or on its NUL.  When the caller asks for
  it, success means that nothing but whitespace follows the value.
\<close>

theorem cJSON_ParseWithOpts_safe:
  assumes "0 \<in> set v"
  shows "\<exists>item end e m'. cJSON_ParseWithOpts (Some v) req m = Some (item, Some end, e, m')
    \<and> end \<le> length (string_of_buf v)
    \<and> (case item of
         Some t \<Rightarrow> valid t \<and> jstring t = None \<and> nesting t \<le> CJSON_NESTING_LIMIT
           \<and> live m' = live m + blocks t \<and> e = \<lparr>err_json = None, err_position = 0\<rparr>
           \<and> (req \<longrightarrow> end = length (string_of_buf v))
       | None \<Rightarrow> live m' = live m \<and> e = \<lparr>err_json = Some v, err_position = end\<rparr>)"
  using ParseWithOpts_outcome [OF assms, of req m] by (auto simp: parse_outcome_def)

definition roomy :: mem where
  \<comment> \<open>an allocator that always succeeds\<close>
  "roomy = \<lparr>alloc_ok = (\<lambda>_. True), calls = 0, live = 0, junk = (\<lambda>_. 0xAA)\<rparr>"

theorem cJSON_ParseWithOpts_safe_witness:
  "\<exists>item end e m'. cJSON_ParseWithOpts (Some (cstr ''{'' @ [0])) True roomy = Some (item, Some end, e, m')
    \<and> end \<le> length (string_of_buf (cstr ''{'' @ [0]))
    \<and> (case item of
         Some t \<Rightarrow> valid t \<and> jstring t = None \<and> nesting t \<le> CJSON_NESTING_LIMIT
           \<and> live m' = live roomy + blocks t \<and> e = \<lparr>err_json = None, err_position = 0\<rparr>
           \<and> (True \<longrightarrow> end = length (string_of_buf (cstr ''{'' @ [0])))
       | None \<Rightarrow> live m' = live roomy \<and> e = \<lparr>err_json = Some (cstr ''{'' @ [0]), err_position = end\<rparr>)"
  by (rule cJSON_ParseWithOpts_safe) simp

end
