(* ===== verification/JsonEmit.thy ===== *)
theory JsonEmit
  imports JsonString
begin

text \<open>
  The contract of the print routines of \<open>JSON/cJSON.c\<close>.  Every one of them extends the text at
  the cursor of a \<open>printbuffer\<close>: \<open>emits p m T r\<close> says that the result \<open>r\<close> of a routine started
  at \<open>p\<close> is defined (no access outside the buffer), keeps the allocator's books, has stored
  the text \<open>T\<close> and its NUL at the cursor when it returns true, and returns false only when there
  is no such text, an allocation fails or the room is not enough.

  \<open>writing\<close> is the state inside a routine: the text \<open>x\<close> is behind the cursor, the bytes \<open>y\<close> lie
  ahead of it.  One rule per primitive (\<open>ensure\<close>, a store, a move of the cursor, a call of
  another routine) carries it along; the locale \<open>emitter\<close> of \<open>JsonPrintSafe\<close> is the interface a routine offers.
\<close>

subsection \<open>State and contract\<close>

definition capacity :: "printbuffer \<Rightarrow> nat" where
  "capacity p = (if noalloc p then out_length p else INT_LIMIT)"

definition same_mode :: "printbuffer \<Rightarrow> printbuffer \<Rightarrow> bool" where
  "same_mode p q \<longleftrightarrow> noalloc q = noalloc p \<and> format q = format p \<and> has_realloc q = has_realloc p
     \<and> (noalloc p \<longrightarrow> out_length q = out_length p)"

definition ok_cursor :: "printbuffer \<Rightarrow> bool" where
  "ok_cursor p \<longleftrightarrow> out_length p \<le> INT_LIMIT \<and>
     (out_offset p < out_length p
      \<or> out_length p = 0 \<and> out_offset p = 0 \<and> (has_realloc p \<or> noalloc p))"

definition ok_out :: "printbuffer \<Rightarrow> bool" where
  "ok_out p \<longleftrightarrow> ok_cursor p \<and> (\<exists>b. out_buffer p = Some b \<and> out_length p \<le> length b)"

definition owned :: "printbuffer \<Rightarrow> int" where
  "owned p = (if out_buffer p = None then 0 else 1)"

definition fits :: "printbuffer \<Rightarrow> mem \<Rightarrow> nat \<Rightarrow> bool" where
  \<comment> \<open>room for a text of \<open>n\<close> bytes, its NUL and the one byte \<open>ensure\<close> adds\<close>
  "fits p m n \<longleftrightarrow> (noalloc p \<or> (\<forall>k. alloc_ok m k)) \<and> out_offset p + n + 2 \<le> capacity p"

definition emitted :: "printbuffer \<Rightarrow> bytes \<Rightarrow> printbuffer \<Rightarrow> bool" where
  "emitted p t q \<longleftrightarrow> c_string t \<and> same_mode p q \<and> out_depth q = out_depth p
     \<and> out_offset p \<le> out_offset q \<and> out_offset q \<le> out_offset p + length t
     \<and> out_offset p + length t < out_length q \<and> out_length q \<le> INT_LIMIT
     \<and> (\<exists>b0 b rest. out_buffer p = Some b0 \<and> out_buffer q = Some b \<and> out_length q \<le> length b
          \<and> out_offset p \<le> length b0 \<and> b = take (out_offset p) b0 @ t @ 0 # rest)"

definition emits :: "printbuffer \<Rightarrow> mem \<Rightarrow> bytes option \<Rightarrow> print_result \<Rightarrow> bool" where
  "emits p m T r \<longleftrightarrow> (\<exists>ok q m'. r = Some (ok, q, m') \<and> alloc_ok m' = alloc_ok m
     \<and> live m' - owned q = live m - owned p
     \<and> (if ok then \<exists>t. T = Some t \<and> emitted p t q else \<forall>t. T = Some t \<longrightarrow> \<not> fits p m (length t)))"

definition writing :: "printbuffer \<Rightarrow> mem \<Rightarrow> bytes \<Rightarrow> bytes \<Rightarrow> printbuffer \<Rightarrow> mem \<Rightarrow> bool" where
  "writing p m x y q m' \<longleftrightarrow> c_string x \<and> same_mode p q \<and> ok_cursor q
     \<and> alloc_ok m' = alloc_ok m \<and> live m' = live m
     \<and> out_offset q = out_offset p + length x \<and> out_offset q + length y \<le> out_length q
     \<and> (\<exists>b0 b rest. out_buffer p = Some b0 \<and> out_buffer q = Some b \<and> out_length q \<le> length b
          \<and> out_offset p \<le> length b0 \<and> b = take (out_offset p) b0 @ x @ y @ rest)"

lemma same_mode_refl [simp]: "same_mode p p"
  by (simp add: same_mode_def)

lemma same_mode_trans: "same_mode p q \<Longrightarrow> same_mode q r \<Longrightarrow> same_mode p r"
  by (simp add: same_mode_def)

lemma capacity_same: "same_mode p q \<Longrightarrow> capacity q = capacity p"
  by (simp add: same_mode_def capacity_def)

lemma ex_take_append: "\<exists>rest. b = take n b @ rest"
  by (metis append_take_drop_id)

lemma writing_start: "ok_out p \<Longrightarrow> writing p m [] [] p m"
  unfolding writing_def ok_out_def ok_cursor_def
  by (auto intro: ex_take_append)

lemma writing_ok_out: "writing p m x y q m' \<Longrightarrow> ok_out q"
  by (auto simp: writing_def ok_out_def)

lemma emits_refuse: "emits p m None (Some (False, p, m))"
  unfolding emits_def by (intro exI [of _ False]) auto

lemma emits_False:
  "alloc_ok m' = alloc_ok m \<Longrightarrow> live m' - owned q = live m - owned p \<Longrightarrow>
   (\<And>t. T = Some t \<Longrightarrow> \<not> fits p m (length t)) \<Longrightarrow> emits p m T (Some (False, q, m'))"
  unfolding emits_def by (intro exI [of _ False]) auto

subsection \<open>Rules\<close>

lemma writing_fits:
  assumes "writing p m x y q m'" and "\<not> fits q m' n" and "length x + n \<le> k"
  shows "\<not> fits p m k"
proof -
  have "capacity q = capacity p" "noalloc q = noalloc p" "alloc_ok m' = alloc_ok m"
    "out_offset q = out_offset p + length x"
    using assms(1) by (auto simp: writing_def capacity_same same_mode_def)
  with assms(2,3) show ?thesis by (auto simp: fits_def)
qed

lemma length_c_reallocate: "c_reallocate b n m = (Some b', m') \<Longrightarrow> length b' = n"
  by (auto simp: c_reallocate_def split: if_splits)

lemma drop_buffer_fails:
  "out_buffer q = Some b \<Longrightarrow> \<exists>q' m'. drop_buffer q (m\<lparr>calls := c\<rparr>) = Some (False, q', m')
     \<and> alloc_ok m' = alloc_ok m \<and> live m' - owned q' = live m - owned q"
  by (simp add: drop_buffer_def c_deallocate_def owned_def)

lemma ensure_ok_out:
  assumes "ok_cursor q" and b: "out_buffer q = Some b" "out_length q \<le> length b" and "0 < n"
  shows "(\<exists>n' b' m'. ensure q n m = Some (True, q\<lparr>out_length := n', out_buffer := Some b'\<rparr>, m')
              \<and> out_offset q + n + 1 \<le> n' \<and> n' \<le> length b' \<and> n' \<le> INT_LIMIT
              \<and> take (out_offset q) b' = take (out_offset q) b \<and> (noalloc q \<longrightarrow> n' = out_length q)
              \<and> alloc_ok m' = alloc_ok m \<and> live m' = live m)
         \<or> (\<exists>q' m'. ensure q n m = Some (False, q', m') \<and> alloc_ok m' = alloc_ok m
              \<and> live m' - owned q' = live m - owned q \<and> \<not> fits q m (n - 1))"
    (is "?yes \<or> ?no")
proof -
  define need where "need = n + out_offset q + 1"
  define size where "size = (if need > INT_LIMIT div 2 then INT_LIMIT else need * 2)"
  have inside: "\<not> (0 < out_length q \<and> out_length q \<le> out_offset q)"
    using assms(1) by (auto simp: ok_cursor_def)
  have limit: "out_length q \<le> INT_LIMIT" using assms(1) by (simp add: ok_cursor_def)
  have step: "ensure q n m = (if n > INT_LIMIT then Some (False, q, m)
      else if need \<le> out_length q then Some (True, q, m)
      else if noalloc q \<or> need > INT_LIMIT then Some (False, q, m)
      else if has_realloc q
      then (case c_reallocate b size m of (None, m) \<Rightarrow> drop_buffer q m
            | (Some b', m) \<Rightarrow> Some (True, q\<lparr>out_length := size, out_buffer := Some b'\<rparr>, m))
      else (case c_allocate m of (False, m) \<Rightarrow> drop_buffer q m
            | (True, m) \<Rightarrow> do {
                old \<leftarrow> read_range b 0 (out_offset q + 1);
                b' \<leftarrow> write_at (fresh_bytes m size) 0 old;
                Some (True, q\<lparr>out_length := size, out_buffer := Some b'\<rparr>, c_deallocate m) }))"
    using inside b(1) unfolding ensure_def Let_def need_def size_def
    by (auto simp: not_less not_le)
  consider (huge) "n > INT_LIMIT" | (room) "n \<le> INT_LIMIT" "need \<le> out_length q"
    | (full) "n \<le> INT_LIMIT" "\<not> need \<le> out_length q" "noalloc q \<or> need > INT_LIMIT"
    | (grow) "n \<le> INT_LIMIT" "\<not> need \<le> out_length q" "\<not> noalloc q" "need \<le> INT_LIMIT"
    by linarith
  then show ?thesis
  proof cases
    case huge
    then have ?no using step limit \<open>0 < n\<close> by (auto simp: fits_def capacity_def)
    then show ?thesis ..
  next
    case room
    then have "ensure q n m = Some (True, q\<lparr>out_length := out_length q, out_buffer := Some b\<rparr>, m)"
      using step b(1) by (auto simp flip: b(1))
    then have ?yes using room b(2) limit by (intro exI [of _ "out_length q"] exI [of _ b] exI [of _ m]) (simp add: need_def)
    then show ?thesis ..
  next
    case full
    then have ?no using step limit \<open>0 < n\<close> by (auto simp: fits_def capacity_def need_def)
    then show ?thesis ..
  next
    case grow
    have size: "need \<le> size" "size \<le> INT_LIMIT"
      using grow(4) by (auto simp: size_def)
    have off: "out_offset q < out_length q \<or> out_length q = 0 \<and> out_offset q = 0 \<and> has_realloc q"
      using assms(1) grow(3) by (auto simp: ok_cursor_def)
    show ?thesis
    proof (cases "alloc_ok m (calls m)")
      case False
      then have "ensure q n m = drop_buffer q (m\<lparr>calls := Suc (calls m)\<rparr>)"
        using step grow by (auto simp: c_reallocate_def c_allocate_def)
      moreover have "\<not> fits q m (n - 1)" using False grow(3) by (auto simp: fits_def)
      ultimately have ?no using drop_buffer_fails [OF b(1)] by metis
      then show ?thesis ..
    next
      case True
      show ?thesis
      proof (cases "has_realloc q")
        case realloc: True
        define b' where "b' = take size b @ drop (length b) (fresh_bytes m size)"
        have "ensure q n m = Some (True, q\<lparr>out_length := size, out_buffer := Some b'\<rparr>, m\<lparr>calls := Suc (calls m)\<rparr>)"
          using step grow True realloc by (simp add: c_reallocate_def b'_def)
        moreover have "take (out_offset q) b' = take (out_offset q) b" "size \<le> length b'"
          using size off b(2) by (auto simp: b'_def need_def min_def)
        ultimately have ?yes using grow(3) size
          by (intro exI [of _ size] exI [of _ b']) (auto simp: need_def)
        then show ?thesis ..
      next
        case malloc: False
        with off b(2) have in_b: "out_offset q + 1 \<le> length b" by simp
        have "length (take (out_offset q + 1) b) \<le> size"
          using size by (simp add: need_def min_def)
        then obtain rest where w: "write_at (fresh_bytes (snd (c_allocate m)) size) 0 (take (out_offset q + 1) b)
            = Some (take (out_offset q + 1) b @ rest)"
            and r: "length rest = size - (out_offset q + 1)"
          using in_b by (simp add: write_at_def)
        define b' where "b' = take (out_offset q + 1) b @ rest"
        have "ensure q n m = Some (True, q\<lparr>out_length := size, out_buffer := Some b'\<rparr>,
            m\<lparr>calls := Suc (calls m), live := live m\<rparr>)"
          using step grow True malloc in_b w
          by (simp add: c_allocate_def read_range_def c_deallocate_def b'_def)
        moreover have "take (out_offset q) b' = take (out_offset q) b" "size \<le> length b'"
          using size in_b r by (auto simp: b'_def need_def min_def)
        ultimately have ?yes using grow(3) size
          by (intro exI [of _ size] exI [of _ b']) (auto simp: need_def)
        then show ?thesis ..
      qed
    qed
  qed
qed

lemma ensure_rule:
  assumes w: "writing p m x [] q m1" and "0 < n"
    and fit: "\<And>t. T = Some t \<Longrightarrow> length x + n \<le> length t + 1"
    and go: "\<And>n' b' m'. writing p m x [] (q\<lparr>out_length := n', out_buffer := Some b'\<rparr>) m' \<Longrightarrow>
        out_offset q + n + 1 \<le> n' \<Longrightarrow> emits p m T (f (q\<lparr>out_length := n', out_buffer := Some b'\<rparr>) m')"
  shows "emits p m T (do { (ok, q, m) \<leftarrow> ensure q n m1; if \<not> ok then Some (False, q, m) else f q m })"
proof -
  obtain b0 b rest where b: "out_buffer p = Some b0" "out_buffer q = Some b" "out_length q \<le> length b"
      "out_offset p \<le> length b0" "b = take (out_offset p) b0 @ x @ rest"
    and c: "c_string x" "same_mode p q" "ok_cursor q" "alloc_ok m1 = alloc_ok m" "live m1 = live m"
      "out_offset q = out_offset p + length x"
    using w by (auto simp: writing_def)
  consider (yes) n' b' m' where "ensure q n m1 = Some (True, q\<lparr>out_length := n', out_buffer := Some b'\<rparr>, m')"
      "out_offset q + n + 1 \<le> n'" "n' \<le> length b'" "n' \<le> INT_LIMIT"
      "take (out_offset q) b' = take (out_offset q) b" "noalloc q \<longrightarrow> n' = out_length q"
      "alloc_ok m' = alloc_ok m1" "live m' = live m1"
    | (no) q' m' where "ensure q n m1 = Some (False, q', m')" "alloc_ok m' = alloc_ok m1"
      "live m' - owned q' = live m1 - owned q" "\<not> fits q m1 (n - 1)"
    using ensure_ok_out [OF c(3) b(2,3) \<open>0 < n\<close>, of m1] by blast
  then show ?thesis
  proof cases
    case yes
    have "take (out_offset q) b = take (out_offset p) b0 @ x"
      using b(4,5) c(6) by simp
    then obtain r where "b' = take (out_offset p) b0 @ x @ r"
      using yes(5) ex_take_append [of b' "out_offset q"] by auto
    then have "writing p m x [] (q\<lparr>out_length := n', out_buffer := Some b'\<rparr>) m'"
      using yes b c by (auto simp: writing_def same_mode_def ok_cursor_def)
    then show ?thesis using go yes(1,2) by simp
  next
    case no
    have "\<not> fits p m (length t)" if "T = Some t" for t
      using writing_fits [OF w no(4)] fit [OF that] \<open>0 < n\<close> by simp
    moreover have "owned q = owned p" using b by (simp add: owned_def)
    ultimately show ?thesis using no c by (simp add: emits_False)
  qed
qed

lemma put_writing:
  assumes w: "writing p m x y q m1" and "i \<le> length y"
    and "out_offset q + i + length z \<le> out_length q"
  shows "\<exists>b'. put q i z = Some (q\<lparr>out_buffer := Some b'\<rparr>) \<and>
    writing p m x (take i y @ z @ drop (i + length z) y) (q\<lparr>out_buffer := Some b'\<rparr>) m1"
proof -
  obtain b0 b rest where b: "out_buffer p = Some b0" "out_buffer q = Some b" "out_length q \<le> length b"
      "out_offset p \<le> length b0" "b = take (out_offset p) b0 @ x @ y @ rest"
    and c: "c_string x" "same_mode p q" "ok_cursor q" "alloc_ok m1 = alloc_ok m" "live m1 = live m"
      "out_offset q = out_offset p + length x" "out_offset q + length y \<le> out_length q"
    using w by (auto simp: writing_def)
  let ?pre = "take (out_offset p) b0 @ x"
  have len: "length (?pre @ take i y) = out_offset q + i" using b(4) c(6) assms(2) by simp
  have "b = (?pre @ take i y) @ (drop i y @ rest)" using b(5) by simp
  moreover have "length z \<le> length (drop i y @ rest)"
    using assms(2,3) b(3-5) c(6) by simp
  ultimately have "write_at b (out_offset q + i) z
      = Some ((?pre @ take i y) @ z @ drop (length z) (drop i y @ rest))"
    using write_at_append [of z "drop i y @ rest" "?pre @ take i y"] len by metis
  then obtain b' where w': "write_at b (out_offset q + i) z = Some b'"
    and b': "b' = take (out_offset p) b0 @ x @ (take i y @ z @ drop (i + length z) y) @ drop (length z - (length y - i)) rest"
    by (simp add: add.commute)
  have "writing p m x (take i y @ z @ drop (i + length z) y) (q\<lparr>out_buffer := Some b'\<rparr>) m1"
    using b c assms(2,3) b' length_write_at [OF w'] by (auto simp: writing_def same_mode_def ok_cursor_def)
  with w' b(2) show ?thesis by (intro exI [of _ b']) (simp add: put_def)
qed

lemma put_rule:
  assumes "writing p m x y q m1" and "i \<le> length y"
    and "out_offset q + i + length z \<le> out_length q"
    and "\<And>b'. writing p m x (take i y @ z @ drop (i + length z) y) (q\<lparr>out_buffer := Some b'\<rparr>) m1 \<Longrightarrow>
        emits p m T (f (q\<lparr>out_buffer := Some b'\<rparr>))"
  shows "emits p m T (do { q \<leftarrow> put q i z; f q })"
  using put_writing [OF assms(1-3)] assms(4) by auto

lemma move_rule:
  assumes "writing p m x y q m1" and "c_string y" and "out_offset q + length y < out_length q"
    and "k = out_offset q + length y"
  shows "writing p m (x @ y) [] (q\<lparr>out_offset := k\<rparr>) m1"
  using assms by (auto simp: writing_def same_mode_def ok_cursor_def)

lemma writing_depth [simp]: "writing p m x y (q\<lparr>out_depth := d\<rparr>) m1 \<longleftrightarrow> writing p m x y q m1"
  by (simp add: writing_def same_mode_def ok_cursor_def)

lemma writing_forget: "writing p m x y q m1 \<Longrightarrow> writing p m x [] q m1"
  by (auto simp: writing_def)

lemma done_rule:
  assumes "writing p m x (y @ [0]) q m1" and "T = Some (x @ y)" and "c_string y"
    and "out_depth q = out_depth p"
  shows "emits p m T (Some (True, q, m1))"
proof -
  have "emitted p (x @ y) q"
    using assms by (auto simp: emitted_def writing_def ok_cursor_def)
  moreover have "owned q = owned p" using assms(1) by (auto simp: owned_def writing_def)
  ultimately show ?thesis using assms by (auto simp: emits_def writing_def)
qed

lemma fail_rule:
  assumes "writing p m x y q m1" and "T = None"
  shows "emits p m T (Some (False, q, m1))"
  using assms by (auto simp: emits_def writing_def owned_def)

lemma update_offset_emitted:
  assumes "emitted p t q"
  shows "update_offset q = Some (q\<lparr>out_offset := out_offset p + length t\<rparr>)"
proof -
  obtain b0 b rest where b: "out_buffer q = Some b" "b = take (out_offset p) b0 @ t @ 0 # rest"
      "out_offset p \<le> length b0" and o: "out_offset p \<le> out_offset q" "out_offset q \<le> out_offset p + length t"
    and c: "c_string t"
    using assms by (auto simp: emitted_def)
  let ?k = "out_offset q - out_offset p"
  have "drop (out_offset q) b = drop ?k t @ 0 # rest" using b o by simp
  moreover have "c_string (drop ?k t)" using c by (auto simp: c_string_def dest: in_set_dropD)
  ultimately have "c_strlen (drop (out_offset q) b) = Some (length t - ?k)"
    by (simp add: c_strlen_append)
  with b o show ?thesis by (simp add: update_offset_def)
qed

lemma emitted_writing:
  assumes w: "writing p m x [] q m1" and e: "emitted q t q'" and "alloc_ok m' = alloc_ok m1" "live m' = live m1"
  shows "writing p m (x @ t) [0] (q'\<lparr>out_offset := out_offset q + length t\<rparr>) m'"
proof -
  obtain b0 b rest where b: "out_buffer p = Some b0" "out_buffer q = Some b"
      "out_offset p \<le> length b0" "b = take (out_offset p) b0 @ x @ rest" "out_offset q = out_offset p + length x"
    using w by (auto simp: writing_def)
  moreover obtain b' rest' where "out_buffer q' = Some b'" "b' = take (out_offset q) b @ t @ 0 # rest'"
      "out_length q' \<le> length b'"
    using e b(2) by (auto simp: emitted_def)
  moreover have "take (out_offset q) b = take (out_offset p) b0 @ x" using b by simp
  ultimately show ?thesis
    using assms by (auto simp: writing_def emitted_def same_mode_def ok_cursor_def)
qed

lemma call_rule:
  assumes w: "writing p m x [] q m1" and call: "emits q m1 Y (e q m1)"
    and fit: "\<And>t. T = Some t \<Longrightarrow> \<exists>y. Y = Some y \<and> length x + length y \<le> length t"
    and go: "\<And>y q' m'. Y = Some y \<Longrightarrow> writing p m (x @ y) [0] q' m' \<Longrightarrow> out_depth q' = out_depth q \<Longrightarrow>
        emits p m T (f q' m')"
  shows "emits p m T (do { (ok, q, m) \<leftarrow> e q m1;
      if \<not> ok then Some (False, q, m) else do { q \<leftarrow> update_offset q; f q m } })"
proof -
  obtain ok q1 m' where r: "e q m1 = Some (ok, q1, m')" "alloc_ok m' = alloc_ok m1"
      "live m' - owned q1 = live m1 - owned q"
    and post: "if ok then \<exists>t. Y = Some t \<and> emitted q t q1 else \<forall>t. Y = Some t \<longrightarrow> \<not> fits q m1 (length t)"
    using call by (auto simp: emits_def)
  have own: "owned q = owned p" "alloc_ok m1 = alloc_ok m" "live m1 = live m"
    using w by (auto simp: writing_def owned_def)
  show ?thesis
  proof (cases ok)
    case True
    with post obtain y where y: "Y = Some y" "emitted q y q1" by auto
    then have "live m' = live m1" using r(3) by (auto simp: emitted_def owned_def)
    then have "writing p m (x @ y) [0] (q1\<lparr>out_offset := out_offset q + length y\<rparr>) m'"
      using emitted_writing [OF w y(2) r(2)] by simp
    then have "emits p m T (f (q1\<lparr>out_offset := out_offset q + length y\<rparr>) m')"
      using y by (intro go) (auto simp: emitted_def)
    with r(1) True show ?thesis by (simp add: update_offset_emitted [OF y(2)])
  next
    case False
    have "\<not> fits p m (length t)" if T: "T = Some t" for t
    proof -
      obtain y where "Y = Some y" "length x + length y \<le> length t" using fit [OF T] by blast
      with post False show ?thesis using writing_fits [OF w] by auto
    qed
    with r own False show ?thesis by (simp add: emits_False)
  qed
qed

lemma emits_success:
  assumes "emits p m (Some t) r" and "fits p m (length t)"
  shows "\<exists>q m'. r = Some (True, q, m') \<and> emitted p t q \<and> live m' - owned q = live m - owned p \<and> alloc_ok m' = alloc_ok m"
  using assms unfolding emits_def by (auto split: if_splits)

end
