(* ===== verification/JsonEscape.thy ===== *)
theory JsonEscape
  imports JsonEmit
begin

text \<open>
  Strings on the way out: \<open>print_string_ptr\<close> writes exactly the quoted and escaped form of its
  input, inside the room it asked \<open>ensure\<close> for, and the escaped form read back by the
  unescaping loop of \<open>parse_string\<close> is the input again.
\<close>

unbundle bit_operations_syntax

subsection \<open>The escaped form\<close>

definition escape_byte :: "u8 \<Rightarrow> bytes" where
  "escape_byte x =
     (if 31 < x \<and> x \<noteq> 34 \<and> x \<noteq> 92 then [x]
      else 92 # (case escape_letter x of Some l \<Rightarrow> [l] | None \<Rightarrow> butlast (sprintf_u4x x)))"

definition escaped :: "bytes \<Rightarrow> bytes" where
  "escaped s = concat (map escape_byte s)"

definition render_string :: "bytes option \<Rightarrow> bytes" where
  "render_string s = 34 # escaped (case s of None \<Rightarrow> [] | Some s \<Rightarrow> s) @ [34]"

lemma escaped_Nil [simp]: "escaped [] = []"
  by (simp add: escaped_def)

lemma escaped_Cons [simp]: "escaped (x # s) = escape_byte x @ escaped s"
  by (simp add: escaped_def)

lemma byte_small:
  assumes "x \<le> (31 :: u8)"
  shows "x \<in> set (map word_of_nat [0..<32])"
proof -
  have "unat x < 32" using assms by (simp add: word_le_nat_alt)
  then have "word_of_nat (unat x) \<in> set (map word_of_nat [0..<32] :: u8 list)" by force
  then show ?thesis by simp
qed

lemma small_bytes:
  assumes "\<forall>y \<in> set (map word_of_nat [0..<32]). P y" and "x \<le> (31 :: u8)"
  shows "P x"
  using assms byte_small by blast

lemma small_escapes:
  assumes "x \<le> (31 :: u8)" and "escape_letter x = None"
  shows "0 \<notin> set (butlast (sprintf_u4x x))"
    and "parse_hex4_from (drop 1 (sprintf_u4x x)) 0 4 0 = Some (ucast x)"
  by (rule small_bytes [OF _ assms(1)], code_simp)+

lemma escape_letter_simple: "escape_letter x = Some l \<Longrightarrow> simple_escape l = Some x \<and> l \<noteq> 0"
  by (auto simp: escape_letter_def simple_escape_def split: if_splits)

lemma escape_letter_None: "escape_letter x = None \<Longrightarrow> \<not> (31 < x \<and> x \<noteq> 34 \<and> x \<noteq> 92) \<Longrightarrow> x \<le> 31"
  by (auto simp: escape_letter_def split: if_splits)

lemma length_escape_byte: "length (escape_byte x) = 1 + escape_characters [x]"
proof (cases "31 < x")
  case True
  then have "\<not> x < 32" "x \<noteq> 8" "x \<noteq> 12" "x \<noteq> 10" "x \<noteq> 13" "x \<noteq> 9"
    by (auto simp: word_less_nat_alt)
  with True show ?thesis by (auto simp: escape_byte_def escape_letter_def)
next
  case False
  then have "x < 32" by (simp add: word_less_nat_alt)
  with False show ?thesis by (auto simp: escape_byte_def escape_letter_def sprintf_u4x_def)
qed

lemma escape_characters_Cons: "escape_characters (x # s) = escape_characters [x] + escape_characters s"
  by simp

lemma length_escaped: "length (escaped s) = length s + escape_characters s"
proof (induction s)
  case (Cons x s)
  then show ?case
    by (simp only: escaped_Cons length_append length_escape_byte escape_characters_Cons [of x s]) simp
qed simp

lemma c_string_escape_byte: "x \<noteq> 0 \<Longrightarrow> c_string (escape_byte x)"
  using small_escapes(1) escape_letter_None escape_letter_simple
  by (auto simp: escape_byte_def c_string_def split: option.splits)

lemma c_string_escaped: "c_string s \<Longrightarrow> c_string (escaped s)"
  by (induction s) (auto simp: c_string_escape_byte)

lemma no_escapes: "escape_characters s = 0 \<Longrightarrow> escaped s = s"
proof (induction s)
  case (Cons x s)
  then have "escape_characters [x] = 0" "escape_characters s = 0"
    using escape_characters_Cons [of x s] by (simp_all del: escape_characters.simps)
  moreover from this(1) have "31 < x" "x \<noteq> 34" "x \<noteq> 92"
    by (auto simp: word_less_nat_alt split: if_splits)
  then have "escape_byte x = [x]" by (simp add: escape_byte_def)
  ultimately show ?case using Cons.IH by simp
qed simp

subsection \<open>print_string_ptr\<close>

definition lands :: "printbuffer \<Rightarrow> mem \<Rightarrow> bytes \<Rightarrow> bytes \<Rightarrow> printbuffer \<Rightarrow> mem \<Rightarrow> printbuffer option \<Rightarrow> bool" where
  \<comment> \<open>a store succeeds, moves nothing but the buffer, and leaves \<open>y\<close> ahead of the cursor\<close>
  "lands p m x y q m1 r \<longleftrightarrow>
     (\<exists>b' z. r = Some (q\<lparr>out_buffer := Some b'\<rparr>) \<and> writing p m x (y @ z) (q\<lparr>out_buffer := Some b'\<rparr>) m1)"

lemma put_lands:
  assumes "writing p m x (y @ y') q m1" and "i = length y" and "out_offset q + i + length z \<le> out_length q"
  shows "lands p m x (y @ z) q m1 (put q i z)"
  using put_writing [OF assms(1), of i z] assms(2,3) by (auto simp: lands_def)

lemma lands_bind:
  assumes "lands p m x y q m1 r"
    and "\<And>b' z. writing p m x (y @ z) (q\<lparr>out_buffer := Some b'\<rparr>) m1 \<Longrightarrow>
           lands p m x y2 (q\<lparr>out_buffer := Some b'\<rparr>) m1 (f (q\<lparr>out_buffer := Some b'\<rparr>))"
  shows "lands p m x y2 q m1 (Option.bind r f)"
  using assms by (fastforce simp: lands_def)

definition put_escape :: "u8 \<Rightarrow> printbuffer \<Rightarrow> nat \<Rightarrow> printbuffer option" where
  \<comment> \<open>the stores of one iteration\<close>
  "put_escape x p i =
     (if 31 < x \<and> x \<noteq> 34 \<and> x \<noteq> 92 then put p i [x]
      else do {
        p \<leftarrow> put p i [92];
        put p (i + 1) (case escape_letter x of Some l \<Rightarrow> [l] | None \<Rightarrow> sprintf_u4x x) })"

lemma copy_escaped_Cons:
  "copy_escaped (x # xs) p i = do { p \<leftarrow> put_escape x p i; copy_escaped xs p (i + length (escape_byte x)) }"
  by (auto simp: put_escape_def escape_byte_def sprintf_u4x_def Option.bind_assoc numeral_eq_Suc
      split: option.splits intro!: Option.bind_cong)

lemma lands_trunc: "lands p m x (y @ z) q m1 r \<Longrightarrow> lands p m x y q m1 r"
  unfolding lands_def by (metis append.assoc)

lemma put_escape_lands:
  assumes w: "writing p m x (y @ y') q m1" and i: "i = length y"
    and room: "out_offset q + i + length (escape_byte c) < out_length q"
  shows "lands p m x (y @ escape_byte c) q m1 (put_escape c q i)"
proof (cases "31 < c \<and> c \<noteq> 34 \<and> c \<noteq> 92")
  case True
  then show ?thesis using assms put_lands [OF w] by (simp add: put_escape_def escape_byte_def)
next
  case False
  define tail where "tail = (case escape_letter c of Some l \<Rightarrow> [l] | None \<Rightarrow> sprintf_u4x c)"
  obtain t z where t: "escape_byte c = 92 # t" "tail = t @ z" "length z \<le> 1"
  proof (cases "escape_letter c")
    case None
    then have "tail = butlast tail @ [0]" by (simp add: tail_def sprintf_u4x_def)
    with None False show ?thesis by (intro that [of "butlast tail" "[0]"]) (auto simp: escape_byte_def tail_def)
  next
    case (Some l)
    with False show ?thesis by (intro that [of "[l]" "[]"]) (auto simp: escape_byte_def tail_def)
  qed
  have "lands p m x ((y @ [92]) @ t @ z) q m1 (do { p \<leftarrow> put q i [92]; put p (i + 1) tail })"
  proof (rule lands_bind)
    show "lands p m x (y @ [92]) q m1 (put q i [92])"
      using room by (intro put_lands [OF w i]) simp
    fix b' z'
    assume w': "writing p m x ((y @ [92]) @ z') (q\<lparr>out_buffer := Some b'\<rparr>) m1"
    show "lands p m x ((y @ [92]) @ t @ z) (q\<lparr>out_buffer := Some b'\<rparr>) m1
        (put (q\<lparr>out_buffer := Some b'\<rparr>) (i + 1) tail)"
      unfolding t(2) using room i t by (intro put_lands [OF w']) simp_all
  qed
  then have "lands p m x ((y @ escape_byte c) @ z) q m1 (put_escape c q i)"
    using t(1) unfolding put_escape_def tail_def if_not_P [OF False] by simp
  then show ?thesis by (rule lands_trunc)
qed

lemma copy_escaped_lands:
  assumes "writing p m x (y @ y') q m1" and "i = length y"
    and "out_offset q + i + length (escaped s) < out_length q"
  shows "\<exists>r. lands p m x (y @ escaped s) q m1 (Some r) \<and> copy_escaped s q i = Some (r, i + length (escaped s))"
  using assms
proof (induction s arbitrary: y y' q i)
  case Nil
  then obtain b where "out_buffer q = Some b" by (auto simp: writing_def)
  then have "q = q\<lparr>out_buffer := Some b\<rparr>" by simp
  with Nil have "lands p m x y q m1 (Some q)" unfolding lands_def by metis
  then show ?case by simp
next
  case (Cons c s)
  have "lands p m x (y @ escape_byte c) q m1 (put_escape c q i)"
    using Cons.prems by (intro put_escape_lands) auto
  then obtain b' z where r: "put_escape c q i = Some (q\<lparr>out_buffer := Some b'\<rparr>)"
    and w: "writing p m x ((y @ escape_byte c) @ z) (q\<lparr>out_buffer := Some b'\<rparr>) m1"
    by (auto simp: lands_def)
  from Cons.IH [OF w] Cons.prems obtain r where
    "lands p m x ((y @ escape_byte c) @ escaped s) (q\<lparr>out_buffer := Some b'\<rparr>) m1 (Some r)"
    "copy_escaped s (q\<lparr>out_buffer := Some b'\<rparr>) (length y + length (escape_byte c)) = Some (r, length y + length (escape_byte c) + length (escaped s))"
    by auto
  then show ?case using r Cons.prems(2)
    by (intro exI [of _ r]) (auto simp: copy_escaped_Cons lands_def add.assoc simp del: copy_escaped.simps)
qed

lemma put_step:
  assumes "writing p m x (y @ y') q m1" and "i = length y" and "out_offset q + i + length z \<le> out_length q"
    and "\<And>b' z'. writing p m x ((y @ z) @ z') (q\<lparr>out_buffer := Some b'\<rparr>) m1 \<Longrightarrow>
           emits p m T (f (q\<lparr>out_buffer := Some b'\<rparr>))"
  shows "emits p m T (do { q \<leftarrow> put q i z; f q })"
  using put_lands [OF assms(1-3)] assms(4) by (auto simp: lands_def)

lemma copy_escaped_step:
  assumes "writing p m x (y @ y') q m1" and "i = length y" and "out_offset q + i + length (escaped s) < out_length q"
    and "\<And>b' z'. writing p m x ((y @ escaped s) @ z') (q\<lparr>out_buffer := Some b'\<rparr>) m1 \<Longrightarrow>
           emits p m T (f (q\<lparr>out_buffer := Some b'\<rparr>))"
  shows "emits p m T (do { (q, j) \<leftarrow> copy_escaped s q i; f q })"
  using copy_escaped_lands [OF assms(1-3)] assms(4) by (auto simp: lands_def)

lemma done_step:
  assumes "writing p m x ((y @ [0]) @ z) q m1" and "T = Some (x @ y)" and "c_string y" and "out_depth q = out_depth p"
  shows "emits p m T (Some (True, q, m1))"
proof -
  have "writing p m x (y @ [0]) q m1" using assms(1) by (auto simp: writing_def)
  then show ?thesis using assms(2-4) by (rule done_rule)
qed

theorem print_string_ptr_emits:
  assumes ok: "ok_out p" and s: "\<And>s. input = Some s \<Longrightarrow> c_string s"
  shows "emits p m (Some (render_string input)) (print_string_ptr input p m)"
proof (cases input)
  case None
  show ?thesis unfolding print_string_ptr_def None option.case
  proof (rule ensure_rule [OF writing_start [OF ok]])
    fix n' b' m'
    assume w: "writing p m [] [] (p\<lparr>out_length := n', out_buffer := Some b'\<rparr>) m'"
      and room: "out_offset p + 3 + 1 \<le> n'"
    show "emits p m (Some (render_string None))
        (do { p \<leftarrow> put (p\<lparr>out_length := n', out_buffer := Some b'\<rparr>) 0 [34, 34, 0]; Some (True, p, m') })"
    proof (rule put_step [where y = "[]" and y' = "[]"])
      fix b z' assume "writing p m [] (([] @ [34, 34, 0]) @ z') (p\<lparr>out_length := n', out_buffer := Some b', out_buffer := Some b\<rparr>) m'"
      then show "emits p m (Some (render_string None)) (Some (True, p\<lparr>out_length := n', out_buffer := Some b', out_buffer := Some b\<rparr>, m'))"
        by (intro done_step [where y = "[34, 34]" and x = "[]" and z = z']) (auto simp: render_string_def)
    qed (use w room in auto)
  qed (auto simp: render_string_def)
next
  case (Some s)
  define ol where "ol = length s + escape_characters s"
  have esc: "length (escaped s) = ol" by (simp add: ol_def length_escaped)
  have rs: "render_string (Some s) = 34 # escaped s @ [34]" by (simp add: render_string_def)
  have cs: "c_string (escaped s)" using s Some by (simp add: c_string_escaped)
  let ?T = "Some (render_string (Some s))"
  have close: "emits p m ?T (do { q \<leftarrow> put q (ol + 1) [34]; q \<leftarrow> put q (ol + 2) [0]; Some (True, q, m') })"
    if w: "writing p m [] (([34] @ escaped s) @ z) q m'" and room: "out_offset q + ol + 4 \<le> out_length q"
      and d: "out_depth q = out_depth p" for q m' z
  proof (rule put_step [OF w])
    fix b z1 assume w1: "writing p m [] ((([34] @ escaped s) @ [34]) @ z1) (q\<lparr>out_buffer := Some b\<rparr>) m'"
    show "emits p m ?T (do { q \<leftarrow> put (q\<lparr>out_buffer := Some b\<rparr>) (ol + 2) [0]; Some (True, q, m') })"
    proof (rule put_step [OF w1])
      fix b' z2 assume w2: "writing p m [] (((([34] @ escaped s) @ [34]) @ [0]) @ z2)
          (q\<lparr>out_buffer := Some b, out_buffer := Some b'\<rparr>) m'"
      show "emits p m ?T (Some (True, q\<lparr>out_buffer := Some b, out_buffer := Some b'\<rparr>, m'))"
        using d cs by (intro done_step [OF w2]) (simp_all add: rs)
    qed (use room esc in simp_all)
  qed (use room esc in simp_all)
  show ?thesis unfolding print_string_ptr_def Some option.case Let_def ol_def [symmetric]
  proof (rule ensure_rule [OF writing_start [OF ok]])
    fix n' b' m'
    assume w: "writing p m [] [] (p\<lparr>out_length := n', out_buffer := Some b'\<rparr>) m'"
      and room: "out_offset p + (ol + 3) + 1 \<le> n'"
    let ?q = "p\<lparr>out_length := n', out_buffer := Some b'\<rparr>"
    have plain: "emits p m ?T (do { q \<leftarrow> put ?q 0 [34]; q \<leftarrow> put q 1 s; q \<leftarrow> put q (ol + 1) [34];
        q \<leftarrow> put q (ol + 2) [0]; Some (True, q, m') })" if "escape_characters s = 0"
      using w room esc no_escapes [OF that]
      by (intro put_step [where y = "[]" and y' = "[]" and i = 0 and z = "[34]" and q = ?q and x = "[]"] put_step [where y = "[34]" and z = s and i = 1] close) auto
    have full: "emits p m ?T (do { q \<leftarrow> put ?q 0 [34]; (q, _) \<leftarrow> copy_escaped s q 1; q \<leftarrow> put q (ol + 1) [34];
        q \<leftarrow> put q (ol + 2) [0]; Some (True, q, m') })"
      using w room esc
      by (intro put_step [where y = "[]" and y' = "[]" and i = 0 and z = "[34]" and q = ?q and x = "[]"] copy_escaped_step [where y = "[34]" and s = s and i = 1] close) auto
    show "emits p m ?T (if escape_characters s = 0
        then do { q \<leftarrow> put ?q 0 [34]; q \<leftarrow> put q 1 s; q \<leftarrow> put q (ol + 1) [34];
          q \<leftarrow> put q (ol + 2) [0]; Some (True, q, m') }
        else do { q \<leftarrow> put ?q 0 [34]; (q, _) \<leftarrow> copy_escaped s q 1; q \<leftarrow> put q (ol + 1) [34];
          q \<leftarrow> put q (ol + 2) [0]; Some (True, q, m') })"
      using plain full by auto
  qed (auto simp: rs esc)
qed

subsection \<open>Reading the escaped form back\<close>

lemma read_at_shift [simp]: "read_at (pre @ c) (length pre + k) = read_at c k"
  by (simp add: read_at_def)

lemma read_at_here [simp]: "read_at (pre @ x # c) (length pre) = Some x"
  by (simp add: read_at_def)

lemma read_at_next [simp]: "read_at (pre @ x # y # c) (Suc (length pre)) = Some y"
  using read_at_here [of "pre @ [x]" y c] by simp

lemma read_at_Cons_Suc [simp]: "read_at (x # c) (Suc k) = read_at c k"
  by (simp add: read_at_def)

lemma read_at_Cons_0 [simp]: "read_at (x # c) 0 = Some x"
  by (simp add: read_at_def)

lemma parse_hex4_from_shift: "parse_hex4_from (pre @ c) (length pre + k) n h = parse_hex4_from c k n h"
proof (induction n arbitrary: k h)
  case (Suc n)
  show ?case
    by (simp only: parse_hex4_from.simps read_at_shift Suc.IH flip: add_Suc_right)
qed simp

lemma parse_hex4_from_more: "parse_hex4_from c k n h = Some v \<Longrightarrow> parse_hex4_from (c @ d) k n h = Some v"
proof (induction n arbitrary: k h)
  case (Suc n)
  then obtain b where "read_at c k = Some b" by (cases "read_at c k") auto
  moreover from this have "read_at (c @ d) k = Some b" by (auto simp: read_at_Some_iff nth_append)
  ultimately show ?case using Suc by (cases "hex_digit b") auto
qed simp

lemma small_hex: "x \<le> (31::u8) \<Longrightarrow>
    parse_hex4_from [48, 48, hex_lower (drop_bit 4 x), hex_lower (x AND 15)] 0 4 0 = Some (ucast x)
    \<and> (ucast ((ucast x :: u32) AND 0x7F) :: u8) = x \<and> (ucast x :: u32) < 0x80
    \<and> hex_lower (drop_bit 4 x) \<notin> {34, 92} \<and> hex_lower (x AND 15) \<notin> {34, 92}"
  by (erule small_bytes [rotated]) code_simp

lemma write_at_end: "write_at (o1 @ y # o2) (length o1) [x] = Some (o1 @ x # o2)"
  by (simp add: write_at_def)

lemma utf16_small:
  assumes "x \<le> (31::u8)"
  shows "utf16_literal_to_utf8 (pre @ [92, 117, 48, 48, hex_lower (drop_bit 4 x), hex_lower (x AND 15)] @ post)
      (length pre) (length pre + 6 + k) (o1 @ y # o2) (length o1) = Some (6, o1 @ x # o2, length o1 + 1)"
proof -
  let ?h = "[48, 48, hex_lower (drop_bit 4 x), hex_lower (x AND 15)]"
  have "parse_hex4 ((pre @ [92, 117]) @ ?h @ post) (length (pre @ [92, 117]) + 0) = Some (ucast x)"
    unfolding parse_hex4_def parse_hex4_from_shift
    by (rule parse_hex4_from_more) (use small_hex [OF assms] in blast)
  then have hex: "parse_hex4 (pre @ [92, 117] @ ?h @ post) (length pre + 2) = Some (ucast x)"
    by simp
  have small: "(ucast x :: u32) < 0x80" and low: "(ucast ((ucast x :: u32) AND 0x7F) :: u8) = x"
    using small_hex [OF assms] by auto
  have "\<not> 0xDC00 \<le> (ucast x :: u32)" "\<not> 0xD800 \<le> (ucast x :: u32)"
    using small by (auto simp: word_le_nat_alt word_less_nat_alt)
  then have "utf16_codepoint (pre @ [92, 117] @ ?h @ post) (length pre) (length pre + 6 + k) = Some (Some (6, ucast x))"
    by (simp only: utf16_codepoint_def hex) simp
  then show ?thesis
    using small low by (simp add: utf16_literal_to_utf8_def utf8_shape_def write_at_end numeral_eq_Suc)
qed

lemma escape_byte_cases:
  obtains (plain) "escape_byte x = [x]" "x \<noteq> 92" "x \<noteq> 34"
    | (letter) l where "escape_byte x = [92, l]" "simple_escape l = Some x"
    | (hex) "x \<le> 31" "escape_byte x = [92, 117, 48, 48, hex_lower (drop_bit 4 x), hex_lower (x AND 15)]"
proof (cases "31 < x \<and> x \<noteq> 34 \<and> x \<noteq> 92")
  case True
  then show thesis by (intro plain) (auto simp: escape_byte_def)
next
  case False
  show thesis
  proof (cases "escape_letter x")
    case None
    with False show thesis
      by (intro hex escape_letter_None) (auto simp: escape_byte_def sprintf_u4x_def)
  next
    case (Some l)
    with False escape_letter_simple show thesis by (intro letter [of l]) (auto simp: escape_byte_def)
  qed
qed

lemma unescape_escaped:
  "length s \<le> length o2 \<Longrightarrow>
   unescape (pre @ escaped s @ post) (length pre) (length pre + length (escaped s)) (o1 @ o2) (length o1)
     = Some (length pre + length (escaped s), Some (o1 @ s @ drop (length s) o2, length o1 + length s))"
proof (induction s arbitrary: pre o1 o2)
  case Nil
  show ?case by (subst unescape.simps) simp
next
  case (Cons x s)
  then obtain y o3 where o2: "o2 = y # o3" by (cases o2) auto
  let ?e = "length pre + length (escaped (x # s))"
  have IH: "unescape (pre @ escape_byte x @ escaped s @ post) (length pre + length (escape_byte x)) ?e (o1 @ x # o3) (length o1 + 1)
      = Some (?e, Some (o1 @ (x # s) @ drop (length (x # s)) o2, length o1 + length (x # s)))"
    using Cons.IH [of o3 "pre @ escape_byte x" "o1 @ [x]"] Cons.prems o2 by (simp add: add.assoc)
  show ?case
  proof (cases x rule: escape_byte_cases)
    case plain
    then show ?thesis using IH by (subst unescape.simps) (simp add: o2 write_at_end)
  next
    case (letter l)
    then show ?thesis using IH by (subst unescape.simps) (simp add: o2 write_at_end)
  next
    case hex
    have "simple_escape 117 = None" by (simp add: simple_escape_def)
    moreover have "utf16_literal_to_utf8 (pre @ escape_byte x @ escaped s @ post) (length pre) ?e (o1 @ o2) (length o1)
        = Some (6, o1 @ x # o3, length o1 + 1)"
      using utf16_small [OF hex(1), of pre "escaped s @ post" "length (escaped s)" o1 y o3] hex(2) o2
      by (simp add: add.assoc eval_nat_numeral)
    ultimately show ?thesis using IH hex(2)
      by (subst unescape.simps) (simp add: numeral_eq_Suc)
  qed
qed

lemma scan_plain:
  assumes "\<And>b. b \<in> set xs \<Longrightarrow> b \<noteq> 34 \<and> b \<noteq> 92" and "length pre + length xs \<le> n"
  shows "scan_string (pre @ xs @ post) n (length pre) k = scan_string (pre @ xs @ post) n (length pre + length xs) k"
  using assms
proof (induction xs arbitrary: pre)
  case (Cons x xs)
  have "scan_string (pre @ (x # xs) @ post) n (length pre) k
      = scan_string (pre @ (x # xs) @ post) n (length pre + 1) k"
    using Cons.prems by (subst scan_string.simps) auto
  also have "\<dots> = scan_string (pre @ (x # xs) @ post) n (length pre + length (x # xs)) k"
    using Cons.IH [of "pre @ [x]"] Cons.prems by simp
  finally show ?case .
qed simp

lemma scan_escape_byte:
  assumes "length pre + length (escape_byte x) \<le> n"
  shows "\<exists>d. scan_string (pre @ escape_byte x @ post) n (length pre) k
      = scan_string (pre @ escape_byte x @ post) n (length pre + length (escape_byte x)) (k + d)
    \<and> d + 1 \<le> length (escape_byte x)"
proof -
  have two: "scan_string (pre @ (92 # e # r) @ post) n (length pre) k
      = scan_string (pre @ (92 # e # r) @ post) n (length pre + 2) (k + 1)" if "length pre + 2 \<le> n" for e r
    using that by (subst scan_string.simps) auto
  show ?thesis
  proof (cases x rule: escape_byte_cases)
    case plain
    then show ?thesis using scan_plain [of "[x]" pre n post k] assms by (intro exI [of _ 0]) auto
  next
    case (letter l)
    then show ?thesis using two [of l "[]"] assms by (intro exI [of _ 1]) auto
  next
    case hex
    let ?r = "[48, 48, hex_lower (drop_bit 4 x), hex_lower (x AND 15)]"
    have "scan_string (pre @ escape_byte x @ post) n (length pre) k
      = scan_string ((pre @ [92, 117]) @ ?r @ post) n (length (pre @ [92, 117])) (k + 1)"
      using two [of 117 ?r] hex(2) assms by simp
    also have "\<dots> = scan_string ((pre @ [92, 117]) @ ?r @ post) n (length (pre @ [92, 117]) + length ?r) (k + 1)"
      by (rule scan_plain) (use small_hex [OF hex(1)] hex(2) assms in auto)
    finally show ?thesis using hex(2) by (intro exI [of _ 1]) (simp add: eval_nat_numeral)
  qed
qed

lemma scan_escaped:
  assumes "length pre + length (escaped s) < n"
  shows "\<exists>d. scan_string (pre @ escaped s @ 34 # post) n (length pre) k
      = Some (Some (length pre + length (escaped s), k + d)) \<and> d + length s \<le> length (escaped s)"
  using assms
proof (induction s arbitrary: pre k)
  case Nil
  then show ?case by (subst scan_string.simps) auto
next
  case (Cons x s)
  obtain d where d: "scan_string (pre @ escape_byte x @ escaped s @ 34 # post) n (length pre) k
      = scan_string (pre @ escape_byte x @ escaped s @ 34 # post) n (length pre + length (escape_byte x)) (k + d)"
      "d + 1 \<le> length (escape_byte x)"
    using scan_escape_byte [of pre x n "escaped s @ 34 # post" k] Cons.prems by auto
  obtain d' where "scan_string ((pre @ escape_byte x) @ escaped s @ 34 # post) n (length (pre @ escape_byte x)) (k + d)
      = Some (Some (length (pre @ escape_byte x) + length (escaped s), (k + d) + d'))"
      "d' + length s \<le> length (escaped s)"
    using Cons.IH [of "pre @ escape_byte x" "k + d"] Cons.prems by auto
  then show ?case using d by (intro exI [of _ "d + d'"]) (simp add: add.assoc)
qed

text \<open>What \<open>parse_string\<close> makes of a printed string.\<close>

lemma parse_string_escaped:
  assumes c: "pb_content b = pre @ 34 # escaped s @ 34 # post" and o: "pb_offset b = length pre"
    and n: "length pre + length (escaped s) + 1 < pb_length b"
    and s: "c_string s" and m: "alloc_ok m (calls m)"
  shows "\<exists>m'. parse_string item b m
      = Some (True, set_valuestring (Some s) (set_type cJSON_String item),
              b\<lparr>pb_offset := length pre + length (escaped s) + 2\<rparr>, m')
    \<and> alloc_ok m' = alloc_ok m \<and> live m' = live m + 1 \<and> calls m' = Suc (calls m)"
proof -
  let ?stop = "length pre + 1 + length (escaped s)"
  have c': "pb_content b = (pre @ [34]) @ escaped s @ 34 # post" using c by simp
  obtain d where scan: "scan_string (pb_content b) (pb_length b) (length pre + 1) 0 = Some (Some (?stop, d))"
    and d: "d + length s \<le> length (escaped s)"
    using scan_escaped [of "pre @ [34]" s "pb_length b" post 0] n c' by auto
  let ?m = "m\<lparr>calls := Suc (calls m), live := live m + 1\<rparr>"
  define out where "out = fresh_bytes ?m (?stop - length pre - d + 1)"
  have len: "length s + 1 \<le> length out" using d by (simp add: out_def)
  have un: "unescape (pb_content b) (length pre + 1) ?stop out 0 = Some (?stop, Some (s @ drop (length s) out, length s))"
    using unescape_escaped [of s out "pre @ [34]" "34 # post" "[]"] len c' by simp
  obtain y rest where "drop (length s) out = y # rest"
    using len by (cases "drop (length s) out") auto
  then have w: "write_at (s @ drop (length s) out) (length s) [0] = Some (s @ 0 # rest)"
    by (simp add: write_at_def)
  have q: "char_at b 0 = Some 34" "read_at (pb_content b) ?stop = Some 34"
  proof -
    show "char_at b 0 = Some 34" using c o by (simp add: char_at_def)
    have "?stop = length (pre @ 34 # escaped s)" by simp
    then show "read_at (pb_content b) ?stop = Some 34"
      using read_at_here [of "pre @ 34 # escaped s" 34 post] c by simp
  qed
  have al: "c_allocate m = (True, ?m)" using m by (simp add: c_allocate_def)
  have "parse_string item b m = Some (True, set_valuestring (Some s) (set_type cJSON_String item),
              b\<lparr>pb_offset := ?stop + 1\<rparr>, ?m)"
    using n s by (simp add: parse_string_def q [simplified] o scan [simplified] al un [unfolded out_def, simplified]
        w [unfolded out_def, simplified] string_of_buf_append Let_def)
  then show ?thesis by simp
qed

end
