(* ===== verification/JsonPrint.thy ===== *)
theory JsonPrint
  imports JsonString
begin

text \<open>
  The printer of \<open>JSON/cJSON.c\<close>: \<open>print_number\<close>, \<open>print_value\<close>, \<open>print_array\<close>, \<open>print_object\<close>
  and the four entry points.

  A routine returns a boolean with the new cursor; \<open>on_ok\<close> is the early return on false.  A
  store outside the buffer is \<open>None\<close>.
\<close>

unbundle bit_operations_syntax

definition on_ok :: "print_result \<Rightarrow> (printbuffer \<Rightarrow> mem \<Rightarrow> print_result) \<Rightarrow> print_result" where
  \<comment> \<open>\<open>if (!r) return false;\<close>\<close>
  "on_ok r f = do { (ok, p, m) \<leftarrow> r; if \<not> ok then Some (False, p, m) else f p m }"

definition move :: "nat \<Rightarrow> printbuffer \<Rightarrow> printbuffer" where
  "move n p = p\<lparr>out_offset := out_offset p + n\<rparr>"

subsection \<open>Numbers\<close>

definition number_text_of :: "double \<Rightarrow> bytes" where
  \<comment> \<open>what \<open>sprintf\<close> leaves in \<open>number_buffer\<close>: 15 digits, or 17 when they do not read back as
     a number close to \<open>d\<close>\<close>
  "number_text_of d =
     (if is_nan_or_inf d then cstr ''null''
      else let text = format_g 15 d; (test, n) = strtod text
           in if n = 0 \<or> \<not> compare_double test d then format_g 17 d else text)"

definition print_number :: "cJSON \<Rightarrow> printbuffer \<Rightarrow> mem \<Rightarrow> print_result" where
  \<comment> \<open>\<open>number_buffer\<close> has 26 bytes: a longer text is written past its end\<close>
  "print_number item p m =
     (let text = number_text_of (jvaluedouble item); n = length text
      in if n \<ge> 26 then None
         else on_ok (ensure p (n + 1) m) (\<lambda>p m. do {
           p \<leftarrow> put p 0 text;
           p \<leftarrow> put p n [0];
           Some (True, move n p, m) }))"

subsection \<open>Values\<close>

definition print_literal :: "bytes \<Rightarrow> printbuffer \<Rightarrow> mem \<Rightarrow> print_result" where
  \<comment> \<open>\<open>ensure\<close> and \<open>strcpy\<close>\<close>
  "print_literal l p m =
     on_ok (ensure p (length l + 1) m) (\<lambda>p m. do { p \<leftarrow> put p 0 (l @ [0]); Some (True, p, m) })"

definition tabs :: "nat \<Rightarrow> bytes" where
  "tabs n = replicate n 9"

function print_value :: "cJSON \<Rightarrow> printbuffer \<Rightarrow> mem \<Rightarrow> print_result"
  and print_array :: "cJSON list \<Rightarrow> printbuffer \<Rightarrow> mem \<Rightarrow> print_result"
  and print_elements :: "cJSON list \<Rightarrow> printbuffer \<Rightarrow> mem \<Rightarrow> print_result"
  and print_object :: "cJSON list \<Rightarrow> printbuffer \<Rightarrow> mem \<Rightarrow> print_result"
  and print_members :: "cJSON list \<Rightarrow> printbuffer \<Rightarrow> mem \<Rightarrow> print_result"
where
  "print_value (CJ ty vs vi vd s child) p m =
     (let item = CJ ty vs vi vd s child; tg = ty AND 0xFF
      in if tg = cJSON_NULL then print_literal (cstr ''null'') p m
         else if tg = cJSON_False then print_literal (cstr ''false'') p m
         else if tg = cJSON_True then print_literal (cstr ''true'') p m
         else if tg = cJSON_Number then print_number item p m
         else if tg = cJSON_Raw then
           (case vs of None \<Rightarrow> Some (False, p, m) | Some raw \<Rightarrow> print_literal raw p m)
         else if tg = cJSON_String then print_string item p m
         else if tg = cJSON_Array then print_array child p m
         else if tg = cJSON_Object then print_object child p m
         else Some (False, p, m))"
| "print_array child p m =
     on_ok (ensure p 1 m) (\<lambda>p m. do {
       p \<leftarrow> put p 0 [91];
       let p = (move 1 p)\<lparr>out_depth := out_depth p + 1\<rparr>;
       on_ok (print_elements child p m) (\<lambda>p m.
       on_ok (ensure p 2 m) (\<lambda>p m. do {
         p \<leftarrow> put p 0 [93];
         p \<leftarrow> put p 1 [0];
         Some (True, p\<lparr>out_depth := out_depth p - 1\<rparr>, m) })) })"
| "print_elements [] p m = Some (True, p, m)"
| "print_elements (t # ts) p m =
     on_ok (print_value t p m) (\<lambda>p m. do {
       p \<leftarrow> update_offset p;
       if ts \<noteq> [] then
         let n = (if format p then 2 else 1)
         in on_ok (ensure p (n + 1) m) (\<lambda>p m. do {
              p \<leftarrow> put p 0 [44];
              p \<leftarrow> (if format p then put p 1 [32] else Some p);
              p \<leftarrow> put p n [0];
              print_elements ts (move n p) m })
       else Some (True, p, m) })"
| "print_object child p m =
     (let n = (if format p then 2 else 1)
      in on_ok (ensure p (n + 1) m) (\<lambda>p m. do {
        p \<leftarrow> put p 0 [123];
        p \<leftarrow> (if format p then put p 1 [10] else Some p);
        let p = (move n p)\<lparr>out_depth := out_depth p + 1\<rparr>;
        on_ok (print_members child p m) (\<lambda>p m.
        on_ok (ensure p (if format p then out_depth p + 1 else 2) m) (\<lambda>p m. do {
          let k = (if format p then out_depth p - 1 else 0);
          p \<leftarrow> put p 0 (tabs k);
          p \<leftarrow> put p k [125];
          p \<leftarrow> put p (k + 1) [0];
          Some (True, p\<lparr>out_depth := out_depth p - 1\<rparr>, m) })) }))"
| "print_members [] p m = Some (True, p, m)"
| "print_members (t # ts) p m =
     on_ok (if format p
            then on_ok (ensure p (out_depth p) m) (\<lambda>p m. do {
                   p \<leftarrow> put p 0 (tabs (out_depth p));
                   Some (True, move (out_depth p) p, m) })
            else Some (True, p, m)) (\<lambda>p m.
     on_ok (print_string_ptr (jstring t) p m) (\<lambda>p m. do {
       p \<leftarrow> update_offset p;
       let n = (if format p then 2 else 1);
       on_ok (ensure p n m) (\<lambda>p m. do {
         p \<leftarrow> put p 0 [58];
         p \<leftarrow> (if format p then put p 1 [9] else Some p);
         let p = move n p;
         on_ok (print_value t p m) (\<lambda>p m. do {
           p \<leftarrow> update_offset p;
           let comma = (if ts \<noteq> [] then [44] else []);
           let nl = (if format p then [10] else []);
           let n = length nl + length comma;
           on_ok (ensure p (n + 1) m) (\<lambda>p m. do {
             p \<leftarrow> put p 0 comma;
             p \<leftarrow> put p (length comma) nl;
             p \<leftarrow> put p n [0];
             print_members ts (move n p) m }) }) }) }))"

  by pat_completeness auto
termination
  by (relation "measure (case_sum
        (case_sum (\<lambda>(t, _, _). 3 * size t) (\<lambda>(ts, _, _). 3 * size_list size ts + 2))
        (case_sum (\<lambda>(ts, _, _). 3 * size_list size ts + 1)
          (case_sum (\<lambda>(ts, _, _). 3 * size_list size ts + 2) (\<lambda>(ts, _, _). 3 * size_list size ts + 1))))")
     auto

declare print_array.simps [simp del] print_elements.simps(2) [simp del] print_object.simps [simp del]
  print_members.simps(2) [simp del]

subsection \<open>Entry points\<close>

definition free_buffer :: "printbuffer \<Rightarrow> mem \<Rightarrow> mem" where
  \<comment> \<open>\<open>if (buffer->buffer != NULL) hooks->deallocate (buffer->buffer)\<close>\<close>
  "free_buffer p m = (if out_buffer p = None then m else c_deallocate m)"

definition print :: "cJSON \<Rightarrow> bool \<Rightarrow> bool \<Rightarrow> mem \<Rightarrow> (bytes option \<times> mem) option" where
  \<comment> \<open>item, \<open>format\<close>, \<open>hooks->reallocate != NULL\<close>; the returned block\<close>
  "print item fmt realloc m =
     (case c_allocate m of
        (False, m) \<Rightarrow> Some (None, m)
      | (True, m) \<Rightarrow> do {
          let p = \<lparr>out_buffer = Some (fresh_bytes m 256), out_length = 256, out_offset = 0, out_depth = 0,
                   noalloc = False, format = fmt, has_realloc = realloc\<rparr>;
          (ok, p, m) \<leftarrow> print_value item p m;
          if \<not> ok then Some (None, free_buffer p m)
          else do {
            p \<leftarrow> update_offset p;
            b \<leftarrow> out_buffer p;
            if realloc then
              (case c_reallocate b (out_offset p + 1) m of
                 (None, m) \<Rightarrow> Some (None, free_buffer p m)
               | (Some printed, m) \<Rightarrow> Some (Some printed, m))
            else
              (case c_allocate m of
                 (False, m) \<Rightarrow> Some (None, free_buffer p m)
               | (True, m) \<Rightarrow> do {
                   text \<leftarrow> read_range b 0 (min (out_length p) (out_offset p + 1));
                   printed \<leftarrow> write_at (fresh_bytes m (out_offset p + 1)) 0 text;
                   printed \<leftarrow> write_at printed (out_offset p) [0];
                   Some (Some printed, c_deallocate m) }) } })"

definition cJSON_Print :: "cJSON \<Rightarrow> bool \<Rightarrow> mem \<Rightarrow> (bytes option \<times> mem) option" where
  "cJSON_Print item = print item True"

definition cJSON_PrintUnformatted :: "cJSON \<Rightarrow> bool \<Rightarrow> mem \<Rightarrow> (bytes option \<times> mem) option" where
  "cJSON_PrintUnformatted item = print item False"

definition cJSON_PrintBuffered ::
    "cJSON \<Rightarrow> int \<Rightarrow> bool \<Rightarrow> bool \<Rightarrow> mem \<Rightarrow> (bytes option \<times> mem) option" where
  \<comment> \<open>\<open>deallocate\<close> of a NULL buffer does nothing\<close>
  "cJSON_PrintBuffered item prebuffer fmt realloc m =
     (if prebuffer < 0 then Some (None, m)
      else case c_allocate m of
        (False, m) \<Rightarrow> Some (None, m)
      | (True, m) \<Rightarrow> do {
          let p = \<lparr>out_buffer = Some (fresh_bytes m (nat prebuffer)), out_length = nat prebuffer,
                   out_offset = 0, out_depth = 0, noalloc = False, format = fmt, has_realloc = realloc\<rparr>;
          (ok, p, m) \<leftarrow> print_value item p m;
          if \<not> ok then Some (None, free_buffer p m)
          else Some (out_buffer p, m) })"

definition cJSON_PrintPreallocated ::
    "cJSON \<Rightarrow> bytes option \<Rightarrow> int \<Rightarrow> bool \<Rightarrow> bool \<Rightarrow> mem \<Rightarrow> (bool \<times> bytes option \<times> mem) option" where
  \<comment> \<open>the caller's buffer, and the length the caller says it has\<close>
  "cJSON_PrintPreallocated item buffer len fmt realloc m =
     (if len < 0 \<or> buffer = None then Some (False, buffer, m)
      else do {
        (ok, p, m) \<leftarrow> print_value item
          \<lparr>out_buffer = buffer, out_length = nat len, out_offset = 0, out_depth = 0,
           noalloc = True, format = fmt, has_realloc = realloc\<rparr> m;
        Some (ok, out_buffer p, m) })"

end
