(* ===== verification/JsonRender.thy ===== *)
theory JsonRender
  imports JsonEscape JsonPrint CDoubleFacts JsonParseSafe
begin

text \<open>
  What the printer prints: \<open>render\<close> is the text of an item as a function, with no buffer, and
  every print routine emits exactly that text (the contract of \<open>JsonEmit\<close>) for items whose
  strings are C strings and whose numbers are doubles.
\<close>

unbundle bit_operations_syntax

subsection \<open>The text of an item\<close>

fun render :: "bool \<Rightarrow> nat \<Rightarrow> cJSON \<Rightarrow> bytes option"
  and render_elements :: "bool \<Rightarrow> nat \<Rightarrow> cJSON list \<Rightarrow> bytes option"
  and render_members :: "bool \<Rightarrow> nat \<Rightarrow> cJSON list \<Rightarrow> bytes option"
where
  "render fmt d (CJ ty vs vi vd s child) =
     (let tg = ty AND 0xFF
      in if tg = cJSON_NULL then Some (cstr ''null'')
         else if tg = cJSON_False then Some (cstr ''false'')
         else if tg = cJSON_True then Some (cstr ''true'')
         else if tg = cJSON_Number then Some (number_text_of vd)
         else if tg = cJSON_Raw then vs
         else if tg = cJSON_String then Some (render_string vs)
         else if tg = cJSON_Array then
           map_option (\<lambda>x. [91] @ x @ [93]) (render_elements fmt (d + 1) child)
         else if tg = cJSON_Object then
           map_option (\<lambda>x. [123] @ (if fmt then [10] else []) @ x @ tabs (if fmt then d else 0) @ [125])
             (render_members fmt (d + 1) child)
         else None)"
| "render_elements fmt d [] = Some []"
| "render_elements fmt d (t # ts) = do {
     x \<leftarrow> render fmt d t;
     y \<leftarrow> render_elements fmt d ts;
     Some (x @ (if ts = [] then [] else if fmt then [44, 32] else [44]) @ y) }"
| "render_members fmt d [] = Some []"
| "render_members fmt d (t # ts) = do {
     x \<leftarrow> render fmt d t;
     y \<leftarrow> render_members fmt d ts;
     Some (tabs (if fmt then d else 0) @ render_string (jstring t) @ (if fmt then [58, 9] else [58]) @ x
           @ (if ts = [] then [] else [44]) @ (if fmt then [10] else []) @ y) }"

fun printable :: "cJSON \<Rightarrow> bool" where
  \<comment> \<open>strings end at their NUL, numbers are doubles\<close>
  "printable (CJ ty vs vi vd s child) \<longleftrightarrow>
     (case vs of None \<Rightarrow> True | Some x \<Rightarrow> c_string x) \<and> (case s of None \<Rightarrow> True | Some x \<Rightarrow> c_string x)
     \<and> wf_double vd \<and> list_all printable child"

subsection \<open>Rules for \<open>on_ok\<close>\<close>

lemma on_ok_Some [simp]: "on_ok (Some (True, p, m)) f = f p m" "on_ok (Some (False, p, m)) f = Some (False, p, m)"
  by (simp_all add: on_ok_def)

lemma on_ok_None [simp]: "on_ok None f = None"
  by (simp add: on_ok_def)

lemma on_ok_on_ok: "on_ok (on_ok r f) g = on_ok r (\<lambda>p m. on_ok (f p m) g)"
  by (cases r) (auto simp: on_ok_def split: prod.splits)

lemma on_ok_bind: "on_ok (Option.bind r f) g = Option.bind r (\<lambda>p. on_ok (f p) g)"
  by (cases r) (simp_all add: on_ok_def)

lemmas ensure_ok = ensure_rule [folded on_ok_def]
lemmas call_ok = call_rule [folded on_ok_def]

lemma move_here:
  assumes "writing p m x (y @ z) q m1" and "c_string y" and "length y = k" and "out_offset q + k < out_length q"
  shows "writing p m (x @ y) z (move k q) m1"
  using assms by (auto simp: move_def writing_def same_mode_def ok_cursor_def)

lemma move_sel [simp]: "out_depth (move k q) = out_depth q" "format (move k q) = format q"
  "out_offset (move k q) = out_offset q + k" "out_length (move k q) = out_length q"
  by (simp_all add: move_def)

lemma writing_format: "writing p m x y q m1 \<Longrightarrow> format q = format p"
  by (simp add: writing_def same_mode_def)

lemma writing_end:
  "writing p m x (y @ z) q m1 \<Longrightarrow> writing p m x y q m1"
  by (auto simp: writing_def)

subsection \<open>Numbers and literals\<close>

lemma number_text_of_text:
  assumes "wf_double d"
  shows "length (number_text_of d) < 26" and "c_string (number_text_of d)"
proof -
  have *: "length t < 26 \<and> c_string t" if "t = format_g 15 d \<or> t = format_g 17 d" "\<not> is_nan_or_inf d" for t
  proof -
    have "number_text t" "length t \<le> 24"
      using that format_g_text [OF assms that(2), of 15] format_g_text [OF assms that(2), of 17] by auto
    moreover from this(1) have "0 \<notin> set t" by (auto simp: number_text_def is_digit_def)
    ultimately show ?thesis by (simp add: c_string_def)
  qed
  have "length (number_text_of d) < 26 \<and> c_string (number_text_of d)"
  proof (cases "is_nan_or_inf d")
    case True
    then show ?thesis by (simp add: number_text_of_def byte_of_def)
  next
    case False
    then show ?thesis using *[of "format_g 15 d"] *[of "format_g 17 d"]
      by (simp add: number_text_of_def Let_def split: prod.splits)
  qed
  then show "length (number_text_of d) < 26" "c_string (number_text_of d)" by auto
qed

lemma print_literal_emits:
  assumes "ok_out p" and "c_string l"
  shows "emits p m (Some l) (print_literal l p m)"
  unfolding print_literal_def
proof (rule ensure_ok [OF writing_start [OF assms(1)]])
  fix n' b' m'
  assume w: "writing p m [] [] (p\<lparr>out_length := n', out_buffer := Some b'\<rparr>) m'"
    and room: "out_offset p + (length l + 1) + 1 \<le> n'"
  show "emits p m (Some l)
      (do { p \<leftarrow> put (p\<lparr>out_length := n', out_buffer := Some b'\<rparr>) 0 (l @ [0]); Some (True, p, m') })"
    by (rule put_step [where y = "[]" and y' = "[]"])
       (use w room assms(2) in \<open>auto intro!: done_step [where x = "[]" and y = l]\<close>)
qed auto

lemma print_number_emits:
  assumes "ok_out p" and "wf_double (jvaluedouble item)"
  shows "emits p m (Some (number_text_of (jvaluedouble item))) (print_number item p m)"
proof -
  define t where "t = number_text_of (jvaluedouble item)"
  have t: "length t < 26" "c_string t" using number_text_of_text [OF assms(2)] by (auto simp: t_def)
  have "emits p m (Some t) (on_ok (ensure p (length t + 1) m) (\<lambda>p m. do {
           p \<leftarrow> put p 0 t;
           p \<leftarrow> put p (length t) [0];
           Some (True, move (length t) p, m) }))"
  proof (rule ensure_ok [OF writing_start [OF assms(1)]])
    fix n' b' m'
    assume w: "writing p m [] [] (p\<lparr>out_length := n', out_buffer := Some b'\<rparr>) m'"
      and room: "out_offset p + (length t + 1) + 1 \<le> n'"
    let ?q = "p\<lparr>out_length := n', out_buffer := Some b'\<rparr>"
    show "emits p m (Some t) (do { p \<leftarrow> put ?q 0 t; p \<leftarrow> put p (length t) [0]; Some (True, move (length t) p, m') })"
    proof (rule put_step [where y = "[]" and y' = "[]"])
      fix b z assume w1: "writing p m [] (([] @ t) @ z) (?q\<lparr>out_buffer := Some b\<rparr>) m'"
      show "emits p m (Some t) (do { p \<leftarrow> put (?q\<lparr>out_buffer := Some b\<rparr>) (length t) [0]; Some (True, move (length t) p, m') })"
      proof (rule put_step [OF w1])
        fix b2 z2
        assume "writing p m [] ((([] @ t) @ [0]) @ z2) (?q\<lparr>out_buffer := Some b, out_buffer := Some b2\<rparr>) m'"
        then have "writing p m [] (t @ [0]) (?q\<lparr>out_buffer := Some b2\<rparr>) m'"
          by (auto intro: writing_end)
        then have "writing p m ([] @ t) [0] (move (length t) (?q\<lparr>out_buffer := Some b2\<rparr>)) m'"
          using t(2) room by (intro move_here) auto
        then show "emits p m (Some t) (Some (True, move (length t) (?q\<lparr>out_buffer := Some b, out_buffer := Some b2\<rparr>), m'))"
          by (intro done_rule [where x = t and y = "[]"]) auto
      qed (use room in auto)
    qed (use w room in auto)
  qed auto
  then show ?thesis using t(1) unfolding print_number_def t_def [symmetric] Let_def by simp
qed

subsection \<open>Arrays\<close>

definition prints :: "cJSON \<Rightarrow> bool" where
  "prints t \<longleftrightarrow> (\<forall>p m. ok_out p \<longrightarrow> emits p m (render (format p) (out_depth p) t) (print_value t p m))"

lemma call_value:
  assumes "prints t" and w: "writing p m x [] q m1"
    and fit: "\<And>w. T = Some w \<Longrightarrow> \<exists>y. render (format q) (out_depth q) t = Some y \<and> length x + length y \<le> length w"
    and go: "\<And>y q' m'. render (format q) (out_depth q) t = Some y \<Longrightarrow> writing p m (x @ y) [] q' m' \<Longrightarrow>
        out_depth q' = out_depth q \<Longrightarrow> format q' = format q \<Longrightarrow> emits p m T (f q' m')"
  shows "emits p m T (on_ok (print_value t q m1) (\<lambda>q m. do { q \<leftarrow> update_offset q; f q m }))"
proof (rule call_ok [OF w, where Y = "render (format q) (out_depth q) t"])
  show "emits q m1 (render (format q) (out_depth q) t) (print_value t q m1)"
    using assms(1) writing_ok_out [OF w] by (simp add: prints_def)
  fix y q' m'
  assume "render (format q) (out_depth q) t = Some y" "writing p m (x @ y) [0] q' m'" "out_depth q' = out_depth q"
  then show "emits p m T (f q' m')"
    using go writing_forget writing_format [OF w] writing_format by fastforce
qed (use fit in auto)

lemma put_move:
  \<comment> \<open>store \<open>y\<close> in one or two pieces and a NUL, then move past \<open>y\<close>\<close>
  assumes w: "writing p m x [] q m1" and y: "y = y1 @ y2" "k = length y1" "n = length y" "c_string y"
    and room: "out_offset q + n + 1 \<le> out_length q"
    and go: "\<And>q'. writing p m (x @ y) [] q' m1 \<Longrightarrow> out_depth q' = out_depth q \<Longrightarrow> format q' = format q \<Longrightarrow>
        emits p m T (f q')"
  shows "emits p m T (do { q \<leftarrow> put q 0 y1; q \<leftarrow> put q k y2; q \<leftarrow> put q n [0]; f (move n q) })"
proof (rule put_step [where y = "[]" and y' = "[]"])
  fix b z assume w1: "writing p m x (([] @ y1) @ z) (q\<lparr>out_buffer := Some b\<rparr>) m1"
  show "emits p m T (do { q \<leftarrow> put (q\<lparr>out_buffer := Some b\<rparr>) k y2; q \<leftarrow> put q n [0]; f (move n q) })"
  proof (rule put_step [OF w1])
    fix b2 z2 assume w2: "writing p m x ((([] @ y1) @ y2) @ z2) (q\<lparr>out_buffer := Some b, out_buffer := Some b2\<rparr>) m1"
    show "emits p m T (do { q \<leftarrow> put (q\<lparr>out_buffer := Some b, out_buffer := Some b2\<rparr>) n [0]; f (move n q) })"
    proof (rule put_step [OF w2])
      fix b3 z3
      assume "writing p m x (((([] @ y1) @ y2) @ [0]) @ z3) (q\<lparr>out_buffer := Some b, out_buffer := Some b2, out_buffer := Some b3\<rparr>) m1"
      then have "writing p m x (y @ ([0] @ z3)) (q\<lparr>out_buffer := Some b3\<rparr>) m1" using y(1) by simp
      then have "writing p m (x @ y) ([0] @ z3) (move n (q\<lparr>out_buffer := Some b3\<rparr>)) m1"
        using y room by (intro move_here) auto
      from go [OF writing_forget [OF this]]
      show "emits p m T (f (move n (q\<lparr>out_buffer := Some b, out_buffer := Some b2, out_buffer := Some b3\<rparr>)))" by simp
    qed (use y room in auto)
  qed (use y room in auto)
qed (use w y room in auto)

lemma put_nothing:
  assumes "writing p m x y q m1" and "length y = i" and "emits p m T (f q)"
  shows "emits p m T (do { q \<leftarrow> put q i []; f q })"
proof -
  obtain b where b: "out_buffer q = Some b" "out_offset q + i \<le> length b"
    using assms(1,2) by (auto simp: writing_def)
  then have "put q i [] = Some (q\<lparr>out_buffer := Some b\<rparr>)" by (simp add: put_def write_at_def)
  moreover have "q\<lparr>out_buffer := Some b\<rparr> = q" using b(1) by (cases q) simp
  ultimately show ?thesis using assms(3) by simp
qed

definition pair_of :: "bool \<Rightarrow> u8 \<Rightarrow> u8 \<Rightarrow> bytes" where
  "pair_of fmt c1 c2 = (if fmt then [c1, c2] else [c1])"

lemma length_pair_of: "length (pair_of fmt c1 c2) = (if fmt then 2 else 1)"
  by (simp add: pair_of_def)

lemma put_pair:
  assumes w: "writing p m x [] q m1" and room: "out_offset q + (if format q then 2 else 1) \<le> out_length q"
    and go: "\<And>b z. writing p m x (pair_of (format q) c1 c2 @ z) (q\<lparr>out_buffer := Some b\<rparr>) m1 \<Longrightarrow>
        emits p m T (f (q\<lparr>out_buffer := Some b\<rparr>))"
  shows "emits p m T (do { q \<leftarrow> put q 0 [c1]; q \<leftarrow> (if format q then put q 1 [c2] else Some q); f q })"
proof (rule put_step [where y = "[]" and y' = "[]"])
  fix b z assume w1: "writing p m x (([] @ [c1]) @ z) (q\<lparr>out_buffer := Some b\<rparr>) m1"
  show "emits p m T (do { q \<leftarrow> (if format (q\<lparr>out_buffer := Some b\<rparr>) then put (q\<lparr>out_buffer := Some b\<rparr>) 1 [c2]
      else Some (q\<lparr>out_buffer := Some b\<rparr>)); f q })"
  proof (cases "format q")
    case True
    have "emits p m T (do { q \<leftarrow> put (q\<lparr>out_buffer := Some b\<rparr>) 1 [c2]; f q })"
      by (rule put_step [OF w1]) (use True room go in \<open>auto simp: pair_of_def\<close>)
    with True show ?thesis by simp
  next
    case False
    with w1 go [of z b] show ?thesis by (simp add: pair_of_def)
  qed
qed (use w room in \<open>auto split: if_splits\<close>)

lemma put_pair_move:
  assumes w: "writing p m x [] q m1" and n: "n = (if format q then 2 else 1)"
    and room: "out_offset q + n < out_length q" and "c1 \<noteq> 0" and "c2 \<noteq> 0"
    and go: "\<And>b z. writing p m (x @ pair_of (format q) c1 c2) [] (move n (q\<lparr>out_buffer := Some b\<rparr>)) m1 \<Longrightarrow>
        emits p m T (f (move n (q\<lparr>out_buffer := Some b\<rparr>)))"
  shows "emits p m T (do { q \<leftarrow> put q 0 [c1]; q \<leftarrow> (if format q then put q 1 [c2] else Some q); f (move n q) })"
proof (rule put_pair [OF w])
  fix b z assume "writing p m x (pair_of (format q) c1 c2 @ z) (q\<lparr>out_buffer := Some b\<rparr>) m1"
  from move_here [OF this, of n] n room assms(4,5)
  have "writing p m (x @ pair_of (format q) c1 c2) z (move n (q\<lparr>out_buffer := Some b\<rparr>)) m1"
    by (auto simp: pair_of_def)
  from go [OF writing_forget [OF this]]
  show "emits p m T (f (move n (q\<lparr>out_buffer := Some b\<rparr>)))" .
qed (use n room in \<open>auto split: if_splits\<close>)

lemma put_pair_NUL_move:
  assumes w: "writing p m x [] q m1" and n: "n = (if format q then 2 else 1)"
    and room: "out_offset q + n < out_length q" and "c1 \<noteq> 0" and "c2 \<noteq> 0"
    and go: "\<And>b z. writing p m (x @ pair_of (format q) c1 c2) [] (move n (q\<lparr>out_buffer := Some b\<rparr>)) m1 \<Longrightarrow>
        emits p m T (f (move n (q\<lparr>out_buffer := Some b\<rparr>)))"
  shows "emits p m T (do { q \<leftarrow> put q 0 [c1]; q \<leftarrow> (if format q then put q 1 [c2] else Some q);
      q \<leftarrow> put q n [0]; f (move n q) })"
proof (rule put_pair [OF w])
  fix b z assume w1: "writing p m x (pair_of (format q) c1 c2 @ z) (q\<lparr>out_buffer := Some b\<rparr>) m1"
  show "emits p m T (do { q \<leftarrow> put (q\<lparr>out_buffer := Some b\<rparr>) n [0]; f (move n q) })"
  proof (rule put_step [OF w1])
    fix b2 z2 assume "writing p m x ((pair_of (format q) c1 c2 @ [0]) @ z2)
        (q\<lparr>out_buffer := Some b, out_buffer := Some b2\<rparr>) m1"
    then have "writing p m x (pair_of (format q) c1 c2 @ ([0] @ z2)) (q\<lparr>out_buffer := Some b2\<rparr>) m1" by simp
    from move_here [OF this, of n] n room assms(4,5)
    have "writing p m (x @ pair_of (format q) c1 c2) ([0] @ z2) (move n (q\<lparr>out_buffer := Some b2\<rparr>)) m1"
      by (auto simp: pair_of_def)
    from go [OF writing_forget [OF this]]
    show "emits p m T (f (move n (q\<lparr>out_buffer := Some b, out_buffer := Some b2\<rparr>)))" by simp
  qed (use n room in \<open>auto simp: length_pair_of\<close>)
qed (use n room in \<open>auto split: if_splits\<close>)

lemma print_elements_emits:
  assumes "\<forall>t \<in> set ts. prints t" and "writing p m x [] q m1"
    and "\<And>w. T = Some w \<Longrightarrow> \<exists>y. render_elements (format q) (out_depth q) ts = Some y \<and> length x + length y \<le> length w"
    and "\<And>y q' m'. render_elements (format q) (out_depth q) ts = Some y \<Longrightarrow> writing p m (x @ y) [] q' m' \<Longrightarrow>
        out_depth q' = out_depth q \<Longrightarrow> format q' = format q \<Longrightarrow> emits p m T (f q' m')"
  shows "emits p m T (on_ok (print_elements ts q m1) f)"
  using assms
proof (induction ts arbitrary: x q m1)
  case Nil
  then show ?case by simp
next
  case (Cons t ts)
  let ?F = "format q" and ?d = "out_depth q"
  show ?case
    unfolding print_elements.simps(2) on_ok_on_ok on_ok_bind
  proof (rule call_value [OF _ Cons.prems(2)])
    show "prints t" using Cons.prems(1) by simp
    fix w assume "T = Some w"
    then show "\<exists>y. render ?F ?d t = Some y \<and> length x + length y \<le> length w"
      using Cons.prems(3) by (fastforce split: Option.bind_splits)
  next
    fix y q' m'
    assume y: "render ?F ?d t = Some y" and w: "writing p m (x @ y) [] q' m'"
      and d: "out_depth q' = ?d" "format q' = ?F"
    let ?sep = "if ?F then [44, 32] else [44] :: bytes"
    let ?n = "if format q' then 2 else 1 :: nat"
    show "emits p m T (on_ok (if ts \<noteq> [] then let n = ?n
        in on_ok (ensure q' (n + 1) m') (\<lambda>p m. do { p \<leftarrow> put p 0 [44]; p \<leftarrow> (if format p then put p 1 [32] else Some p);
             p \<leftarrow> put p n [0]; print_elements ts (move n p) m })
        else Some (True, q', m')) f)"
    proof (cases "ts = []")
      case True
      then show ?thesis using Cons.prems(4) [of y q' m'] y w d by simp
    next
      case False
      show ?thesis unfolding if_P [OF False] Let_def on_ok_on_ok on_ok_bind
      proof (rule ensure_ok [OF w])
        fix t' assume "T = Some t'"
        then obtain r where "render_elements ?F ?d (t # ts) = Some r" "length x + length r \<le> length t'"
          using Cons.prems(3) by blast
        then show "length (x @ y) + (?n + 1) \<le> length t' + 1"
          using y False d by (auto split: Option.bind_splits if_splits)
      next
        fix n' b' m2
        let ?q = "q'\<lparr>out_length := n', out_buffer := Some b'\<rparr>"
        assume w': "writing p m (x @ y) [] ?q m2" and room: "out_offset q' + (?n + 1) + 1 \<le> n'"
        have next_el: "emits p m T (on_ok (print_elements ts q2 m2) f)"
          if "writing p m ((x @ y) @ ?sep) [] q2 m2" "out_depth q2 = ?d" "format q2 = ?F" for q2
        proof (rule Cons.IH [OF _ that(1)])
          show "\<forall>t \<in> set ts. prints t" using Cons.prems(1) by simp
        next
          fix v assume "T = Some v"
          then obtain r where "render_elements ?F ?d (t # ts) = Some r" "length x + length r \<le> length v"
            using Cons.prems(3) by blast
          then show "\<exists>z. render_elements (format q2) (out_depth q2) ts = Some z \<and> length ((x @ y) @ ?sep) + length z \<le> length v"
            using y False that by (auto split: Option.bind_splits if_splits)
        next
          fix z q3 m3
          assume "render_elements (format q2) (out_depth q2) ts = Some z"
            "writing p m (((x @ y) @ ?sep) @ z) [] q3 m3" "out_depth q3 = out_depth q2" "format q3 = format q2"
          then show "emits p m T (f q3 m3)"
            using Cons.prems(4) [of "y @ ?sep @ z" q3 m3] y False that by simp
        qed
        show "emits p m T (do { p \<leftarrow> put ?q 0 [44]; p \<leftarrow> (if format p then put p 1 [32] else Some p);
            p \<leftarrow> put p ?n [0]; on_ok (print_elements ts (move ?n p) m2) f })"
        proof (rule put_pair_NUL_move [OF w'])
          fix b z assume "writing p m ((x @ y) @ pair_of (format ?q) 44 32) [] (move ?n (?q\<lparr>out_buffer := Some b\<rparr>)) m2"
          then show "emits p m T (on_ok (print_elements ts (move ?n (?q\<lparr>out_buffer := Some b\<rparr>)) m2) f)"
            using d by (intro next_el) (auto simp: pair_of_def)
        qed (use room in auto)
      qed auto
    qed
  qed
qed

lemma print_array_emits:
  assumes ch: "\<forall>t \<in> set child. prints t" and ok: "ok_out p"
  shows "emits p m (map_option (\<lambda>x. [91] @ x @ [93]) (render_elements (format p) (out_depth p + 1) child))
    (print_array child p m)"
    (is "emits p m ?T _")
  unfolding print_array.simps
proof (rule ensure_ok [OF writing_start [OF ok]])
  fix n' b' m1
  let ?q = "p\<lparr>out_length := n', out_buffer := Some b'\<rparr>"
  assume w: "writing p m [] [] ?q m1" and room: "out_offset p + 1 + 1 \<le> n'"
  let ?k = "\<lambda>p m. on_ok (ensure p 2 m) (\<lambda>p m. do { p \<leftarrow> put p 0 [93]; p \<leftarrow> put p 1 [0];
      Some (True, p\<lparr>out_depth := out_depth p - 1\<rparr>, m) })"
  show "emits p m ?T (do { p \<leftarrow> put ?q 0 [91]; let p = (move 1 p)\<lparr>out_depth := out_depth p + 1\<rparr>;
      on_ok (print_elements child p m1) ?k })"
  proof (rule put_step [where y = "[]" and y' = "[]"])
    fix b z assume "writing p m [] (([] @ [91]) @ z) (?q\<lparr>out_buffer := Some b\<rparr>) m1"
    then have "writing p m ([] @ [91]) z (move 1 (?q\<lparr>out_buffer := Some b\<rparr>)) m1"
      using room by (intro move_here) auto
    then have w1: "writing p m [91] [] ((move 1 (?q\<lparr>out_buffer := Some b\<rparr>))\<lparr>out_depth := out_depth p + 1\<rparr>) m1"
      using writing_forget by fastforce
    have "emits p m ?T (on_ok (print_elements child
        ((move 1 (?q\<lparr>out_buffer := Some b\<rparr>))\<lparr>out_depth := out_depth p + 1\<rparr>) m1) ?k)"
    proof (rule print_elements_emits [OF ch w1])
      fix y q' m'
      assume y: "render_elements (format ((move 1 (?q\<lparr>out_buffer := Some b\<rparr>))\<lparr>out_depth := out_depth p + 1\<rparr>))
          (out_depth ((move 1 (?q\<lparr>out_buffer := Some b\<rparr>))\<lparr>out_depth := out_depth p + 1\<rparr>)) child = Some y"
        and w2: "writing p m ([91] @ y) [] q' m'"
        and d: "out_depth q' = out_depth ((move 1 (?q\<lparr>out_buffer := Some b\<rparr>))\<lparr>out_depth := out_depth p + 1\<rparr>)"
      have T: "?T = Some ([91] @ y @ [93])" using y by simp
      show "emits p m ?T (?k q' m')"
      proof (rule ensure_ok [OF w2])
        fix n2 b2 m2
        let ?q2 = "q'\<lparr>out_length := n2, out_buffer := Some b2\<rparr>"
        assume w3: "writing p m ([91] @ y) [] ?q2 m2" and room2: "out_offset q' + 2 + 1 \<le> n2"
        show "emits p m ?T (do { p \<leftarrow> put ?q2 0 [93]; p \<leftarrow> put p 1 [0]; Some (True, p\<lparr>out_depth := out_depth p - 1\<rparr>, m2) })"
        proof (rule put_step [where y = "[]" and y' = "[]"])
          fix b3 z3 assume w4: "writing p m ([91] @ y) (([] @ [93]) @ z3) (?q2\<lparr>out_buffer := Some b3\<rparr>) m2"
          show "emits p m ?T (do { p \<leftarrow> put (?q2\<lparr>out_buffer := Some b3\<rparr>) 1 [0]; Some (True, p\<lparr>out_depth := out_depth p - 1\<rparr>, m2) })"
          proof (rule put_step [OF w4])
            fix b4 z4
            assume "writing p m ([91] @ y) ((([] @ [93]) @ [0]) @ z4) (?q2\<lparr>out_buffer := Some b3, out_buffer := Some b4\<rparr>) m2"
            then show "emits p m ?T (Some (True, (?q2\<lparr>out_buffer := Some b3, out_buffer := Some b4\<rparr>)
                \<lparr>out_depth := out_depth (?q2\<lparr>out_buffer := Some b3, out_buffer := Some b4\<rparr>) - 1\<rparr>, m2))"
              using d T by (intro done_step [where x = "[91] @ y" and y = "[93]" and z = z4]) auto
          qed (use room2 in auto)
        qed (use w3 room2 in auto)
      qed (use T in auto)
    qed auto
    then show "emits p m ?T (let p = (move 1 (?q\<lparr>out_buffer := Some b\<rparr>))
        \<lparr>out_depth := out_depth (?q\<lparr>out_buffer := Some b\<rparr>) + 1\<rparr> in on_ok (print_elements child p m1) ?k)"
      by (simp add: Let_def)
  qed (use w room in auto)
qed auto

subsection \<open>Objects\<close>

lemma length_tabs [simp]: "length (tabs n) = n"
  by (simp add: tabs_def)

lemma c_string_tabs [simp]: "c_string (tabs n)"
  by (auto simp: tabs_def c_string_def)

lemma c_string_render_string: "(\<And>x. s = Some x \<Longrightarrow> c_string x) \<Longrightarrow> c_string (render_string s)"
  by (cases s) (auto simp: render_string_def c_string_escaped)

lemma indent_emits:
  assumes w: "writing p m x [] q m1" and d: "0 < out_depth q"
    and fit: "\<And>w. T = Some w \<Longrightarrow> length x + length (tabs (if format q then out_depth q else 0)) \<le> length w + 1"
    and go: "\<And>q' m'. writing p m (x @ tabs (if format q then out_depth q else 0)) [] q' m' \<Longrightarrow> out_depth q' = out_depth q \<Longrightarrow>
        format q' = format q \<Longrightarrow> emits p m T (f q' m')"
  shows "emits p m T (on_ok (if format q
            then on_ok (ensure q (out_depth q) m1) (\<lambda>p m. do {
                   p \<leftarrow> put p 0 (tabs (out_depth p));
                   Some (True, move (out_depth p) p, m) })
            else Some (True, q, m1)) f)"
proof (cases "format q")
  case True
  show ?thesis unfolding if_P [OF True] on_ok_on_ok on_ok_bind
  proof (rule ensure_ok [OF w d])
    fix n' b' m'
    let ?q = "q\<lparr>out_length := n', out_buffer := Some b'\<rparr>"
    assume w': "writing p m x [] ?q m'" and room: "out_offset q + out_depth q + 1 \<le> n'"
    show "emits p m T (do { p \<leftarrow> put ?q 0 (tabs (out_depth ?q)); on_ok (Some (True, move (out_depth p) p, m')) f })"
    proof (rule put_step [where y = "[]" and y' = "[]"])
      fix b z assume "writing p m x (([] @ tabs (out_depth ?q)) @ z) (?q\<lparr>out_buffer := Some b\<rparr>) m'"
      then have "writing p m (x @ tabs (out_depth q)) z (move (out_depth q) (?q\<lparr>out_buffer := Some b\<rparr>)) m'"
        using room by (intro move_here) auto
      from writing_forget [OF this] go True
      show "emits p m T (on_ok (Some (True, move (out_depth (?q\<lparr>out_buffer := Some b\<rparr>)) (?q\<lparr>out_buffer := Some b\<rparr>), m')) f)"
        by simp
    qed (use w' room in auto)
  qed (use fit True in auto)
next
  case False
  then show ?thesis using go [of q m1] w by (simp add: tabs_def)
qed

lemma call_string:
  assumes str: "\<And>k. s = Some k \<Longrightarrow> c_string k" and w: "writing p m x [] q m1"
    and fit: "\<And>w. T = Some w \<Longrightarrow> length x + length (render_string s) \<le> length w"
    and go: "\<And>q' m'. writing p m (x @ render_string s) [] q' m' \<Longrightarrow>
        out_depth q' = out_depth q \<Longrightarrow> format q' = format q \<Longrightarrow> emits p m T (f q' m')"
  shows "emits p m T (on_ok (print_string_ptr s q m1) (\<lambda>q m. do { q \<leftarrow> update_offset q; f q m }))"
proof (rule call_ok [OF w, where Y = "Some (render_string s)"])
  show "emits q m1 (Some (render_string s)) (print_string_ptr s q m1)"
    using str by (intro print_string_ptr_emits writing_ok_out [OF w])
  fix y q' m'
  assume "Some (render_string s) = Some y" "writing p m (x @ y) [0] q' m'" "out_depth q' = out_depth q"
  then show "emits p m T (f q' m')"
    using go writing_forget writing_format [OF w] writing_format by fastforce
qed (use fit in auto)

definition member_end :: "bool \<Rightarrow> cJSON list \<Rightarrow> bytes" where
  "member_end fmt ts = (if ts \<noteq> [] then [44] else []) @ (if fmt then [10] else [])"

lemma render_members_Cons:
  "render_members fmt d (t # ts) = do {
     x \<leftarrow> render fmt d t;
     y \<leftarrow> render_members fmt d ts;
     Some (tabs (if fmt then d else 0) @ render_string (jstring t) @ pair_of fmt 58 9 @ x @ member_end fmt ts @ y) }"
  by (auto simp: pair_of_def member_end_def intro!: Option.bind_cong)

declare render_members.simps(2) [simp del]

definition member_close :: "cJSON list \<Rightarrow> printbuffer \<Rightarrow> mem \<Rightarrow> print_result" where
  \<comment> \<open>the end of an iteration: comma and newline\<close>
  "member_close ts p m =
     (let comma = (if ts \<noteq> [] then [44] else []); nl = (if format p then [10] else []); n = length nl + length comma
      in on_ok (ensure p (n + 1) m) (\<lambda>p m. do {
           p \<leftarrow> put p 0 comma;
           p \<leftarrow> put p (length comma) nl;
           p \<leftarrow> put p n [0];
           print_members ts (move n p) m }))"

definition member_value :: "cJSON \<Rightarrow> cJSON list \<Rightarrow> printbuffer \<Rightarrow> mem \<Rightarrow> print_result" where
  \<comment> \<open>an iteration after the key: the colon and the value\<close>
  "member_value t ts p m =
     (let n = (if format p then 2 else 1)
      in on_ok (ensure p n m) (\<lambda>p m. do {
           p \<leftarrow> put p 0 [58];
           p \<leftarrow> (if format p then put p 1 [9] else Some p);
           let p = move n p;
           on_ok (print_value t p m) (\<lambda>p m. do { p \<leftarrow> update_offset p; member_close ts p m }) }))"

lemma print_members_parts:
  "print_members (t # ts) p m =
     on_ok (if format p
            then on_ok (ensure p (out_depth p) m) (\<lambda>p m. do {
                   p \<leftarrow> put p 0 (tabs (out_depth p));
                   Some (True, move (out_depth p) p, m) })
            else Some (True, p, m)) (\<lambda>p m.
     on_ok (print_string_ptr (jstring t) p m) (\<lambda>p m. do { p \<leftarrow> update_offset p; member_value t ts p m }))"
  unfolding print_members.simps(2) member_value_def member_close_def Let_def ..

lemma member_close_emits:
  assumes w: "writing p m x [] q m1"
    and fit: "\<And>w. T = Some w \<Longrightarrow> length x + length (member_end (format q) ts) \<le> length w"
    and go: "\<And>q' m'. writing p m (x @ member_end (format q) ts) [] q' m' \<Longrightarrow> out_depth q' = out_depth q \<Longrightarrow>
        format q' = format q \<Longrightarrow> emits p m T (on_ok (print_members ts q' m') f)"
  shows "emits p m T (on_ok (member_close ts q m1) f)"
  unfolding member_close_def Let_def on_ok_on_ok on_ok_bind
proof (rule ensure_ok [OF w])
  let ?comma = "if ts \<noteq> [] then [44] else [] :: bytes" and ?nl = "if format q then [10] else [] :: bytes"
  let ?n = "length ?nl + length ?comma"
  fix n' b' m'
  assume w': "writing p m x [] (q\<lparr>out_length := n', out_buffer := Some b'\<rparr>) m'"
    and room: "out_offset q + (?n + 1) + 1 \<le> n'"
  show "emits p m T (do { p \<leftarrow> put (q\<lparr>out_length := n', out_buffer := Some b'\<rparr>) 0 ?comma;
      p \<leftarrow> put p (length ?comma) ?nl; p \<leftarrow> put p ?n [0]; on_ok (print_members ts (move ?n p) m') f })"
  proof (rule put_move [OF w' member_end_def])
    show "?n = length (member_end (format q) ts)" by (simp add: member_end_def)
    show "c_string (member_end (format q) ts)" by (simp add: member_end_def)
  qed (use room go in auto)
qed (use fit in \<open>auto simp: member_end_def\<close>)

lemma member_value_emits:
  assumes t: "prints t" and w: "writing p m x [] q m1"
    and fit: "\<And>w. T = Some w \<Longrightarrow> \<exists>v. render (format q) (out_depth q) t = Some v \<and>
        length x + length (pair_of (format q) 58 9) + length v + length (member_end (format q) ts) \<le> length w"
    and go: "\<And>v q' m'. render (format q) (out_depth q) t = Some v \<Longrightarrow>
        writing p m (x @ pair_of (format q) 58 9 @ v @ member_end (format q) ts) [] q' m' \<Longrightarrow>
        out_depth q' = out_depth q \<Longrightarrow> format q' = format q \<Longrightarrow> emits p m T (on_ok (print_members ts q' m') f)"
  shows "emits p m T (on_ok (member_value t ts q m1) f)"
  unfolding member_value_def Let_def on_ok_on_ok on_ok_bind
proof (rule ensure_ok [OF w])
  let ?n = "if format q then 2 else 1 :: nat"
  fix n' b' m'
  let ?q = "q\<lparr>out_length := n', out_buffer := Some b'\<rparr>"
  assume w': "writing p m x [] ?q m'" and room: "out_offset q + ?n + 1 \<le> n'"
  show "emits p m T (do { p \<leftarrow> put ?q 0 [58]; p \<leftarrow> (if format p then put p 1 [9] else Some p);
      on_ok (print_value t (move ?n p) m') (\<lambda>p m. do { p \<leftarrow> update_offset p; on_ok (member_close ts p m) f }) })"
  proof (rule put_pair_move [OF w'])
    fix b z assume w2: "writing p m (x @ pair_of (format ?q) 58 9) [] (move ?n (?q\<lparr>out_buffer := Some b\<rparr>)) m'"
    show "emits p m T (on_ok (print_value t (move ?n (?q\<lparr>out_buffer := Some b\<rparr>)) m')
        (\<lambda>p m. do { p \<leftarrow> update_offset p; on_ok (member_close ts p m) f }))"
    proof (rule call_value [OF t w2])
      fix v q' m2
      assume v: "render (format (move ?n (?q\<lparr>out_buffer := Some b\<rparr>))) (out_depth (move ?n (?q\<lparr>out_buffer := Some b\<rparr>))) t = Some v"
        and w3: "writing p m ((x @ pair_of (format ?q) 58 9) @ v) [] q' m2"
        and d: "out_depth q' = out_depth (move ?n (?q\<lparr>out_buffer := Some b\<rparr>))"
          "format q' = format (move ?n (?q\<lparr>out_buffer := Some b\<rparr>))"
      show "emits p m T (on_ok (member_close ts q' m2) f)"
        by (rule member_close_emits [OF w3]) (use fit go v d in \<open>fastforce+\<close>)
    qed (use fit in fastforce)
  qed (use room in auto)
qed (use fit in \<open>fastforce simp: length_pair_of\<close>)+

lemma print_members_emits:
  assumes "\<forall>t \<in> set ts. prints t \<and> (\<forall>k. jstring t = Some k \<longrightarrow> c_string k)" and "writing p m x [] q m1"
    and "0 < out_depth q"
    and "\<And>w. T = Some w \<Longrightarrow> \<exists>y. render_members (format q) (out_depth q) ts = Some y \<and> length x + length y \<le> length w"
    and "\<And>y q' m'. render_members (format q) (out_depth q) ts = Some y \<Longrightarrow> writing p m (x @ y) [] q' m' \<Longrightarrow>
        out_depth q' = out_depth q \<Longrightarrow> format q' = format q \<Longrightarrow> emits p m T (f q' m')"
  shows "emits p m T (on_ok (print_members ts q m1) f)"
  using assms
proof (induction ts arbitrary: x q m1)
  case Nil
  then show ?case by simp
next
  case (Cons t ts)
  define F d where "F = format q" and "d = out_depth q"
  define ind key where "ind = tabs (if F then d else 0)" and "key = render_string (jstring t)"
  have fit: "\<exists>v y. render F d t = Some v \<and> render_members F d ts = Some y \<and>
      length x + length ind + length key + length (pair_of F 58 9) + length v + length (member_end F ts) + length y \<le> length w"
    if T: "T = Some w" for w
    using Cons.prems(4) [OF T] by (auto simp: render_members_Cons F_def d_def ind_def key_def split: Option.bind_splits)
  have ind: "tabs (if format q then out_depth q else 0) = ind" by (simp only: ind_def F_def d_def)
  show ?case
    unfolding print_members_parts on_ok_on_ok on_ok_bind
  proof (rule indent_emits [OF Cons.prems(2,3), unfolded ind])
    fix w assume "T = Some w"
    then show "length x + length ind \<le> length w + 1" using fit by fastforce
  next
    fix q1 m2
    assume w1: "writing p m (x @ ind) [] q1 m2"
      and d1: "out_depth q1 = out_depth q" "format q1 = format q"
    show "emits p m T (on_ok (print_string_ptr (jstring t) q1 m2) (\<lambda>p m. do {
        p \<leftarrow> update_offset p; on_ok (member_value t ts p m) f }))"
    proof (rule call_string [OF _ w1, where s = "jstring t", folded key_def])
      show "\<And>k. jstring t = Some k \<Longrightarrow> c_string k" using Cons.prems(1) by simp
      fix w assume "T = Some w"
      then show "length (x @ ind) + length key \<le> length w" using fit by fastforce
    next
      fix q2 m3
      assume w2: "writing p m ((x @ ind) @ key) [] q2 m3"
        and d2: "out_depth q2 = out_depth q1" "format q2 = format q1"
      have Fd: "format q2 = F" "out_depth q2 = d" using d1 d2 by (simp_all add: F_def d_def)
      show "emits p m T (on_ok (member_value t ts q2 m3) f)"
      proof (rule member_value_emits [OF _ w2, unfolded Fd])
        show "prints t" using Cons.prems(1) by simp
        fix w assume "T = Some w"
        then show "\<exists>v. render F d t = Some v \<and>
            length ((x @ ind) @ key) + length (pair_of F 58 9) + length v + length (member_end F ts) \<le> length w"
          using fit by fastforce
      next
        fix v q3 m4
        assume v: "render F d t = Some v"
          and w3: "writing p m (((x @ ind) @ key) @ pair_of F 58 9 @ v @ member_end F ts) [] q3 m4"
          and d3: "out_depth q3 = d" "format q3 = F"
        show "emits p m T (on_ok (print_members ts q3 m4) f)"
        proof (rule Cons.IH [OF _ w3, unfolded d3])
          show "\<forall>t \<in> set ts. prints t \<and> (\<forall>k. jstring t = Some k \<longrightarrow> c_string k)" using Cons.prems(1) by simp
          show "0 < d" using Cons.prems(3) by (simp add: d_def)
          fix w assume "T = Some w"
          then show "\<exists>y. render_members F d ts = Some y \<and>
              length (((x @ ind) @ key) @ pair_of F 58 9 @ v @ member_end F ts) + length y \<le> length w"
            using fit v by fastforce
        next
          fix y q4 m5
          assume y: "render_members F d ts = Some y"
            and w4: "writing p m ((((x @ ind) @ key) @ pair_of F 58 9 @ v @ member_end F ts) @ y) [] q4 m5"
            and d4: "out_depth q4 = d" "format q4 = F"
          have "render_members F d (t # ts) = Some (ind @ key @ pair_of F 58 9 @ v @ member_end F ts @ y)"
            using v y by (simp add: render_members_Cons ind_def key_def)
          then show "emits p m T (f q4 m5)"
            using Cons.prems(5) [of "ind @ key @ pair_of F 58 9 @ v @ member_end F ts @ y" q4 m5] w4 d4
            by (simp add: F_def d_def)
        qed
      qed
    qed
  qed
qed

definition object_close :: "bool \<Rightarrow> nat \<Rightarrow> bytes" where
  "object_close fmt d = tabs (if fmt then d else 0) @ [125]"

lemma object_close_emits:
  assumes w: "writing p m x [] q m1" and T: "T = Some (x @ object_close (format q) (out_depth p))"
    and d: "out_depth q = out_depth p + 1"
  shows "emits p m T (on_ok (ensure q (if format q then out_depth q + 1 else 2) m1) (\<lambda>p m. do {
          let k = (if format p then out_depth p - 1 else 0);
          p \<leftarrow> put p 0 (tabs k);
          p \<leftarrow> put p k [125];
          p \<leftarrow> put p (k + 1) [0];
          Some (True, p\<lparr>out_depth := out_depth p - 1\<rparr>, m) }))"
proof (rule ensure_ok [OF w])
  let ?k = "if format q then out_depth q - 1 else 0"
  have close: "object_close (format q) (out_depth p) = tabs ?k @ [125]" using d by (simp add: object_close_def)
  fix n' b' m'
  let ?q = "q\<lparr>out_length := n', out_buffer := Some b'\<rparr>"
  assume w': "writing p m x [] ?q m'" and room: "out_offset q + (if format q then out_depth q + 1 else 2) + 1 \<le> n'"
  have room': "out_offset q + ?k + 3 \<le> n'" using room d by (auto split: if_splits)
  show "emits p m T (let k = (if format ?q then out_depth ?q - 1 else 0) in do {
      p \<leftarrow> put ?q 0 (tabs k); p \<leftarrow> put p k [125]; p \<leftarrow> put p (k + 1) [0];
      Some (True, p\<lparr>out_depth := out_depth p - 1\<rparr>, m') })"
    unfolding Let_def
  proof (rule put_step [where y = "[]" and y' = "[]"])
    let ?k' = "if format ?q then out_depth ?q - 1 else 0"
    fix b z assume w1: "writing p m x (([] @ tabs ?k') @ z) (?q\<lparr>out_buffer := Some b\<rparr>) m'"
    show "emits p m T (do { p \<leftarrow> put (?q\<lparr>out_buffer := Some b\<rparr>) ?k' [125]; p \<leftarrow> put p (?k' + 1) [0];
        Some (True, p\<lparr>out_depth := out_depth p - 1\<rparr>, m') })"
    proof (rule put_step [OF w1])
      fix b2 z2 assume w2: "writing p m x ((([] @ tabs ?k') @ [125]) @ z2) (?q\<lparr>out_buffer := Some b, out_buffer := Some b2\<rparr>) m'"
      show "emits p m T (do { p \<leftarrow> put (?q\<lparr>out_buffer := Some b, out_buffer := Some b2\<rparr>) (?k' + 1) [0];
          Some (True, p\<lparr>out_depth := out_depth p - 1\<rparr>, m') })"
      proof (rule put_step [OF w2])
        fix b3 z3
        assume "writing p m x (((([] @ tabs ?k') @ [125]) @ [0]) @ z3)
            (?q\<lparr>out_buffer := Some b, out_buffer := Some b2, out_buffer := Some b3\<rparr>) m'"
        then show "emits p m T (Some (True, (?q\<lparr>out_buffer := Some b, out_buffer := Some b2, out_buffer := Some b3\<rparr>)
            \<lparr>out_depth := out_depth (?q\<lparr>out_buffer := Some b, out_buffer := Some b2, out_buffer := Some b3\<rparr>) - 1\<rparr>, m'))"
          using T d close by (intro done_step [where x = x and y = "tabs ?k' @ [125]" and z = z3]) auto
      qed (use room' in auto)
    qed (use room' in auto)
  qed (use w' room' in auto)
qed (use T d in \<open>auto simp: object_close_def\<close>)

lemma print_object_emits:
  assumes ch: "\<forall>t \<in> set child. prints t \<and> (\<forall>k. jstring t = Some k \<longrightarrow> c_string k)" and ok: "ok_out p"
  shows "emits p m (map_option (\<lambda>x. [123] @ (if format p then [10] else []) @ x @ tabs (if format p then out_depth p else 0) @ [125])
      (render_members (format p) (out_depth p + 1) child)) (print_object child p m)"
    (is "emits p m ?T _")
  unfolding print_object.simps Let_def
proof (rule ensure_ok [OF writing_start [OF ok]])
  let ?n = "if format p then 2 else 1 :: nat"
  fix n' b' m1
  let ?q = "p\<lparr>out_length := n', out_buffer := Some b'\<rparr>"
  assume w: "writing p m [] [] ?q m1" and room: "out_offset p + (?n + 1) + 1 \<le> n'"
  let ?k = "\<lambda>p m. on_ok (ensure p (if format p then out_depth p + 1 else 2) m) (\<lambda>p m. do {
      q \<leftarrow> put p 0 (tabs (if format p then out_depth p - 1 else 0));
      q \<leftarrow> put q (if format p then out_depth p - 1 else 0) [125];
      q \<leftarrow> put q ((if format p then out_depth p - 1 else 0) + 1) [0];
      Some (True, q\<lparr>out_depth := out_depth q - 1\<rparr>, m) })"
  show "emits p m ?T (do { q \<leftarrow> put ?q 0 [123]; q \<leftarrow> (if format q then put q 1 [10] else Some q);
      on_ok (print_members child ((move ?n q)\<lparr>out_depth := out_depth q + 1\<rparr>) m1) ?k })"
  proof (rule put_pair [OF w])
    fix b z assume w1: "writing p m [] (pair_of (format ?q) 123 10 @ z) (?q\<lparr>out_buffer := Some b\<rparr>) m1"
    let ?r = "(move ?n (?q\<lparr>out_buffer := Some b\<rparr>))\<lparr>out_depth := out_depth (?q\<lparr>out_buffer := Some b\<rparr>) + 1\<rparr>"
    define br where "br = pair_of (format p) 123 10"
    have "writing p m ([] @ br) z (move ?n (?q\<lparr>out_buffer := Some b\<rparr>)) m1"
      using w1 room by (intro move_here) (auto simp: br_def pair_of_def)
    then have w2: "writing p m br [] ?r m1" using writing_forget by fastforce
    have r: "format ?r = format p" "out_depth ?r = out_depth p + 1" by simp_all
    have tx: "?T = map_option (\<lambda>x. br @ x @ object_close (format p) (out_depth p))
        (render_members (format p) (out_depth p + 1) child)"
      by (simp add: br_def pair_of_def object_close_def cong: map_option_cong)
    show "emits p m ?T (on_ok (print_members child ?r m1) ?k)"
    proof (rule print_members_emits [OF ch w2, unfolded r])
      show "0 < out_depth p + 1" by simp
      fix w assume "?T = Some w"
      then show "\<exists>y. render_members (format p) (out_depth p + 1) child = Some y \<and> length br + length y \<le> length w"
        unfolding tx by auto
    next
      fix y q' m'
      assume y: "render_members (format p) (out_depth p + 1) child = Some y"
        and w3: "writing p m (br @ y) [] q' m'" and d: "out_depth q' = out_depth p + 1" "format q' = format p"
      have "?T = Some ((br @ y) @ object_close (format q') (out_depth p))"
        using y d by (cases "format p") (simp_all add: br_def pair_of_def object_close_def)
      from object_close_emits [OF w3 this d(1)]
      show "emits p m ?T (?k q' m')" unfolding Let_def .
    qed
  qed (use room in auto)
qed auto

subsection \<open>Values\<close>

lemma emits_if:
  "(c \<Longrightarrow> emits p m A r) \<Longrightarrow> (\<not> c \<Longrightarrow> emits p m B s) \<Longrightarrow> emits p m (if c then A else B) (if c then r else s)"
  by simp

lemma print_value_prints: "printable t \<Longrightarrow> prints t"
proof (induction t)
  case (CJ ty vs vi vd s child)
  have str: "\<And>x. vs = Some x \<Longrightarrow> c_string x" and vd: "wf_double vd" using CJ.prems by auto
  have "\<forall>t \<in> set child. printable t" using CJ.prems by (simp add: list_all_iff)
  then have ch: "\<forall>t \<in> set child. prints t" using CJ.IH by blast
  have key: "\<forall>k. jstring t = Some k \<longrightarrow> c_string k" if "printable t" for t using that by (cases t) auto
  have mem: "\<forall>t \<in> set child. prints t \<and> (\<forall>k. jstring t = Some k \<longrightarrow> c_string k)"
    using ch key \<open>\<forall>t \<in> set child. printable t\<close> by blast
  have lit: "c_string (cstr ''null'')" "c_string (cstr ''false'')" "c_string (cstr ''true'')"
    by (simp_all add: byte_of_def)
  show ?case unfolding prints_def
  proof (intro allI impI)
    fix p m assume ok: "ok_out p"
    note num = print_number_emits [OF ok, of "CJ ty vs vi vd s child" m, simplified, OF vd]
    have raw: "emits p m vs (case vs of None \<Rightarrow> Some (False, p, m) | Some raw \<Rightarrow> print_literal raw p m)"
      using print_literal_emits [OF ok] str emits_refuse by (cases vs) auto
    have st: "emits p m (Some (render_string vs)) (print_string (CJ ty vs vi vd s child) p m)"
      using print_string_ptr_emits [OF ok str] by (simp add: print_string_def)
    show "emits p m (render (format p) (out_depth p) (CJ ty vs vi vd s child))
        (print_value (CJ ty vs vi vd s child) p m)"
      unfolding print_value.simps render.simps Let_def
      by (intro emits_if; rule print_literal_emits [OF ok lit(1)] print_literal_emits [OF ok lit(2)]
          print_literal_emits [OF ok lit(3)] num raw st print_array_emits [OF ch ok]
          print_object_emits [OF mem ok] emits_refuse)
  qed
qed

end
