(* ===== verification/JsonPrintSafe.thy ===== *)
theory JsonPrintSafe
  imports JsonRender
begin

text \<open>
  The printing entry points.  \<open>emitter\<close> is the interface the print routines offer to their
  callers (stay inside the buffer, keep the books, leave the text at the cursor); what a caller
  may conclude from it for a fresh buffer is proved once, and the routines of \<open>JSON/cJSON.c\<close>
  are its instances.
\<close>

subsection \<open>The interface\<close>

definition started :: "bytes \<Rightarrow> nat \<Rightarrow> bool \<Rightarrow> bool \<Rightarrow> bool \<Rightarrow> printbuffer" where
  \<comment> \<open>a cursor at the start of a buffer\<close>
  "started b n na fmt re = \<lparr>out_buffer = Some b, out_length = n, out_offset = 0, out_depth = 0,
     noalloc = na, format = fmt, has_realloc = re\<rparr>"

locale emitter =
  fixes fine :: "'a \<Rightarrow> bool"
    and emit :: "'a \<Rightarrow> printbuffer \<Rightarrow> mem \<Rightarrow> print_result"
    and the_text :: "'a \<Rightarrow> bool \<Rightarrow> nat \<Rightarrow> bytes option"
  assumes contract: "fine a \<Longrightarrow> ok_out p \<Longrightarrow> emits p m (the_text a (format p) (out_depth p)) (emit a p m)"
begin

lemma started_emits:
  assumes "fine a" and "n \<le> length b" and "n \<le> INT_LIMIT" and "0 < n \<or> re \<or> na"
  shows "emits (started b n na fmt re) m (the_text a fmt 0) (emit a (started b n na fmt re) m)"
proof -
  have "ok_out (started b n na fmt re)"
    using assms(2-4) by (auto simp: ok_out_def ok_cursor_def started_def)
  from contract [OF assms(1) this, of m] show ?thesis by (simp add: started_def)
qed

lemma started_cases:
  assumes "fine a" and "n \<le> length b" and "n \<le> INT_LIMIT" and "0 < n \<or> re \<or> na"
  obtains (printed) t rest q m' where "emit a (started b n na fmt re) m = Some (True, q, m')"
      "the_text a fmt 0 = Some t" "c_string t" "out_buffer q = Some (t @ 0 # rest)"
      "length t < out_length q" "out_length q \<le> length (t @ 0 # rest)"
      "update_offset q = Some (q\<lparr>out_offset := length t\<rparr>)" "live m' = live m" "alloc_ok m' = alloc_ok m"
      "na \<longrightarrow> out_length q = n"
  | (refused) q m' where "emit a (started b n na fmt re) m = Some (False, q, m')" "alloc_ok m' = alloc_ok m"
      "live m' = live m - 1 + owned q"
      "\<And>t. the_text a fmt 0 = Some t \<Longrightarrow> (na \<or> (\<forall>k. alloc_ok m k)) \<Longrightarrow> (if na then n else INT_LIMIT) < length t + 2"
proof -
  let ?p = "started b n na fmt re"
  obtain ok q m' where r: "emit a ?p m = Some (ok, q, m')" "alloc_ok m' = alloc_ok m"
      "live m' - owned q = live m - owned ?p"
    and post: "if ok then \<exists>t. the_text a fmt 0 = Some t \<and> emitted ?p t q
      else \<forall>t. the_text a fmt 0 = Some t \<longrightarrow> \<not> fits ?p m (length t)"
    using started_emits [OF assms, of fmt m] by (auto simp: emits_def)
  have own: "owned ?p = 1" by (simp add: owned_def started_def)
  show thesis
  proof (cases ok)
    case True
    with post obtain t where t: "the_text a fmt 0 = Some t" and e: "emitted ?p t q" by auto
    from e obtain rest where "out_buffer q = Some (t @ 0 # rest)" "out_length q \<le> length (t @ 0 # rest)"
      by (auto simp: emitted_def started_def)
    moreover have "owned q = 1" using e by (auto simp: emitted_def owned_def)
    moreover have "length t < out_length q" "c_string t" "na \<longrightarrow> out_length q = n"
      using e by (auto simp: emitted_def started_def same_mode_def)
    moreover have "update_offset q = Some (q\<lparr>out_offset := length t\<rparr>)"
      using update_offset_emitted [OF e] by (simp add: started_def)
    ultimately show thesis using r own t True printed by simp
  next
    case False
    have "(if na then n else INT_LIMIT) < length t + 2"
      if "the_text a fmt 0 = Some t" "na \<or> (\<forall>k. alloc_ok m k)" for t
      using post False that by (auto simp: fits_def capacity_def started_def split: if_splits)
    then show thesis using refused r own False by simp
  qed
qed

end

subsection \<open>The routines are emitters\<close>

interpretation value_emitter: emitter printable print_value "\<lambda>t fmt d. render fmt d t"
  by unfold_locales (use print_value_prints in \<open>auto simp: prints_def\<close>)

interpretation string_emitter: emitter "\<lambda>s. \<forall>x. s = Some x \<longrightarrow> c_string x" print_string_ptr
  "\<lambda>s fmt d. Some (render_string s)"
  by unfold_locales (auto intro: print_string_ptr_emits)

interpretation number_emitter: emitter "\<lambda>item. wf_double (jvaluedouble item)" print_number
  "\<lambda>item fmt d. Some (number_text_of (jvaluedouble item))"
  by unfold_locales (rule print_number_emits)

interpretation array_emitter: emitter "list_all printable" print_array
  "\<lambda>c fmt d. map_option (\<lambda>x. [91] @ x @ [93]) (render_elements fmt (d + 1) c)"
  by unfold_locales (rule print_array_emits, auto simp: list_all_iff intro: print_value_prints)

lemma printable_key: "printable t \<Longrightarrow> jstring t = Some k \<Longrightarrow> c_string k"
  by (cases t) auto

interpretation object_emitter: emitter "list_all printable" print_object
  "\<lambda>c fmt d. map_option (\<lambda>x. [123] @ (if fmt then [10] else []) @ x @ tabs (if fmt then d else 0) @ [125])
     (render_members fmt (d + 1) c)"
  by unfold_locales (rule print_object_emits, auto simp: list_all_iff intro: print_value_prints printable_key)

subsection \<open>Entry points\<close>

lemma print_outcome:
  assumes "printable t"
  shows "\<exists>r m'. print t fmt re m = Some (r, m') \<and> alloc_ok m' = alloc_ok m \<and>
    (case r of
       Some b \<Rightarrow> live m' = live m + 1 \<and> (\<exists>x. render fmt 0 t = Some x \<and> c_string x \<and> b = x @ [0])
     | None \<Rightarrow> live m' = live m \<and>
         (\<forall>x. render fmt 0 t = Some x \<longrightarrow> (\<forall>k. alloc_ok m k) \<longrightarrow> INT_LIMIT < length x + 2))"
proof (cases "alloc_ok m (calls m)")
  case False
  then show ?thesis by (auto simp: print_def c_allocate_def)
next
  case True
  define m1 where "m1 = m\<lparr>calls := Suc (calls m), live := live m + 1\<rparr>"
  have al: "c_allocate m = (True, m1)" using True by (simp add: c_allocate_def m1_def)
  have m1: "live m1 = live m + 1" "alloc_ok m1 = alloc_ok m" by (simp_all add: m1_def)
  have n: "256 \<le> length (fresh_bytes m1 256)" "256 \<le> INT_LIMIT" "0 < (256::nat) \<or> re \<or> False"
    by (simp_all add: INT_LIMIT_def)
  note compute = print_def al Let_def started_def [symmetric]
  show ?thesis
  proof (cases rule: value_emitter.started_cases [OF assms n, where fmt = fmt and m = m1,
      case_names printed refused])
    case (refused q m')
    then have "print t fmt re m = Some (None, free_buffer q m')" by (simp add: compute)
    then show ?thesis using refused m1
      by (auto simp: free_buffer_def owned_def c_deallocate_def)
  next
    case (printed x rest q m')
    let ?b = "x @ 0 # rest"
    show ?thesis
    proof (cases "alloc_ok m' (calls m')")
      case False
      then have "c_allocate m' = (False, m'\<lparr>calls := Suc (calls m')\<rparr>)" by (simp add: c_allocate_def)
      then have "print t fmt re m = Some (None, c_deallocate (m'\<lparr>calls := Suc (calls m')\<rparr>))"
        using printed False by (simp add: compute c_reallocate_def free_buffer_def)
      then show ?thesis using False printed m1 by (auto simp: c_deallocate_def)
    next
      case True
      have "print t fmt re m = Some (Some (x @ [0]), m'\<lparr>calls := Suc (calls m')\<rparr>)"
      proof (cases re)
        case True
        then show ?thesis using printed \<open>alloc_ok m' (calls m')\<close>
          by (simp add: compute c_reallocate_def)
      next
        case False
        have "c_allocate m' = (True, m'\<lparr>calls := Suc (calls m'), live := live m' + 1\<rparr>)"
          using \<open>alloc_ok m' (calls m')\<close> by (simp add: c_allocate_def)
        moreover have "min (out_length q) (length x + 1) = length x + 1" using printed(5) by simp
        ultimately show ?thesis using printed False
          by (simp add: compute read_range_def write_at_def c_deallocate_def)
      qed
      then show ?thesis using printed m1 by auto
    qed
  qed
qed

lemma PrintBuffered_outcome:
  assumes "printable t" and "0 \<le> n" and "n \<le> INT_MAX" and "re \<or> 0 < n"
  shows "\<exists>r m'. cJSON_PrintBuffered t n fmt re m = Some (r, m') \<and> alloc_ok m' = alloc_ok m \<and>
    (case r of
       Some b \<Rightarrow> live m' = live m + 1 \<and> (\<exists>x rest. render fmt 0 t = Some x \<and> c_string x \<and> b = x @ 0 # rest)
     | None \<Rightarrow> live m' = live m \<and>
         (\<forall>x. render fmt 0 t = Some x \<longrightarrow> (\<forall>k. alloc_ok m k) \<longrightarrow> INT_LIMIT < length x + 2))"
proof (cases "alloc_ok m (calls m)")
  case False
  then show ?thesis using assms(2) by (auto simp: cJSON_PrintBuffered_def c_allocate_def)
next
  case True
  define m1 where "m1 = m\<lparr>calls := Suc (calls m), live := live m + 1\<rparr>"
  have al: "c_allocate m = (True, m1)" using True by (simp add: c_allocate_def m1_def)
  have m1: "live m1 = live m + 1" "alloc_ok m1 = alloc_ok m" by (simp_all add: m1_def)
  have k: "nat n \<le> length (fresh_bytes m1 (nat n))" "nat n \<le> INT_LIMIT" "0 < nat n \<or> re \<or> False"
    using assms(3,4) by (auto simp: INT_LIMIT_def INT_MAX_def)
  note compute = cJSON_PrintBuffered_def al Let_def started_def [symmetric]
  show ?thesis
  proof (cases rule: value_emitter.started_cases [OF assms(1) k, where fmt = fmt and m = m1,
      case_names printed refused])
    case (refused q m')
    then have "cJSON_PrintBuffered t n fmt re m = Some (None, free_buffer q m')" using assms(2) by (simp add: compute)
    then show ?thesis using refused m1 by (auto simp: free_buffer_def owned_def c_deallocate_def)
  next
    case (printed x rest q m')
    then have "cJSON_PrintBuffered t n fmt re m = Some (Some (x @ 0 # rest), m')"
      using assms(2) by (simp add: compute)
    then show ?thesis using printed m1 by auto
  qed
qed

subsection \<open>Parsed items\<close>

lemma valid_printable: "valid t \<Longrightarrow> printable t"
proof (induction t)
  case (CJ ty vs vi vd s c)
  then show ?case by (auto simp: list_all_iff split: if_splits option.splits)
qed

lemma renders_list:
  assumes "\<forall>t \<in> set ts. \<exists>x. render fmt d t = Some x"
  shows "(\<exists>x. render_elements fmt d ts = Some x) \<and> (\<exists>x. render_members fmt d ts = Some x)"
  using assms by (induction ts) (auto simp: render_members.simps)

lemma valid_renders: "valid t \<Longrightarrow> \<exists>x. render fmt d t = Some x"
proof (induction t arbitrary: d)
  case (CJ ty vs vi vd s c)
  have "\<exists>x. render_elements fmt k c = Some x" "\<exists>x. render_members fmt k c = Some x"
    if "\<forall>t \<in> set c. valid t" for k
    using renders_list [of c fmt k] CJ.IH that by blast+
  then show ?case using CJ.prems by (fastforce simp: cJSON_types list_all_iff split: if_splits)
qed

subsection \<open>Properties\<close>

text \<open>
  C5: \<open>print\<close> (behind \<open>cJSON_Print\<close> and \<open>cJSON_PrintUnformatted\<close>) is memory safe on every item
  with proper strings and numbers, with and without \<open>realloc\<close> and under every pattern of allocation
  failures: it never stores or reads outside a buffer, and returns either exactly the text of the item
  with its NUL in a block of that size, one block more in use, or \<open>NULL\<close> with nothing leaked.
  \<open>NULL\<close> comes only from a failed allocation, a text of almost 2 GB or an item without a text.
\<close>

theorem print_correct:
  assumes "printable t"
  shows "\<exists>r m'. print t fmt realloc m = Some (r, m') \<and>
    (case r of
       Some b \<Rightarrow> live m' = live m + 1 \<and> (\<exists>x. render fmt 0 t = Some x \<and> c_string x \<and> b = x @ [0])
     | None \<Rightarrow> live m' = live m \<and>
         (\<forall>x. render fmt 0 t = Some x \<longrightarrow> (\<forall>k. alloc_ok m k) \<longrightarrow> INT_LIMIT < length x + 2))"
  using print_outcome [OF assms, of fmt realloc m] by auto

definition sample :: cJSON where
  \<comment> \<open>\<open>{"a":[true]}\<close>\<close>
  "sample = CJ cJSON_Object None 0 d_zero None
     [CJ cJSON_Array None 0 d_zero (Some [97]) [CJ cJSON_True None 1 d_zero None []]]"

lemma sample_printable: "printable sample"
  by (simp add: sample_def d_zero_def)

lemma sample_prints: "\<exists>b m1. print sample fmt False roomy = Some (Some b, m1)"
proof -
  obtain x where "render fmt 0 sample = Some x" "length x < 20"
    by (cases fmt) (auto simp: sample_def cJSON_types render_members.simps render_string_def tabs_def escape_byte_def)
  then show ?thesis using print_outcome [OF sample_printable, of fmt False roomy]
    by (auto simp: roomy_def INT_LIMIT_def split: option.splits)
qed

theorem print_correct_witness:
  "\<exists>r m'. print sample True False roomy = Some (r, m') \<and>
    (case r of
       Some b \<Rightarrow> live m' = live roomy + 1 \<and> (\<exists>x. render True 0 sample = Some x \<and> c_string x \<and> b = x @ [0])
     | None \<Rightarrow> live m' = live roomy \<and>
         (\<forall>x. render True 0 sample = Some x \<longrightarrow> (\<forall>k. alloc_ok roomy k) \<longrightarrow> INT_LIMIT < length x + 2))"
  by (rule print_correct [OF sample_printable])

text \<open>
  \<open>cJSON_PrintBuffered\<close> keeps the same promises for every size of the first buffer, except that
  without \<open>realloc\<close> the size must not be 0; the text stands at the start of the block it returns.
\<close>

lemma cJSON_PrintBuffered_correct:
  assumes "printable t" and "0 \<le> n" and "n \<le> INT_MAX" and "realloc \<or> 0 < n"
  shows "\<exists>r m'. cJSON_PrintBuffered t n fmt realloc m = Some (r, m') \<and>
    (case r of
       Some b \<Rightarrow> live m' = live m + 1 \<and> (\<exists>x rest. render fmt 0 t = Some x \<and> c_string x \<and> b = x @ 0 # rest)
     | None \<Rightarrow> live m' = live m \<and>
         (\<forall>x. render fmt 0 t = Some x \<longrightarrow> (\<forall>k. alloc_ok m k) \<longrightarrow> INT_LIMIT < length x + 2))"
  using PrintBuffered_outcome [OF assms, of fmt m] by auto

lemma cJSON_PrintBuffered_correct_witness:
  "\<exists>r m'. cJSON_PrintBuffered sample 1 False False roomy = Some (r, m') \<and>
    (case r of
       Some b \<Rightarrow> live m' = live roomy + 1 \<and> (\<exists>x rest. render False 0 sample = Some x \<and> c_string x \<and> b = x @ 0 # rest)
     | None \<Rightarrow> live m' = live roomy \<and>
         (\<forall>x. render False 0 sample = Some x \<longrightarrow> (\<forall>k. alloc_ok roomy k) \<longrightarrow> INT_LIMIT < length x + 2))"
  by (rule cJSON_PrintBuffered_correct [OF sample_printable]) (simp_all add: INT_MAX_def)

text \<open>
  The exception is real: with custom hooks and a first buffer of 0 bytes, \<open>ensure\<close> copies
  \<open>offset + 1\<close> = 1 byte out of the empty block when it grows it (line 460), so
  \<open>cJSON_PrintBuffered (item, 0, fmt)\<close> reads outside its buffer for every literal, array and object.
\<close>

lemma cJSON_PrintBuffered_empty_overread:
  assumes "tag t \<in> {cJSON_NULL, cJSON_False, cJSON_True, cJSON_Array, cJSON_Object}"
    and "alloc_ok m (calls m)" and "alloc_ok m (Suc (calls m))"
  shows "cJSON_PrintBuffered t 0 fmt False m = None"
proof -
  define m1 where "m1 = m\<lparr>calls := Suc (calls m), live := live m + 1\<rparr>"
  have al: "c_allocate m = (True, m1)" using assms(2) by (simp add: c_allocate_def m1_def)
  let ?p = "started (fresh_bytes m1 0) 0 False fmt False"
  have e: "ensure ?p n m1 = None" if "0 < n" "n \<le> 6" for n
    using that assms(3)
    by (simp add: ensure_def started_def INT_LIMIT_def Let_def c_allocate_def m1_def read_range_def)
  obtain ty vs vi vd s c where t: "t = CJ ty vs vi vd s c" by (cases t)
  have "print_value t ?p m1 = None"
    using assms(1)
    by (auto simp: e t tag_def print_literal_def print_array.simps print_object.simps cJSON_types)
  then show ?thesis by (simp add: cJSON_PrintBuffered_def al started_def)
qed

theorem cJSON_PrintBuffered_empty_overread_witness:
  "cJSON_PrintBuffered sample 0 True False roomy = None"
  by (rule cJSON_PrintBuffered_empty_overread) (simp_all add: sample_def tag_def cJSON_types roomy_def)



text \<open>
  C7: what the parser accepts is well typed for the printer.  Printing an item that was parsed from
  any text never meets a type it does not know, an absent string or a half-built child: it gives the
  text of the item unless an allocation fails or the text has almost 2 GB; and after the item and
  the text are freed, exactly the blocks that were live before parsing are live.
\<close>

theorem accepted_text_prints:
  assumes "0 \<in> set v" and "cJSON_ParseWithOpts (Some v) req m = Some (Some t, end, e, m1)"
  shows "\<exists>x r m2. render fmt 0 t = Some x \<and> print t fmt realloc m1 = Some (r, m2) \<and>
    (case r of
       Some b \<Rightarrow> b = x @ [0] \<and> live (c_deallocate (cJSON_Delete t m2)) = live m
     | None \<Rightarrow> ((\<exists>k. \<not> alloc_ok m k) \<or> INT_LIMIT < length x + 2) \<and> live (cJSON_Delete t m2) = live m)"
proof -
  have p: "valid t" "live m1 = live m + blocks t" "alloc_ok m1 = alloc_ok m"
    using ParseWithOpts_outcome [OF assms(1), of req m] assms(2) by (auto simp: parse_outcome_def)
  obtain x where x: "render fmt 0 t = Some x" using valid_renders [OF p(1)] by blast
  obtain r m2 where r: "print t fmt realloc m1 = Some (r, m2)" and
      o: "case r of
       Some b \<Rightarrow> live m2 = live m1 + 1 \<and> (\<exists>x. render fmt 0 t = Some x \<and> c_string x \<and> b = x @ [0])
     | None \<Rightarrow> live m2 = live m1 \<and>
         (\<forall>x. render fmt 0 t = Some x \<longrightarrow> (\<forall>k. alloc_ok m1 k) \<longrightarrow> INT_LIMIT < length x + 2)"
    using print_outcome [OF valid_printable [OF p(1)], of fmt realloc m1] by blast
  show ?thesis using x r o p
    by (intro exI [of _ x] exI [of _ r] exI [of _ m2]) (auto simp: delete_frees c_deallocate_def split: option.splits)
qed
theorem accepted_text_prints_witness:
  "\<exists>t end e m1 x r m2. cJSON_ParseWithOpts (Some (cstr ''null'' @ [0])) True roomy = Some (Some t, end, e, m1)
    \<and> render True 0 t = Some x \<and> print t True False m1 = Some (r, m2) \<and>
    (case r of
       Some b \<Rightarrow> b = x @ [0] \<and> live (c_deallocate (cJSON_Delete t m2)) = live roomy
     | None \<Rightarrow> ((\<exists>k. \<not> alloc_ok roomy k) \<or> INT_LIMIT < length x + 2) \<and> live (cJSON_Delete t m2) = live roomy)"
proof -
  have "case cJSON_ParseWithOpts (Some (cstr ''null'' @ [0])) True roomy of Some (Some _, _) \<Rightarrow> True | _ \<Rightarrow> False"
    by code_simp
  then obtain t k e m1 where p: "cJSON_ParseWithOpts (Some (cstr ''null'' @ [0])) True roomy = Some (Some t, k, e, m1)"
    by (auto split: option.splits prod.splits)
  from accepted_text_prints [OF _ p, of True False] show ?thesis using p by auto
qed
end
