(* ===== verification/JsonHeap.thy ===== *)
theory JsonHeap
  imports JsonParse
begin

text \<open>
  The operations of \<open>JSON/cJSON.c\<close> that work on the pointers of an item: lookups, adding,
  detaching, inserting, replacing, and the constructors.

  The store maps addresses to items and to character blocks; \<open>NULL\<close> is 0.  \<open>None\<close> is an access
  to an address that holds no such object: a NULL pointer, a freed block.  Freed addresses are not
  given out again, so a stale pointer stays recognisable.  The allocator fails at the calls its
  schedule names.
\<close>

unbundle bit_operations_syntax

subsection \<open>The store\<close>

type_synonym ptr = nat

abbreviation NULL :: ptr where "NULL \<equiv> 0"

record node =
  next_ptr :: ptr
  prev_ptr :: ptr
  child_ptr :: ptr
  ntype :: u32
  valuestring_ptr :: ptr
  nvalueint :: int
  nvaluedouble :: double
  string_ptr :: ptr

record heap =
  items :: "ptr \<Rightarrow> node option"
  texts :: "ptr \<Rightarrow> bytes option"
  brk :: ptr                    \<comment> \<open>the next fresh address\<close>
  h_ok :: "nat \<Rightarrow> bool"         \<comment> \<open>does the \<open>n\<close>-th allocation succeed\<close>
  h_calls :: nat

definition load :: "heap \<Rightarrow> ptr \<Rightarrow> node option" where
  "load h p = (if p = NULL then None else items h p)"

definition upd :: "ptr \<Rightarrow> (node \<Rightarrow> node) \<Rightarrow> heap \<Rightarrow> heap" where
  "upd p f h = h\<lparr>items := (items h)(p := map_option f (items h p))\<rparr>"

definition store :: "ptr \<Rightarrow> (node \<Rightarrow> node) \<Rightarrow> heap \<Rightarrow> heap option" where
  \<comment> \<open>assignments to fields of \<open>*p\<close>\<close>
  "store p f h = (if load h p = None then None else Some (upd p f h))"

definition set_next :: "ptr \<Rightarrow> node \<Rightarrow> node" where
  "set_next q n = n\<lparr>next_ptr := q\<rparr>"

definition set_prev :: "ptr \<Rightarrow> node \<Rightarrow> node" where
  "set_prev q n = n\<lparr>prev_ptr := q\<rparr>"

definition set_kid :: "ptr \<Rightarrow> node \<Rightarrow> node" where
  "set_kid q n = n\<lparr>child_ptr := q\<rparr>"

definition h_allocate :: "heap \<Rightarrow> ptr \<times> heap" where
  "h_allocate h =
     (if h_ok h (h_calls h) then (brk h, h\<lparr>brk := Suc (brk h), h_calls := Suc (h_calls h)\<rparr>)
      else (NULL, h\<lparr>h_calls := Suc (h_calls h)\<rparr>))"

definition free_text :: "ptr \<Rightarrow> heap \<Rightarrow> heap option" where
  "free_text p h = (if texts h p = None then None else Some (h\<lparr>texts := (texts h)(p := None)\<rparr>))"

definition free_item :: "ptr \<Rightarrow> heap \<Rightarrow> heap option" where
  "free_item p h = (if load h p = None then None else Some (h\<lparr>items := (items h)(p := None)\<rparr>))"

definition zero_node :: node where
  \<comment> \<open>\<open>memset (node, 0, sizeof (cJSON))\<close>\<close>
  "zero_node = \<lparr>next_ptr = NULL, prev_ptr = NULL, child_ptr = NULL, ntype = 0, valuestring_ptr = NULL,
     nvalueint = 0, nvaluedouble = d_zero, string_ptr = NULL\<rparr>"

definition h_new_item :: "heap \<Rightarrow> ptr \<times> heap" where
  \<comment> \<open>\<open>cJSON_New_Item\<close>\<close>
  "h_new_item h =
     (let (p, h) = h_allocate h
      in if p = NULL then (NULL, h) else (p, h\<lparr>items := (items h)(p \<mapsto> zero_node)\<rparr>))"

definition c_text :: "heap \<Rightarrow> ptr \<Rightarrow> bytes option" where
  \<comment> \<open>the C string at \<open>p\<close>\<close>
  "c_text h p = do { s \<leftarrow> texts h p; n \<leftarrow> c_strlen s; Some (take n s) }"

definition cJSON_strdup :: "ptr \<Rightarrow> heap \<Rightarrow> (ptr \<times> heap) option" where
  "cJSON_strdup string h =
     (if string = NULL then Some (NULL, h)
      else do {
        s \<leftarrow> texts h string;
        n \<leftarrow> c_strlen s;
        let length = n + 1;
        case h_allocate h of (copy, h) \<Rightarrow>
          if copy = NULL then Some (NULL, h)
          else do {
            s \<leftarrow> read_range s 0 length;
            Some (copy, h\<lparr>texts := (texts h)(copy \<mapsto> s)\<rparr>) } })"

definition n_reference :: "node \<Rightarrow> bool" where
  "n_reference n \<longleftrightarrow> ntype n AND cJSON_IsReference \<noteq> 0"

definition n_const_key :: "node \<Rightarrow> bool" where
  "n_const_key n \<longleftrightarrow> ntype n AND cJSON_StringIsConst \<noteq> 0"

partial_function (option) h_delete :: "ptr \<Rightarrow> heap \<Rightarrow> heap option" where
  \<comment> \<open>\<open>cJSON_Delete\<close>\<close>
  "h_delete item h =
     (if item = NULL then Some h
      else do {
        n \<leftarrow> load h item;
        h \<leftarrow> (if \<not> n_reference n \<and> child_ptr n \<noteq> NULL then h_delete (child_ptr n) h else Some h);
        h \<leftarrow> (if \<not> n_reference n \<and> valuestring_ptr n \<noteq> NULL then free_text (valuestring_ptr n) h else Some h);
        h \<leftarrow> (if \<not> n_const_key n \<and> string_ptr n \<noteq> NULL then free_text (string_ptr n) h else Some h);
        h \<leftarrow> free_item item h;
        h_delete (next_ptr n) h })"

subsection \<open>Lookups\<close>

partial_function (option) chain_size :: "heap \<Rightarrow> ptr \<Rightarrow> nat \<Rightarrow> nat option" where
  "chain_size h child k =
     (if child = NULL then Some k
      else do { n \<leftarrow> load h child; chain_size h (next_ptr n) (k + 1) })"

definition cJSON_GetArraySize :: "heap \<Rightarrow> ptr \<Rightarrow> int option" where
  \<comment> \<open>the size as an \<open>int\<close>\<close>
  "cJSON_GetArraySize h array =
     (if array = NULL then Some 0
      else do { n \<leftarrow> load h array; k \<leftarrow> chain_size h (child_ptr n) 0; Some (sint (of_nat k :: u32)) })"

fun skip_items :: "heap \<Rightarrow> ptr \<Rightarrow> nat \<Rightarrow> ptr option" where
  "skip_items h p 0 = Some p"
| "skip_items h p (Suc index) =
     (if p = NULL then Some p else do { n \<leftarrow> load h p; skip_items h (next_ptr n) index })"

definition get_array_item :: "heap \<Rightarrow> ptr \<Rightarrow> nat \<Rightarrow> ptr option" where
  "get_array_item h array index =
     (if array = NULL then Some NULL else do { n \<leftarrow> load h array; skip_items h (child_ptr n) index })"

definition cJSON_GetArrayItem :: "heap \<Rightarrow> ptr \<Rightarrow> int \<Rightarrow> ptr option" where
  "cJSON_GetArrayItem h array index =
     (if index < 0 then Some NULL else get_array_item h array (nat index))"

definition tolower :: "u8 \<Rightarrow> u8" where
  "tolower c = (if 65 \<le> c \<and> c \<le> 90 then c + 32 else c)"

fun strcmp_fold :: "bytes \<Rightarrow> bytes \<Rightarrow> int option" where
  \<comment> \<open>the loop of \<open>case_insensitive_strcmp\<close>; running off a block is \<open>None\<close>\<close>
  "strcmp_fold (x # xs) (y # ys) =
     (if tolower x = tolower y then (if x = 0 then Some 0 else strcmp_fold xs ys)
      else Some (int (unat (tolower x)) - int (unat (tolower y))))"
| "strcmp_fold _ _ = None"

definition case_insensitive_strcmp :: "heap \<Rightarrow> ptr \<Rightarrow> ptr \<Rightarrow> int option" where
  "case_insensitive_strcmp h string1 string2 =
     (if string1 = NULL \<or> string2 = NULL then Some 1
      else if string1 = string2 then Some 0
      else do { a \<leftarrow> texts h string1; b \<leftarrow> texts h string2; strcmp_fold a b })"

definition name_differs :: "heap \<Rightarrow> ptr \<Rightarrow> bool \<Rightarrow> node \<Rightarrow> bool option" where
  \<comment> \<open>do the loops of \<open>get_object_item\<close> go on after this element\<close>
  "name_differs h name case_sensitive n =
     (if case_sensitive
      then if string_ptr n = NULL then Some False
           else do { a \<leftarrow> c_text h name; b \<leftarrow> c_text h (string_ptr n); Some (a \<noteq> b) }
      else map_option (\<lambda>r. r \<noteq> 0) (case_insensitive_strcmp h name (string_ptr n)))"

partial_function (option) find_name :: "heap \<Rightarrow> ptr \<Rightarrow> bool \<Rightarrow> ptr \<Rightarrow> ptr option" where
  "find_name h name case_sensitive current_element =
     (if current_element = NULL then Some NULL
      else do {
        n \<leftarrow> load h current_element;
        differs \<leftarrow> name_differs h name case_sensitive n;
        if differs then find_name h name case_sensitive (next_ptr n)
        else Some (if string_ptr n = NULL then NULL else current_element) })"

definition get_object_item :: "heap \<Rightarrow> ptr \<Rightarrow> ptr \<Rightarrow> bool \<Rightarrow> ptr option" where
  "get_object_item h object name case_sensitive =
     (if object = NULL \<or> name = NULL then Some NULL
      else do { n \<leftarrow> load h object; find_name h name case_sensitive (child_ptr n) })"

definition cJSON_GetObjectItem :: "heap \<Rightarrow> ptr \<Rightarrow> ptr \<Rightarrow> ptr option" where
  "cJSON_GetObjectItem h object string = get_object_item h object string False"

definition cJSON_GetObjectItemCaseSensitive :: "heap \<Rightarrow> ptr \<Rightarrow> ptr \<Rightarrow> ptr option" where
  "cJSON_GetObjectItemCaseSensitive h object string = get_object_item h object string True"

definition cJSON_HasObjectItem :: "heap \<Rightarrow> ptr \<Rightarrow> ptr \<Rightarrow> bool option" where
  "cJSON_HasObjectItem h object string = map_option (\<lambda>p. p \<noteq> NULL) (cJSON_GetObjectItem h object string)"

subsection \<open>Adding\<close>

definition suffix_object :: "ptr \<Rightarrow> ptr \<Rightarrow> heap \<Rightarrow> heap option" where
  "suffix_object prev item h = do { h \<leftarrow> store prev (set_next item) h; store item (set_prev prev) h }"

definition create_reference :: "ptr \<Rightarrow> heap \<Rightarrow> (ptr \<times> heap) option" where
  "create_reference item h =
     (if item = NULL then Some (NULL, h)
      else case h_new_item h of (reference, h) \<Rightarrow>
        if reference = NULL then Some (NULL, h)
        else do {
          n \<leftarrow> load h item;
          h \<leftarrow> store reference (\<lambda>_. n\<lparr>string_ptr := NULL, ntype := ntype n OR cJSON_IsReference,
                                      next_ptr := NULL, prev_ptr := NULL\<rparr>) h;
          Some (reference, h) })"

partial_function (option) last_item :: "heap \<Rightarrow> ptr \<Rightarrow> ptr option" where
  \<comment> \<open>\<open>while (child->next) child = child->next\<close>\<close>
  "last_item h child = do {
     n \<leftarrow> load h child;
     if next_ptr n = NULL then Some child else last_item h (next_ptr n) }"

definition add_item_to_array :: "ptr \<Rightarrow> ptr \<Rightarrow> heap \<Rightarrow> (bool \<times> heap) option" where
  "add_item_to_array array item h =
     (if item = NULL \<or> array = NULL then Some (False, h)
      else do {
        a \<leftarrow> load h array;
        if child_ptr a = NULL then do {
          h \<leftarrow> store array (set_kid item) h;
          h \<leftarrow> store item (set_prev item) h;
          h \<leftarrow> store item (set_next NULL) h;
          Some (True, h) }
        else do {
          c \<leftarrow> load h (child_ptr a);
          end_item \<leftarrow> (if prev_ptr c \<noteq> NULL then Some (prev_ptr c) else last_item h (child_ptr a));
          h \<leftarrow> suffix_object end_item item h;
          a \<leftarrow> load h array;
          h \<leftarrow> store (child_ptr a) (set_prev item) h;
          Some (True, h) } })"

definition cJSON_AddItemToArray :: "ptr \<Rightarrow> ptr \<Rightarrow> heap \<Rightarrow> heap option" where
  "cJSON_AddItemToArray array item h = map_option snd (add_item_to_array array item h)"

definition add_item_to_object :: "ptr \<Rightarrow> ptr \<Rightarrow> ptr \<Rightarrow> bool \<Rightarrow> heap \<Rightarrow> (bool \<times> heap) option" where
  "add_item_to_object object string item constant_key h =
     (if object = NULL \<or> string = NULL \<or> item = NULL then Some (False, h)
      else do {
        n \<leftarrow> load h item;
        (new_key, h) \<leftarrow> (if constant_key then Some (string, h) else cJSON_strdup string h);
        if new_key = NULL then Some (False, h)
        else do {
          let new_type = (if constant_key then ntype n OR cJSON_StringIsConst
                          else ntype n AND NOT cJSON_StringIsConst);
          h \<leftarrow> (if \<not> n_const_key n \<and> string_ptr n \<noteq> NULL then free_text (string_ptr n) h else Some h);
          h \<leftarrow> store item (\<lambda>n. n\<lparr>string_ptr := new_key, ntype := new_type\<rparr>) h;
          add_item_to_array object item h } })"

definition cJSON_AddItemToObject :: "ptr \<Rightarrow> ptr \<Rightarrow> ptr \<Rightarrow> heap \<Rightarrow> heap option" where
  "cJSON_AddItemToObject object string item h = map_option snd (add_item_to_object object string item False h)"

definition cJSON_AddItemToObjectCS :: "ptr \<Rightarrow> ptr \<Rightarrow> ptr \<Rightarrow> heap \<Rightarrow> heap option" where
  "cJSON_AddItemToObjectCS object string item h = map_option snd (add_item_to_object object string item True h)"

definition cJSON_AddItemReferenceToArray :: "ptr \<Rightarrow> ptr \<Rightarrow> heap \<Rightarrow> heap option" where
  "cJSON_AddItemReferenceToArray array item h =
     (if array = NULL then Some h
      else do { (reference, h) \<leftarrow> create_reference item h; map_option snd (add_item_to_array array reference h) })"

definition cJSON_AddItemReferenceToObject :: "ptr \<Rightarrow> ptr \<Rightarrow> ptr \<Rightarrow> heap \<Rightarrow> heap option" where
  "cJSON_AddItemReferenceToObject object string item h =
     (if object = NULL \<or> string = NULL then Some h
      else do {
        (reference, h) \<leftarrow> create_reference item h;
        map_option snd (add_item_to_object object string reference False h) })"

subsection \<open>Constructors\<close>

definition create_item :: "(node \<Rightarrow> node) \<Rightarrow> heap \<Rightarrow> ptr \<times> heap" where
  \<comment> \<open>\<open>cJSON_New_Item\<close>, and assignments to the fields of the item if there is one\<close>
  "create_item f h = (case h_new_item h of (item, h) \<Rightarrow> if item = NULL then (NULL, h) else (item, upd item f h))"

definition create_text :: "u32 \<Rightarrow> ptr \<Rightarrow> heap \<Rightarrow> (ptr \<times> heap) option" where
  \<comment> \<open>an item that owns a copy of a string\<close>
  "create_text ty string h =
     (case create_item (\<lambda>n. n\<lparr>ntype := ty\<rparr>) h of (item, h) \<Rightarrow>
        if item = NULL then Some (NULL, h)
        else do {
          (copy, h) \<leftarrow> cJSON_strdup string h;
          h \<leftarrow> store item (\<lambda>n. n\<lparr>valuestring_ptr := copy\<rparr>) h;
          if copy = NULL then do { h \<leftarrow> h_delete item h; Some (NULL, h) }
          else Some (item, h) })"

definition cJSON_CreateNull :: "heap \<Rightarrow> ptr \<times> heap" where
  "cJSON_CreateNull = create_item (\<lambda>n. n\<lparr>ntype := cJSON_NULL\<rparr>)"

definition cJSON_CreateTrue :: "heap \<Rightarrow> ptr \<times> heap" where
  "cJSON_CreateTrue = create_item (\<lambda>n. n\<lparr>ntype := cJSON_True\<rparr>)"

definition cJSON_CreateFalse :: "heap \<Rightarrow> ptr \<times> heap" where
  "cJSON_CreateFalse = create_item (\<lambda>n. n\<lparr>ntype := cJSON_False\<rparr>)"

definition cJSON_CreateBool :: "bool \<Rightarrow> heap \<Rightarrow> ptr \<times> heap" where
  "cJSON_CreateBool boolean = create_item (\<lambda>n. n\<lparr>ntype := if boolean then cJSON_True else cJSON_False\<rparr>)"

definition cJSON_CreateNumber :: "double \<Rightarrow> heap \<Rightarrow> ptr \<times> heap" where
  "cJSON_CreateNumber num =
     create_item (\<lambda>n. n\<lparr>ntype := cJSON_Number, nvaluedouble := num, nvalueint := saturate num\<rparr>)"

definition cJSON_CreateString :: "ptr \<Rightarrow> heap \<Rightarrow> (ptr \<times> heap) option" where
  "cJSON_CreateString = create_text cJSON_String"

definition cJSON_CreateStringReference :: "ptr \<Rightarrow> heap \<Rightarrow> ptr \<times> heap" where
  "cJSON_CreateStringReference string =
     create_item (\<lambda>n. n\<lparr>ntype := cJSON_String OR cJSON_IsReference, valuestring_ptr := string\<rparr>)"

definition cJSON_CreateObjectReference :: "ptr \<Rightarrow> heap \<Rightarrow> ptr \<times> heap" where
  "cJSON_CreateObjectReference child =
     create_item (\<lambda>n. n\<lparr>ntype := cJSON_Object OR cJSON_IsReference, child_ptr := child\<rparr>)"

definition cJSON_CreateArrayReference :: "ptr \<Rightarrow> heap \<Rightarrow> ptr \<times> heap" where
  "cJSON_CreateArrayReference child =
     create_item (\<lambda>n. n\<lparr>ntype := cJSON_Array OR cJSON_IsReference, child_ptr := child\<rparr>)"

definition cJSON_CreateRaw :: "ptr \<Rightarrow> heap \<Rightarrow> (ptr \<times> heap) option" where
  "cJSON_CreateRaw = create_text cJSON_Raw"

definition cJSON_CreateArray :: "heap \<Rightarrow> ptr \<times> heap" where
  "cJSON_CreateArray = create_item (\<lambda>n. n\<lparr>ntype := cJSON_Array\<rparr>)"

definition cJSON_CreateObject :: "heap \<Rightarrow> ptr \<times> heap" where
  "cJSON_CreateObject = create_item (\<lambda>n. n\<lparr>ntype := cJSON_Object\<rparr>)"

fun fill_array :: "('a \<Rightarrow> heap \<Rightarrow> (ptr \<times> heap) option) \<Rightarrow> 'a list \<Rightarrow> ptr \<Rightarrow> ptr \<Rightarrow> heap \<Rightarrow> (ptr \<times> heap) option" where
  \<comment> \<open>the loop of the four array constructors: elements left, the array, the last item (\<open>NULL\<close>
     in the first round)\<close>
  "fill_array create [] a p h = Some (a, h)"
| "fill_array create (x # xs) a p h = do {
     (n, h) \<leftarrow> create x h;
     if n = NULL then do { h \<leftarrow> h_delete a h; Some (NULL, h) }
     else do {
       h \<leftarrow> (if p = NULL then store a (set_kid n) h else suffix_object p n h);
       fill_array create xs a n h } }"

definition create_array :: "('a \<Rightarrow> heap \<Rightarrow> (ptr \<times> heap) option) \<Rightarrow> 'a list option \<Rightarrow> int \<Rightarrow> heap \<Rightarrow> (ptr \<times> heap) option" where
  "create_array create xs count h =
     (case xs of
        None \<Rightarrow> Some (NULL, h)
      | Some xs \<Rightarrow>
          if count < 0 then Some (NULL, h)
          else (case cJSON_CreateArray h of (a, h) \<Rightarrow>
            if a = NULL then Some (NULL, h)
            else do { xs \<leftarrow> read_range xs 0 (nat count); fill_array create xs a NULL h }))"

definition cJSON_CreateIntArray :: "int list option \<Rightarrow> int \<Rightarrow> heap \<Rightarrow> (ptr \<times> heap) option" where
  "cJSON_CreateIntArray = create_array (\<lambda>k h. Some (cJSON_CreateNumber (double_of_int k) h))"

definition cJSON_CreateFloatArray :: "double list option \<Rightarrow> int \<Rightarrow> heap \<Rightarrow> (ptr \<times> heap) option" where
  \<comment> \<open>a \<open>float\<close> is the double it converts to exactly\<close>
  "cJSON_CreateFloatArray = create_array (\<lambda>d h. Some (cJSON_CreateNumber d h))"

definition cJSON_CreateDoubleArray :: "double list option \<Rightarrow> int \<Rightarrow> heap \<Rightarrow> (ptr \<times> heap) option" where
  "cJSON_CreateDoubleArray = create_array (\<lambda>d h. Some (cJSON_CreateNumber d h))"

definition cJSON_CreateStringArray :: "ptr list option \<Rightarrow> int \<Rightarrow> heap \<Rightarrow> (ptr \<times> heap) option" where
  "cJSON_CreateStringArray = create_array cJSON_CreateString"

subsection \<open>Adding new items to objects\<close>

definition add_or_delete :: "ptr \<Rightarrow> ptr \<Rightarrow> ptr \<times> heap \<Rightarrow> (ptr \<times> heap) option" where
  \<comment> \<open>the common body of the \<open>cJSON_Add..ToObject\<close> functions\<close>
  "add_or_delete object name = (\<lambda>(item, h). do {
     (ok, h) \<leftarrow> add_item_to_object object name item False h;
     if ok then Some (item, h) else do { h \<leftarrow> h_delete item h; Some (NULL, h) } })"

definition cJSON_AddNullToObject :: "ptr \<Rightarrow> ptr \<Rightarrow> heap \<Rightarrow> (ptr \<times> heap) option" where
  "cJSON_AddNullToObject object name h = add_or_delete object name (cJSON_CreateNull h)"

definition cJSON_AddTrueToObject :: "ptr \<Rightarrow> ptr \<Rightarrow> heap \<Rightarrow> (ptr \<times> heap) option" where
  "cJSON_AddTrueToObject object name h = add_or_delete object name (cJSON_CreateTrue h)"

definition cJSON_AddFalseToObject :: "ptr \<Rightarrow> ptr \<Rightarrow> heap \<Rightarrow> (ptr \<times> heap) option" where
  "cJSON_AddFalseToObject object name h = add_or_delete object name (cJSON_CreateFalse h)"

definition cJSON_AddBoolToObject :: "ptr \<Rightarrow> ptr \<Rightarrow> bool \<Rightarrow> heap \<Rightarrow> (ptr \<times> heap) option" where
  "cJSON_AddBoolToObject object name boolean h = add_or_delete object name (cJSON_CreateBool boolean h)"

definition cJSON_AddNumberToObject :: "ptr \<Rightarrow> ptr \<Rightarrow> double \<Rightarrow> heap \<Rightarrow> (ptr \<times> heap) option" where
  "cJSON_AddNumberToObject object name number h = add_or_delete object name (cJSON_CreateNumber number h)"

definition cJSON_AddStringToObject :: "ptr \<Rightarrow> ptr \<Rightarrow> ptr \<Rightarrow> heap \<Rightarrow> (ptr \<times> heap) option" where
  "cJSON_AddStringToObject object name string h = do {
     r \<leftarrow> cJSON_CreateString string h; add_or_delete object name r }"

definition cJSON_AddRawToObject :: "ptr \<Rightarrow> ptr \<Rightarrow> ptr \<Rightarrow> heap \<Rightarrow> (ptr \<times> heap) option" where
  "cJSON_AddRawToObject object name raw h = do {
     r \<leftarrow> cJSON_CreateRaw raw h; add_or_delete object name r }"

definition cJSON_AddObjectToObject :: "ptr \<Rightarrow> ptr \<Rightarrow> heap \<Rightarrow> (ptr \<times> heap) option" where
  "cJSON_AddObjectToObject object name h = add_or_delete object name (cJSON_CreateObject h)"

definition cJSON_AddArrayToObject :: "ptr \<Rightarrow> ptr \<Rightarrow> heap \<Rightarrow> (ptr \<times> heap) option" where
  "cJSON_AddArrayToObject object name h = add_or_delete object name (cJSON_CreateArray h)"

subsection \<open>Detaching, inserting, replacing\<close>

definition cJSON_DetachItemViaPointer :: "ptr \<Rightarrow> ptr \<Rightarrow> heap \<Rightarrow> (ptr \<times> heap) option" where
  "cJSON_DetachItemViaPointer parent item h =
     (if parent = NULL \<or> item = NULL then Some (NULL, h)
      else do {
        a \<leftarrow> load h parent;
        n \<leftarrow> load h item;
        h \<leftarrow> (if item \<noteq> child_ptr a then store (prev_ptr n) (set_next (next_ptr n)) h else Some h);
        n \<leftarrow> load h item;
        h \<leftarrow> (if next_ptr n \<noteq> NULL then store (next_ptr n) (set_prev (prev_ptr n)) h else Some h);
        n \<leftarrow> load h item;
        h \<leftarrow> (if item = child_ptr a then store parent (set_kid (next_ptr n)) h else Some h);
        h \<leftarrow> store item (set_prev NULL) h;
        h \<leftarrow> store item (set_next NULL) h;
        Some (item, h) })"

definition cJSON_DetachItemFromArray :: "ptr \<Rightarrow> int \<Rightarrow> heap \<Rightarrow> (ptr \<times> heap) option" where
  "cJSON_DetachItemFromArray array which h =
     (if which < 0 then Some (NULL, h)
      else do { item \<leftarrow> get_array_item h array (nat which); cJSON_DetachItemViaPointer array item h })"

definition cJSON_DeleteItemFromArray :: "ptr \<Rightarrow> int \<Rightarrow> heap \<Rightarrow> heap option" where
  "cJSON_DeleteItemFromArray array which h = do {
     (item, h) \<leftarrow> cJSON_DetachItemFromArray array which h; h_delete item h }"

definition cJSON_DetachItemFromObject :: "ptr \<Rightarrow> ptr \<Rightarrow> heap \<Rightarrow> (ptr \<times> heap) option" where
  "cJSON_DetachItemFromObject object string h = do {
     to_detach \<leftarrow> cJSON_GetObjectItem h object string; cJSON_DetachItemViaPointer object to_detach h }"

definition cJSON_DetachItemFromObjectCaseSensitive :: "ptr \<Rightarrow> ptr \<Rightarrow> heap \<Rightarrow> (ptr \<times> heap) option" where
  "cJSON_DetachItemFromObjectCaseSensitive object string h = do {
     to_detach \<leftarrow> cJSON_GetObjectItemCaseSensitive h object string;
     cJSON_DetachItemViaPointer object to_detach h }"

definition cJSON_DeleteItemFromObject :: "ptr \<Rightarrow> ptr \<Rightarrow> heap \<Rightarrow> heap option" where
  "cJSON_DeleteItemFromObject object string h = do {
     (item, h) \<leftarrow> cJSON_DetachItemFromObject object string h; h_delete item h }"

definition cJSON_DeleteItemFromObjectCaseSensitive :: "ptr \<Rightarrow> ptr \<Rightarrow> heap \<Rightarrow> heap option" where
  "cJSON_DeleteItemFromObjectCaseSensitive object string h = do {
     (item, h) \<leftarrow> cJSON_DetachItemFromObjectCaseSensitive object string h; h_delete item h }"

definition cJSON_InsertItemInArray :: "ptr \<Rightarrow> int \<Rightarrow> ptr \<Rightarrow> heap \<Rightarrow> heap option" where
  "cJSON_InsertItemInArray array which newitem h =
     (if which < 0 then Some h
      else do {
        after_inserted \<leftarrow> get_array_item h array (nat which);
        if after_inserted = NULL then map_option snd (add_item_to_array array newitem h)
        else do {
          h \<leftarrow> store newitem (set_next after_inserted) h;
          n \<leftarrow> load h after_inserted;
          h \<leftarrow> store newitem (set_prev (prev_ptr n)) h;
          h \<leftarrow> store after_inserted (set_prev newitem) h;
          a \<leftarrow> load h array;
          if after_inserted = child_ptr a then store array (set_kid newitem) h
          else do { n \<leftarrow> load h newitem; store (prev_ptr n) (set_next newitem) h } } })"

definition cJSON_ReplaceItemViaPointer :: "ptr \<Rightarrow> ptr \<Rightarrow> ptr \<Rightarrow> heap \<Rightarrow> (bool \<times> heap) option" where
  "cJSON_ReplaceItemViaPointer parent item replacement h =
     (if parent = NULL \<or> replacement = NULL \<or> item = NULL then Some (False, h)
      else if replacement = item then Some (True, h)
      else do {
        n \<leftarrow> load h item;
        h \<leftarrow> store replacement (set_next (next_ptr n)) h;
        h \<leftarrow> store replacement (set_prev (prev_ptr n)) h;
        h \<leftarrow> (if next_ptr n \<noteq> NULL then store (next_ptr n) (set_prev replacement) h else Some h);
        a \<leftarrow> load h parent;
        r \<leftarrow> load h replacement;
        h \<leftarrow> (if child_ptr a = item then store parent (set_kid replacement) h
              else if prev_ptr r \<noteq> NULL then store (prev_ptr r) (set_next replacement) h
              else Some h);
        h \<leftarrow> store item (set_next NULL) h;
        h \<leftarrow> store item (set_prev NULL) h;
        h \<leftarrow> h_delete item h;
        Some (True, h) })"

definition cJSON_ReplaceItemInArray :: "ptr \<Rightarrow> int \<Rightarrow> ptr \<Rightarrow> heap \<Rightarrow> heap option" where
  "cJSON_ReplaceItemInArray array which newitem h =
     (if which < 0 then Some h
      else do {
        item \<leftarrow> get_array_item h array (nat which);
        map_option snd (cJSON_ReplaceItemViaPointer array item newitem h) })"

definition replace_item_in_object :: "ptr \<Rightarrow> ptr \<Rightarrow> ptr \<Rightarrow> bool \<Rightarrow> heap \<Rightarrow> (bool \<times> heap) option" where
  "replace_item_in_object object string replacement case_sensitive h =
     (if replacement = NULL \<or> string = NULL then Some (False, h)
      else do {
        n \<leftarrow> load h replacement;
        h \<leftarrow> (if \<not> n_const_key n \<and> string_ptr n \<noteq> NULL then free_text (string_ptr n) h else Some h);
        (copy, h) \<leftarrow> cJSON_strdup string h;
        h \<leftarrow> store replacement (\<lambda>n. n\<lparr>string_ptr := copy, ntype := ntype n AND NOT cJSON_StringIsConst\<rparr>) h;
        item \<leftarrow> get_object_item h object string case_sensitive;
        (_, h) \<leftarrow> cJSON_ReplaceItemViaPointer object item replacement h;
        Some (True, h) })"

definition cJSON_ReplaceItemInObject :: "ptr \<Rightarrow> ptr \<Rightarrow> ptr \<Rightarrow> heap \<Rightarrow> heap option" where
  "cJSON_ReplaceItemInObject object string newitem h =
     map_option snd (replace_item_in_object object string newitem False h)"

definition cJSON_ReplaceItemInObjectCaseSensitive :: "ptr \<Rightarrow> ptr \<Rightarrow> ptr \<Rightarrow> heap \<Rightarrow> heap option" where
  "cJSON_ReplaceItemInObjectCaseSensitive object string newitem h =
     map_option snd (replace_item_in_object object string newitem True h)"

end
