(* ===== verification/JsonChain.thy ===== *)
theory JsonChain
  imports JsonHeap
begin

text \<open>
  The child list of an array or object as a list of addresses, and what lookups and list edits
  do to it.  \<open>spelled h a ps e\<close>: the children of \<open>a\<close> are \<open>ps\<close>, doubly linked, and the first one's
  \<open>prev\<close> is \<open>e\<close>, which the code takes for the last item.  \<open>children\<close> adds that \<open>e\<close> is the last item
  or \<open>NULL\<close>, as the parser and the constructors leave it.  The contracts of \<open>JsonLists\<close> are stated with it.
\<close>

named_theorems heap_simps \<open>how the store operations compute\<close>

subsection \<open>The store\<close>

lemma load_NULL [simp]: "load h NULL = None"
  by (simp add: load_def)

lemma load_neq_NULL: "load h p = Some n \<Longrightarrow> p \<noteq> NULL"
  by (cases p) (auto simp: load_def)

lemma load_upd [simp]: "load (upd p f h) q = (if q = p then map_option f (load h q) else load h q)"
  by (simp add: load_def upd_def)

lemma store_Some [heap_simps]: "load h p \<noteq> None \<Longrightarrow> store p f h = Some (upd p f h)"
  by (simp add: store_def)

lemma if_map_None [simp]: "((if c then map_option f x else x) = None) = (x = None)"
  by simp

lemma texts_upd [simp]: "texts (upd p f h) = texts h"
  by (simp add: upd_def)

lemma set_sel [simp]:
  "next_ptr (set_next q n) = q" "prev_ptr (set_next q n) = prev_ptr n" "child_ptr (set_next q n) = child_ptr n"
  "next_ptr (set_prev q n) = next_ptr n" "prev_ptr (set_prev q n) = q" "child_ptr (set_prev q n) = child_ptr n"
  "next_ptr (set_kid q n) = next_ptr n" "prev_ptr (set_kid q n) = prev_ptr n" "child_ptr (set_kid q n) = q"
  "string_ptr (set_next q n) = string_ptr n" "string_ptr (set_prev q n) = string_ptr n" "string_ptr (set_kid q n) = string_ptr n"
  by (simp_all add: set_next_def set_prev_def set_kid_def)

subsection \<open>Doubly linked segments\<close>

definition first_or :: "ptr \<Rightarrow> ptr list \<Rightarrow> ptr" where
  "first_or z ps = (case ps of [] \<Rightarrow> z | p # _ \<Rightarrow> p)"

definition last_or :: "ptr \<Rightarrow> ptr list \<Rightarrow> ptr" where
  "last_or e ps = (if ps = [] then e else last ps)"

lemma first_or_simps [simp]: "first_or z [] = z" "first_or z (p # ps) = p"
  "first_or z (ps @ qs) = first_or (first_or z qs) ps"
  by (cases ps; simp add: first_or_def)+

lemma last_or_simps [simp]: "last_or e [] = e" "last_or e (p # ps) = last_or p ps" "last_or e (ps @ qs) = last_or (last_or e ps) qs"
  by (auto simp: last_or_def)

fun dseg :: "heap \<Rightarrow> ptr \<Rightarrow> ptr list \<Rightarrow> ptr \<Rightarrow> bool" where
  \<comment> \<open>the \<open>prev\<close> of the first, the items, the \<open>next\<close> of the last\<close>
  "dseg h e [] z \<longleftrightarrow> True"
| "dseg h e (p # ps) z \<longleftrightarrow>
     (\<exists>n. load h p = Some n \<and> prev_ptr n = e \<and> next_ptr n = first_or z ps) \<and> dseg h p ps z"

lemma dseg_append [simp]:
  "dseg h e (ps @ qs) z \<longleftrightarrow> dseg h e ps (first_or z qs) \<and> dseg h (last_or e ps) qs z"
  by (induction ps arbitrary: e) auto

lemma dseg_upd_other [simp]: "p \<notin> set ps \<Longrightarrow> dseg (upd p f h) e ps z \<longleftrightarrow> dseg h e ps z"
  by (induction ps arbitrary: e) auto

lemma dseg_upd_kid [simp]: "dseg (upd p (set_kid q) h) e ps z \<longleftrightarrow> dseg h e ps z"
  by (induction ps arbitrary: e) auto

lemma dseg_set_prev: "dseg h e (p # ps) z \<Longrightarrow> p \<notin> set ps \<Longrightarrow> dseg (upd p (set_prev q) h) q (p # ps) z"
  by auto

lemma dseg_set_next: "dseg h e (ps @ [p]) z \<Longrightarrow> p \<notin> set ps \<Longrightarrow> dseg (upd p (set_next q) h) e (ps @ [p]) q"
  by auto

lemma dseg_load: "dseg h e ps z \<Longrightarrow> p \<in> set ps \<Longrightarrow> \<exists>n. load h p = Some n"
  by (induction ps arbitrary: e) auto

lemma dseg_neq_NULL: "dseg h e ps z \<Longrightarrow> NULL \<notin> set ps"
  using dseg_load load_NULL by (metis option.distinct(1))

lemma first_or_NULL_iff: "NULL \<notin> set ps \<Longrightarrow> first_or NULL ps = NULL \<longleftrightarrow> ps = []"
  by (cases ps) auto

definition spelled :: "heap \<Rightarrow> ptr \<Rightarrow> ptr list \<Rightarrow> ptr \<Rightarrow> bool" where
  "spelled h a ps e \<longleftrightarrow> (\<exists>n. load h a = Some n \<and> child_ptr n = first_or NULL ps)
     \<and> dseg h e ps NULL \<and> distinct ps \<and> a \<notin> set ps"

definition children :: "heap \<Rightarrow> ptr \<Rightarrow> ptr list \<Rightarrow> bool" where
  "children h a ps \<longleftrightarrow> (\<exists>e. spelled h a ps e \<and> (e = NULL \<or> e = last_or NULL ps))"

lemma children_spelled: "children h a ps \<Longrightarrow> \<exists>e. spelled h a ps e"
  by (auto simp: children_def)

lemma spelled_NULL: "spelled h a ps e \<Longrightarrow> NULL \<notin> set ps" "spelled h a ps e \<Longrightarrow> a \<noteq> NULL"
  by (auto simp: spelled_def dest: dseg_neq_NULL load_neq_NULL)

lemma spelled_load: "spelled h a ps e \<Longrightarrow> p \<in> set ps \<Longrightarrow> \<exists>n. load h p = Some n"
  by (auto simp: spelled_def dest: dseg_load)

subsection \<open>Lookups\<close>

lemma chain_size_dseg: "dseg h e ps NULL \<Longrightarrow> chain_size h (first_or NULL ps) k = Some (k + length ps)"
proof (induction ps arbitrary: e k)
  case Nil
  then show ?case by (subst chain_size.simps) simp
next
  case (Cons p ps)
  then show ?case using load_neq_NULL by (subst chain_size.simps) fastforce
qed

lemma skip_items_dseg:
  "dseg h e ps NULL \<Longrightarrow> skip_items h (first_or NULL ps) i = Some (if i < length ps then ps ! i else NULL)"
proof (induction ps arbitrary: e i)
  case Nil
  then show ?case by (cases i) auto
next
  case (Cons p ps)
  then show ?case using load_neq_NULL by (cases i) fastforce+
qed

lemma GetArraySize_spelled: "spelled h a ps e \<Longrightarrow> cJSON_GetArraySize h a = Some (sint (of_nat (length ps) :: u32))"
  using chain_size_dseg [of h e ps 0] spelled_NULL(2) [of h a ps e]
  by (auto simp: spelled_def cJSON_GetArraySize_def)

lemma get_array_item_spelled:
  "spelled h a ps e \<Longrightarrow> get_array_item h a i = Some (if i < length ps then ps ! i else NULL)"
  using skip_items_dseg [of h e ps i] spelled_NULL(2) [of h a ps e]
  by (auto simp: spelled_def get_array_item_def)

lemma last_item_dseg:
  "dseg h e ps NULL \<Longrightarrow> ps \<noteq> [] \<Longrightarrow> last_item h (first_or NULL ps) = Some (last ps)"
proof (induction ps arbitrary: e)
  case (Cons p ps)
  then have "NULL \<notin> set ps" using dseg_neq_NULL by auto
  with Cons show ?case by (subst last_item.simps) (auto simp: first_or_NULL_iff)
qed simp

subsection \<open>What an edit leaves alone\<close>

definition unlinked :: "node \<Rightarrow> node" where
  "unlinked n = n\<lparr>next_ptr := NULL, prev_ptr := NULL\<rparr>"

definition outline :: "ptr \<Rightarrow> ptr set \<Rightarrow> heap \<Rightarrow> heap" where
  \<comment> \<open>the store without the child pointer of \<open>a\<close> and the list pointers of the items \<open>A\<close>\<close>
  "outline a A h = h\<lparr>items := (\<lambda>p. map_option
     (if p = a then set_kid NULL else if p \<in> A then unlinked else id) (items h p))\<rparr>"

definition relinks :: "heap \<Rightarrow> heap \<Rightarrow> ptr \<Rightarrow> ptr set \<Rightarrow> bool" where
  \<comment> \<open>only the child pointer of \<open>a\<close> and the list pointers of the items \<open>A\<close> are new\<close>
  "relinks h h' a A \<longleftrightarrow> outline a A h' = outline a A h"

lemma relinks_refl [simp]: "relinks h h a A"
  by (simp add: relinks_def)

lemma relinks_trans: "relinks h h1 a A \<Longrightarrow> relinks h1 h2 a A \<Longrightarrow> relinks h h2 a A"
  by (simp add: relinks_def)

lemma outline_sel [simp]:
  "texts (outline a A h) = texts h" "brk (outline a A h) = brk h" "h_calls (outline a A h) = h_calls h"
  "items (outline a A h) p = map_option (if p = a then set_kid NULL else if p \<in> A then unlinked else id) (items h p)"
  by (simp_all add: outline_def)

lemma outline_upd:
  assumes "\<And>n. if q = a then set_kid NULL (f n) = set_kid NULL n else q \<in> A \<and> unlinked (f n) = unlinked n"
  shows "outline a A (upd q f h) = outline a A h"
proof -
  have "map_option (if p = a then set_kid NULL else if p \<in> A then unlinked else id) (((items h)(q := map_option f (items h q))) p)
      = map_option (if p = a then set_kid NULL else if p \<in> A then unlinked else id) (items h p)" for p
    using assms by (cases "items h p") (auto split: if_splits)
  then show ?thesis by (simp add: outline_def upd_def)
qed

lemma relinks_step [intro]:
  "relinks h h1 a A \<Longrightarrow> q \<in> A \<Longrightarrow> q \<noteq> a \<Longrightarrow> relinks h (upd q (set_next z) h1) a A"
  "relinks h h1 a A \<Longrightarrow> q \<in> A \<Longrightarrow> q \<noteq> a \<Longrightarrow> relinks h (upd q (set_prev z) h1) a A"
  "relinks h h1 a A \<Longrightarrow> relinks h (upd a (set_kid z) h1) a A"
  unfolding relinks_def
  by (simp_all add: outline_upd unlinked_def set_next_def set_prev_def set_kid_def)

lemma relinks_same:
  assumes "relinks h h' a A"
  shows "texts h' = texts h" "brk h' = brk h" "h_calls h' = h_calls h"
  using assms outline_sel unfolding relinks_def by metis+

lemma relinks_load:
  assumes "relinks h h' a A" and "p \<noteq> a"
  shows "map_option unlinked (load h' p) = map_option unlinked (load h p)"
    and "p \<notin> A \<Longrightarrow> load h' p = load h p"
proof -
  have "items (outline a A h') p = items (outline a A h) p" using assms(1) by (simp add: relinks_def)
  then show "map_option unlinked (load h' p) = map_option unlinked (load h p)" "p \<notin> A \<Longrightarrow> load h' p = load h p"
    using assms(2) by (auto simp: load_def option.map_id split: if_splits)
qed

lemma relinks_array:
  "relinks h h' a A \<Longrightarrow> map_option (set_kid NULL) (load h' a) = map_option (set_kid NULL) (load h a)"
  using outline_sel(4) [of a A h a] outline_sel(4) [of a A h' a] by (simp add: relinks_def load_def)

subsection \<open>Adding at the end\<close>

lemma dseg_last: "dseg h e ps z \<Longrightarrow> ps \<noteq> [] \<Longrightarrow> \<exists>n. load h (last ps) = Some n \<and> next_ptr n = z"
  by (cases ps rule: rev_cases) auto

lemma add_item_empty:
  assumes "spelled h a [] e" and "load h i = Some m" and "i \<noteq> a"
  shows "\<exists>h'. add_item_to_array a i h = Some (True, h') \<and> spelled h' a [i] i \<and> relinks h h' a {i}"
proof -
  let ?h = "upd i (set_next NULL) (upd i (set_prev i) (upd a (set_kid i) h))"
  from assms have "add_item_to_array a i h = Some (True, ?h)"
    by (auto simp: add_item_to_array_def spelled_def heap_simps dest: load_neq_NULL)
  moreover have "spelled ?h a [i] i" using assms by (auto simp: spelled_def)
  moreover have "relinks h ?h a {i}" using assms(3) by (intro relinks_step relinks_refl) auto
  ultimately show ?thesis by blast
qed

lemma add_item_at:
  \<comment> \<open>the item is linked behind the one that the code takes for the last\<close>
  assumes sp: "spelled h a (p # qs) e" and i: "load h i = Some m" and l: "load h l = Some k"
    and e: "l = (if e = NULL then last (p # qs) else e)" and a: "i \<noteq> a" "l \<noteq> a"
  shows "add_item_to_array a i h =
    Some (True, upd p (set_prev i) (upd i (set_prev l) (upd l (set_next i) h)))"
proof -
  from sp obtain n c where n: "load h a = Some n" "child_ptr n = p" "load h p = Some c" "prev_ptr c = e" "p \<noteq> NULL" "a \<noteq> NULL"
    by (auto simp: spelled_def dest: load_neq_NULL)
  have "last_item h p = Some (last (p # qs))"
    using last_item_dseg [of h e "p # qs"] sp by (simp add: spelled_def)
  then have "(if prev_ptr c \<noteq> NULL then Some (prev_ptr c) else last_item h p) = Some l" using n e by simp
  then show ?thesis using n(1,3,5,6) i l a load_neq_NULL [OF i] unfolding n(2) [symmetric]
    by (simp add: add_item_to_array_def suffix_object_def heap_simps split del: if_split)
qed

lemma add_item_more:
  assumes sp: "spelled h a (p # qs) e" and e: "e = NULL \<or> e = last (p # qs)"
    and i: "load h i = Some m" "next_ptr m = NULL" "i \<noteq> a" "i \<notin> set (p # qs)"
  shows "\<exists>h'. add_item_to_array a i h = Some (True, h') \<and> spelled h' a (p # qs @ [i]) i
    \<and> relinks h h' a (insert i (set (p # qs)))"
proof -
  define l where "l = last (p # qs)"
  obtain rs where rs: "p # qs = rs @ [l]" by (rule that [of "butlast (p # qs)"]) (simp add: l_def)
  let ?h1 = "upd l (set_next i) h"
  let ?h2 = "upd i (set_prev l) ?h1"
  have sp': "dseg h e (rs @ [l]) NULL" "distinct (rs @ [l])" "a \<notin> set (rs @ [l])" "i \<notin> set (rs @ [l])"
    using sp i unfolding rs [symmetric] spelled_def by auto
  have "dseg ?h1 e (rs @ [l]) i" using sp' by (intro dseg_set_next) auto
  then have "dseg ?h2 e (rs @ [l]) i" using sp' by (subst dseg_upd_other) auto
  moreover have "dseg ?h2 l [i] NULL" using i sp' by auto
  ultimately have "dseg ?h2 e ((p # qs) @ [i]) NULL" unfolding rs by (simp only: dseg_append first_or_simps last_or_simps)
  then have "dseg ?h2 e (p # (qs @ [i])) NULL" by (simp only: append_Cons)
  moreover have "p \<notin> set (qs @ [i])" using sp i by (auto simp: spelled_def)
  ultimately have seg: "dseg (upd p (set_prev i) ?h2) i (p # (qs @ [i])) NULL" by (rule dseg_set_prev)
  have "a \<noteq> l" "a \<noteq> p" using sp' sp by (simp_all add: spelled_def)
  obtain k where "load h l = Some k" using spelled_load [OF sp, of l] rs by auto
  then have "add_item_to_array a i h = Some (True, upd p (set_prev i) ?h2)"
    using e l_def i(3) \<open>a \<noteq> l\<close> by (intro add_item_at [OF sp i(1)]) auto
  moreover have "spelled (upd p (set_prev i) ?h2) a (p # qs @ [i]) i"
    using seg sp i \<open>a \<noteq> l\<close> \<open>a \<noteq> p\<close> by (auto simp: spelled_def)
  moreover have "relinks h (upd p (set_prev i) ?h2) a (insert i (set (p # qs)))"
    using i(3) \<open>a \<noteq> l\<close> \<open>a \<noteq> p\<close> last_in_set [of "p # qs"] unfolding l_def
    by (intro relinks_step relinks_refl) auto
  ultimately show ?thesis by blast
qed

definition loose :: "heap \<Rightarrow> ptr \<Rightarrow> ptr list \<Rightarrow> ptr \<Rightarrow> bool" where
  \<comment> \<open>an item that is in no list\<close>
  "loose h a ps i \<longleftrightarrow> (\<exists>m. load h i = Some m \<and> next_ptr m = NULL) \<and> i \<noteq> a \<and> i \<notin> set ps"

lemma add_item_children:
  assumes "children h a ps" and "loose h a ps i"
  shows "\<exists>h'. add_item_to_array a i h = Some (True, h') \<and> children h' a (ps @ [i])
    \<and> relinks h h' a (insert i (set ps))"
proof (cases ps)
  case Nil
  then show ?thesis using assms add_item_empty [of h a _ i] by (auto simp: children_def loose_def) (metis)
next
  case (Cons p qs)
  obtain e m where "spelled h a (p # qs) e" "e = NULL \<or> e = last (p # qs)" "load h i = Some m" "next_ptr m = NULL"
    using assms Cons by (auto simp: children_def loose_def last_or_def)
  from add_item_more [OF this] show ?thesis using assms(2) Cons
    by (auto simp: children_def loose_def)
qed

lemma add_item_stale:
  \<comment> \<open>when \<open>child->prev\<close> is an item outside the list, the new item is linked behind that one\<close>
  assumes sp: "spelled h a (p # qs) e" and e: "load h e = Some k" "e \<notin> set (p # qs)" "e \<noteq> a" "e \<noteq> i"
    and i: "load h i = Some m" "i \<noteq> a" "i \<notin> set (p # qs)"
  shows "\<exists>h'. add_item_to_array a i h = Some (True, h') \<and> spelled h' a (p # qs) i
    \<and> (\<exists>k'. load h' e = Some k' \<and> next_ptr k' = i)"
proof -
  let ?h = "upd p (set_prev i) (upd i (set_prev e) (upd e (set_next i) h))"
  have "dseg (upd i (set_prev e) (upd e (set_next i) h)) e (p # qs) NULL"
    using sp by (simp only: dseg_upd_other [OF e(2)] dseg_upd_other [OF i(3)] spelled_def)
  from dseg_set_prev [OF this] have "dseg ?h i (p # qs) NULL" using sp by (simp only: spelled_def) simp
  then have "spelled ?h a (p # qs) i" using sp e i by (auto simp: spelled_def)
  moreover have "add_item_to_array a i h = Some (True, ?h)"
    using load_neq_NULL [OF e(1)] e i by (intro add_item_at [OF sp i(1) e(1)]) auto
  ultimately show ?thesis using e i by auto
qed

subsection \<open>Detaching\<close>

lemma dseg_middle: "dseg h e (xs @ i # ys) NULL \<longleftrightarrow>
    dseg h e xs i \<and> (\<exists>n. load h i = Some n \<and> prev_ptr n = last_or e xs \<and> next_ptr n = first_or NULL ys) \<and> dseg h i ys NULL"
  by simp

lemma dseg_new_next:
  assumes "dseg h e xs i" and "distinct xs" and "xs \<noteq> []"
  shows "dseg (upd (last xs) (set_next z) h) e xs z"
  using assms dseg_set_next [of h e "butlast xs" "last xs" i z]
  by (metis append_butlast_last_id distinct_append distinct.simps(2) not_distinct_conv_prefix)

lemma dseg_new_prev:
  assumes "dseg h i ys NULL" and "distinct ys" and "ys \<noteq> []"
  shows "dseg (upd (hd ys) (set_prev e) h) e ys NULL"
  using assms by (cases ys) auto

lemma detach_spelled:
  assumes sp: "spelled h a (xs @ i # ys) e"
  shows "\<exists>h' n. cJSON_DetachItemViaPointer a i h = Some (i, h') \<and> spelled h' a (xs @ ys) e
    \<and> load h i = Some n \<and> load h' i = Some (unlinked n) \<and> relinks h h' a (set (xs @ i # ys))"
proof -
  obtain n where n: "load h i = Some n" "prev_ptr n = last_or e xs" "next_ptr n = first_or NULL ys"
    and segs: "dseg h e xs i" "dseg h i ys NULL"
    using sp by (auto simp: spelled_def)
  obtain c where c: "load h a = Some c" "child_ptr c = first_or i xs" using sp by (auto simp: spelled_def)
  have d: "distinct xs" "distinct ys" "set xs \<inter> set ys = {}" "i \<notin> set xs" "i \<notin> set ys" "i \<noteq> a"
    "a \<notin> set xs" "a \<notin> set ys" using sp by (auto simp: spelled_def)
  have nz: "a \<noteq> NULL" "i \<noteq> NULL" "NULL \<notin> set xs" "NULL \<notin> set ys" using spelled_NULL [OF sp] by auto
  define h1 where "h1 = (if xs = [] then h else upd (last xs) (set_next (first_or NULL ys)) h)"
  define h2 where "h2 = (if ys = [] then h1 else upd (hd ys) (set_prev (last_or e xs)) h1)"
  define h3 where "h3 = (if xs = [] then upd a (set_kid (first_or NULL ys)) h2 else h2)"
  define h4 where "h4 = upd i (set_next NULL) (upd i (set_prev NULL) h3)"
  have first: "child_ptr c = i \<longleftrightarrow> xs = []" using c(2) d(4) by (cases xs) auto
  have l: "xs \<noteq> [] \<Longrightarrow> last xs \<noteq> i \<and> last xs \<noteq> a \<and> load h (last xs) \<noteq> None \<and> last xs \<notin> set ys"
    using d dseg_load [OF segs(1), of "last xs"] last_in_set [of xs] by (auto simp: disjoint_iff)
  have y: "ys \<noteq> [] \<Longrightarrow> hd ys \<noteq> i \<and> hd ys \<noteq> a \<and> load h (hd ys) \<noteq> None \<and> hd ys \<notin> set xs \<and> hd ys \<noteq> NULL"
    using d nz dseg_load [OF segs(2), of "hd ys"] list.set_sel(1) [of ys] by (auto simp: disjoint_iff dest: load_neq_NULL)
  have i1: "load h1 i = Some n" "load h2 i = Some n" "load h3 i = Some n"
    using n(1) l y d(6) by (cases "xs = []"; cases "ys = []"; simp add: h1_def h2_def h3_def)+
  have nxt: "first_or NULL ys = (if ys = [] then NULL else hd ys)" by (cases ys) auto
  have a2: "load h2 a \<noteq> None" using c(1) by (cases "xs = []"; cases "ys = []"; simp add: h1_def h2_def)
  have s1: "(if i \<noteq> child_ptr c then store (prev_ptr n) (set_next (next_ptr n)) h else Some h) = Some h1"
    using first l n by (cases "xs = []") (auto simp: h1_def heap_simps last_or_def)
  have s2: "(if next_ptr n \<noteq> NULL then store (next_ptr n) (set_prev (prev_ptr n)) h1 else Some h1) = Some h2"
    using y n nxt by (cases "ys = []") (auto simp: h2_def h1_def heap_simps)
  have s3: "(if i = child_ptr c then store a (set_kid (next_ptr n)) h2 else Some h2) = Some h3"
    using first n a2 by (cases "xs = []") (auto simp: h3_def heap_simps)
  have s4: "store i (set_prev NULL) h3 = Some (upd i (set_prev NULL) h3)"
    "store i (set_next NULL) (upd i (set_prev NULL) h3) = Some h4"
    using i1 by (simp_all add: heap_simps h4_def)
  have r: "cJSON_DetachItemViaPointer a i h = Some (i, h4)"
    unfolding cJSON_DetachItemViaPointer_def using nz(1,2) by (simp only: c(1) n(1) i1 s1 s2 s3 s4 bind.bind_lunit if_False HOL.simp_thms)
  have "dseg h1 e xs (first_or NULL ys)" using dseg_new_next [OF segs(1) d(1)] by (simp add: h1_def)
  moreover have "dseg h1 i ys NULL" using segs(2) l by (simp add: h1_def)
  ultimately have "dseg h2 e xs (first_or NULL ys)" "dseg h2 (last_or e xs) ys NULL"
    using y dseg_new_prev [of h1 i ys "last_or e xs"] d(2) by (auto simp: h2_def)
  then have "dseg h4 e (xs @ ys) NULL" using d by (cases "xs = []") (simp_all add: h4_def h3_def)
  moreover have "\<exists>c'. load h4 a = Some c' \<and> child_ptr c' = first_or NULL (xs @ ys)"
    using c d(6) l y by (cases "xs = []"; cases "ys = []"; cases xs; simp add: h4_def h3_def h2_def h1_def nxt)
  ultimately have "spelled h4 a (xs @ ys) e" using d by (simp add: spelled_def)
  moreover have "load h4 i = Some (unlinked n)"
    using i1 d(6) by (simp add: h4_def set_next_def set_prev_def unlinked_def)
  moreover have "relinks h h4 a (set (xs @ i # ys))"
    unfolding h4_def h3_def h2_def h1_def using l y d(6) last_in_set [of xs] list.set_sel(1) [of ys]
    by (cases "xs = []"; cases "ys = []"; simp; intro relinks_step relinks_refl; simp)
  ultimately show ?thesis using r n(1) by blast
qed

subsection \<open>Inserting\<close>

lemma insert_spelled:
  assumes sp: "spelled h a (xs @ y # ys) e" and m: "load h i = Some m" and i: "i \<noteq> a" "i \<notin> set (xs @ y # ys)"
  shows "\<exists>h'. cJSON_InsertItemInArray a (int (length xs)) i h = Some h' \<and> spelled h' a (xs @ i # y # ys) e
    \<and> relinks h h' a (insert i (set (xs @ y # ys)))"
proof -
  obtain n where n: "load h y = Some n" "prev_ptr n = last_or e xs" "next_ptr n = first_or NULL ys"
    and segs: "dseg h e xs y" "dseg h (last_or e xs) (y # ys) NULL"
    using sp by (auto simp: spelled_def)
  obtain c where c: "load h a = Some c" "child_ptr c = first_or y xs" using sp by (auto simp: spelled_def)
  have d: "distinct xs" "distinct (y # ys)" "y \<notin> set xs" "set xs \<inter> set ys = {}" "y \<noteq> a" "a \<notin> set xs" "a \<notin> set ys"
    "i \<noteq> y" "i \<notin> set xs" "i \<notin> set ys"
    using sp i by (auto simp: spelled_def)
  have nz: "y \<noteq> NULL" "NULL \<notin> set xs" using spelled_NULL [OF sp] by auto
  have g: "get_array_item h a (length xs) = Some y" using get_array_item_spelled [OF sp] by simp
  define h3 where "h3 = upd y (set_prev i) (upd i (set_prev (last_or e xs)) (upd i (set_next y) h))"
  define h4 where "h4 = (if xs = [] then upd a (set_kid i) h3 else upd (last xs) (set_next i) h3)"
  have first: "y = child_ptr c \<longleftrightarrow> xs = []" using c(2) d(3) by (cases xs) auto
  have l: "xs \<noteq> [] \<Longrightarrow> last xs \<noteq> i \<and> last xs \<noteq> y \<and> last xs \<noteq> a \<and> load h (last xs) \<noteq> None \<and> last xs \<notin> set ys"
    using d dseg_load [OF segs(1), of "last xs"] last_in_set [of xs] by (auto simp: disjoint_iff)
  have i3: "load h3 i = Some (set_prev (last_or e xs) (set_next y m))" "load h3 a = Some c"
    using m c d i by (simp_all add: h3_def)
  have l3: "xs \<noteq> [] \<Longrightarrow> load h3 (last xs) \<noteq> None" using l by (simp add: h3_def)
  have s1: "store i (set_next y) h = Some (upd i (set_next y) h)" "load (upd i (set_next y) h) y = Some n"
    "store i (set_prev (last_or e xs)) (upd i (set_next y) h)
       = Some (upd i (set_prev (last_or e xs)) (upd i (set_next y) h))"
    "store y (set_prev i) (upd i (set_prev (last_or e xs)) (upd i (set_next y) h)) = Some h3"
    using m n d by (simp_all add: heap_simps h3_def)
  have s4: "(if y = child_ptr c then store a (set_kid i) h3
      else load h3 i \<bind> (\<lambda>n. store (prev_ptr n) (set_next i) h3)) = Some h4"
    using first l3 i3 by (cases "xs = []") (simp_all add: heap_simps h4_def last_or_def)
  have r: "cJSON_InsertItemInArray a (int (length xs)) i h = Some h4"
    unfolding cJSON_InsertItemInArray_def
    using nz(1) by (simp only: g s1 s4 n(2) i3(2) bind.bind_lunit nat_int if_False HOL.simp_thms of_nat_less_0_iff)
  have "dseg h3 e xs y" using segs(1) d by (simp add: h3_def)
  moreover have "dseg h3 i (y # ys) NULL"
    unfolding h3_def using segs(2) d by (intro dseg_set_prev) (simp_all del: dseg.simps)
  ultimately have "dseg h4 e xs i" "dseg h4 i (y # ys) NULL"
    using dseg_new_next [of h3 e xs y i] d(1) l
    by (cases "xs = []"; simp add: h4_def del: dseg.simps(2); fail)+
  moreover have "load h4 i = Some (set_prev (last_or e xs) (set_next y m))"
    using i3 l i by (cases "xs = []") (simp_all add: h4_def)
  ultimately have "dseg h4 e (xs @ i # y # ys) NULL" by (simp del: dseg.simps(2)) simp
  moreover have "\<exists>c'. load h4 a = Some c' \<and> child_ptr c' = first_or NULL (xs @ i # y # ys)"
    using c i3 l by (cases "xs = []"; cases xs; simp add: h4_def)
  ultimately have "spelled h4 a (xs @ i # y # ys) e" using d i by (simp add: spelled_def)
  moreover have "relinks h h4 a (insert i (set (xs @ y # ys)))"
    unfolding h4_def h3_def using l d i last_in_set [of xs]
    by (cases "xs = []"; simp; intro relinks_step relinks_refl; simp)
  ultimately show ?thesis using r by blast
qed

subsection \<open>Replacing\<close>

lemma bind_Pair: "(x \<bind> (\<lambda>h. Some (c, h))) = map_option (Pair c) x"
  by (cases x) auto

lemma replace_spelled:
  assumes sp: "spelled h a (xs @ i # ys) e" and m: "load h r = Some m" and r: "r \<noteq> a" "r \<notin> set (xs @ i # ys)"
  shows "\<exists>h' n. cJSON_ReplaceItemViaPointer a i r h = map_option (Pair True) (h_delete i h')
    \<and> spelled h' a (xs @ r # ys) e \<and> load h i = Some n \<and> load h' i = Some (unlinked n)
    \<and> relinks h h' a (insert r (set (xs @ i # ys)))"
proof -
  obtain n where n: "load h i = Some n" "prev_ptr n = last_or e xs" "next_ptr n = first_or NULL ys"
    and segs: "dseg h e xs i" "dseg h i ys NULL"
    using sp by (auto simp: spelled_def)
  obtain c where c: "load h a = Some c" "child_ptr c = first_or i xs" using sp by (auto simp: spelled_def)
  have d: "distinct xs" "distinct ys" "set xs \<inter> set ys = {}" "i \<notin> set xs" "i \<notin> set ys" "i \<noteq> a"
    "a \<notin> set xs" "a \<notin> set ys" "r \<noteq> i" "r \<notin> set xs" "r \<notin> set ys"
    using sp r by (auto simp: spelled_def)
  have nz: "a \<noteq> NULL" "i \<noteq> NULL" "r \<noteq> NULL" "NULL \<notin> set xs" "NULL \<notin> set ys"
    using spelled_NULL [OF sp] load_neq_NULL [OF m] by auto
  define h1 where "h1 = upd r (set_prev (last_or e xs)) (upd r (set_next (first_or NULL ys)) h)"
  define h2 where "h2 = (if ys = [] then h1 else upd (hd ys) (set_prev r) h1)"
  define h3 where "h3 = (if xs = [] then upd a (set_kid r) h2 else upd (last xs) (set_next r) h2)"
  define h4 where "h4 = upd i (set_prev NULL) (upd i (set_next NULL) h3)"
  have nxt: "first_or NULL ys = (if ys = [] then NULL else hd ys)" by (cases ys) auto
  have first: "child_ptr c = i \<longleftrightarrow> xs = []" using c(2) d(4) by (cases xs) auto
  have l: "xs \<noteq> [] \<Longrightarrow> last xs \<noteq> i \<and> last xs \<noteq> a \<and> last xs \<noteq> r \<and> load h (last xs) \<noteq> None \<and> last xs \<notin> set ys \<and> last xs \<noteq> NULL"
    using d nz dseg_load [OF segs(1), of "last xs"] last_in_set [of xs] by (auto simp: disjoint_iff dest: load_neq_NULL)
  have y: "ys \<noteq> [] \<Longrightarrow> hd ys \<noteq> i \<and> hd ys \<noteq> a \<and> hd ys \<noteq> r \<and> load h (hd ys) \<noteq> None \<and> hd ys \<notin> set xs \<and> hd ys \<noteq> NULL"
    using d nz dseg_load [OF segs(2), of "hd ys"] list.set_sel(1) [of ys] by (auto simp: disjoint_iff dest: load_neq_NULL)
  let ?m = "set_prev (last_or e xs) (set_next (first_or NULL ys) m)"
  have r2: "load h2 r = Some ?m" "load h2 a = Some c" "load h3 i = Some n" "load h3 r = Some ?m"
    using m n(1) c(1) l y d r by (cases "xs = []"; cases "ys = []"; simp add: h1_def h2_def h3_def)+
  have s1: "store r (set_next (next_ptr n)) h = Some (upd r (set_next (first_or NULL ys)) h)"
    "store r (set_prev (prev_ptr n)) (upd r (set_next (first_or NULL ys)) h) = Some h1"
    using m n by (simp_all add: heap_simps h1_def)
  have s2: "(if next_ptr n \<noteq> NULL then store (next_ptr n) (set_prev r) h1 else Some h1) = Some h2"
    using y n nxt by (cases "ys = []") (auto simp: h2_def h1_def heap_simps)
  have s3: "(if child_ptr c = i then store a (set_kid r) h2
      else if prev_ptr ?m \<noteq> NULL then store (prev_ptr ?m) (set_next r) h2 else Some h2) = Some h3"
    using first l r2 by (cases "xs = []"; cases "ys = []"; simp add: h3_def heap_simps last_or_def) (simp_all add: h2_def h1_def heap_simps)
  have s4: "store i (set_next NULL) h3 = Some (upd i (set_next NULL) h3)"
    "store i (set_prev NULL) (upd i (set_next NULL) h3) = Some h4"
    using r2 by (simp_all add: heap_simps h4_def)
  have run: "cJSON_ReplaceItemViaPointer a i r h = map_option (Pair True) (h_delete i h4)"
    unfolding cJSON_ReplaceItemViaPointer_def using nz d(9)
    by (simp only: n(1) s1 s2 r2 s3 s4 bind.bind_lunit if_False HOL.simp_thms bind_Pair)
  have "dseg h1 e xs i" "dseg h1 i ys NULL" using segs d by (simp_all add: h1_def)
  then have "dseg h2 e xs i" "dseg h2 r ys NULL"
    using y dseg_new_prev [of h1 i ys r] d(2) by (cases "ys = []"; simp add: h2_def)+
  then have "dseg h3 e xs r" "dseg h3 r ys NULL"
    using dseg_new_next [of h2 e xs i r] d(1) l by (cases "xs = []"; simp add: h3_def)+
  then have "dseg h4 e (xs @ r # ys) NULL" using r2 d by (simp add: h4_def)
  moreover have "\<exists>c'. load h4 a = Some c' \<and> child_ptr c' = first_or NULL (xs @ r # ys)"
    using c d r2 l by (cases "xs = []"; cases xs; simp add: h4_def h3_def)
  ultimately have "spelled h4 a (xs @ r # ys) e" using d r by (simp add: spelled_def)
  moreover have "load h4 i = Some (unlinked n)"
    using r2 by (simp add: h4_def set_next_def set_prev_def unlinked_def)
  moreover have "relinks h h4 a (insert r (set (xs @ i # ys)))"
    unfolding h4_def h3_def h2_def h1_def using l y d r last_in_set [of xs] list.set_sel(1) [of ys]
    by (cases "xs = []"; cases "ys = []"; simp; intro relinks_step relinks_refl; simp)
  ultimately show ?thesis using run n(1) by blast
qed

end
