(* ===== verification/JsonLists.thy ===== *)
theory JsonLists
  imports JsonChain
begin

text \<open>
  What the list operations of \<open>JSON/cJSON.c\<close> promise, as contracts: \<open>list_editor\<close> for one edit of
  a child list and \<open>list_builder\<close> for a sequence of them, interpreted by \<open>cJSON_AddItemToArray\<close>,
  \<open>cJSON_InsertItemInArray\<close> and \<open>cJSON_DetachItemViaPointer\<close>; the lookups by name; and the edits
  that break the list.
\<close>

subsection \<open>Names\<close>

definition key :: "heap \<Rightarrow> ptr \<Rightarrow> bytes option" where
  "key h p = do { n \<leftarrow> load h p; if string_ptr n = NULL then None else c_text h (string_ptr n) }"

definition same_name :: "bool \<Rightarrow> bytes \<Rightarrow> bytes \<Rightarrow> bool" where
  "same_name case_sensitive s t \<longleftrightarrow> (if case_sensitive then s = t else map tolower s = map tolower t)"

lemma tolower_0 [simp]: "tolower x = 0 \<longleftrightarrow> x = 0"
proof -
  have "\<forall>y \<in> set (map word_of_nat [0..<256]). tolower y = 0 \<longleftrightarrow> y = 0" by code_simp
  then show ?thesis by (rule all_bytes)
qed

lemma tolower_of_0 [simp]: "tolower 0 = 0" "0 = tolower x \<longleftrightarrow> x = 0"
  using tolower_0 [of 0] tolower_0 [of x] by (auto simp del: tolower_0)

lemma uint_tolower_0 [simp]: "uint (tolower x) = 0 \<longleftrightarrow> x = 0"
  by (simp add: uint_0_iff)

lemma strcmp_fold_same:
  "c_strlen a = Some n \<Longrightarrow> c_strlen b = Some m \<Longrightarrow>
   \<exists>r. strcmp_fold a b = Some r \<and> (r = 0 \<longleftrightarrow> map tolower (take n a) = map tolower (take m b))"
proof (induction a b arbitrary: n m rule: strcmp_fold.induct)
  case (1 x xs y ys)
  then show ?case
    by (cases "x = 0"; cases "y = 0") (auto simp: word_uint_eq_iff [symmetric])
qed auto

lemma name_differs_key:
  assumes "c_text h name = Some s" and "key h p = Some t" and "load h p = Some n" and "name \<noteq> NULL"
  shows "name_differs h name cs n = Some (\<not> same_name cs s t)" and "string_ptr n \<noteq> NULL"
proof -
  show z: "string_ptr n \<noteq> NULL" using assms by (auto simp: key_def split: if_splits)
  from assms obtain a b i j where "texts h name = Some a" "c_strlen a = Some i" "s = take i a"
    "texts h (string_ptr n) = Some b" "c_strlen b = Some j" "t = take j b" "c_text h (string_ptr n) = Some t"
    by (auto simp: key_def c_text_def split: if_splits bind_splits)
  then show "name_differs h name cs n = Some (\<not> same_name cs s t)"
    using z assms strcmp_fold_same [of a i b j]
    by (auto simp: name_differs_def same_name_def case_insensitive_strcmp_def)
qed

definition named :: "heap \<Rightarrow> ptr list \<Rightarrow> bool" where
  "named h ps \<longleftrightarrow> (\<forall>p \<in> set ps. key h p \<noteq> None)"

definition lookup :: "heap \<Rightarrow> bool \<Rightarrow> bytes \<Rightarrow> ptr list \<Rightarrow> ptr" where
  \<comment> \<open>the first item of that name\<close>
  "lookup h cs s ps = (case find (\<lambda>p. same_name cs s (the (key h p))) ps of None \<Rightarrow> NULL | Some p \<Rightarrow> p)"

lemma find_name_dseg:
  "dseg h e ps NULL \<Longrightarrow> named h ps \<Longrightarrow> c_text h name = Some s \<Longrightarrow> name \<noteq> NULL \<Longrightarrow>
   find_name h name cs (first_or NULL ps) = Some (lookup h cs s ps)"
proof (induction ps arbitrary: e)
  case Nil
  then show ?case by (subst find_name.simps) (simp add: lookup_def)
next
  case (Cons p ps)
  from Cons.prems obtain n where n: "load h p = Some n" "next_ptr n = first_or NULL ps" "dseg h p ps NULL" by auto
  obtain t where t: "key h p = Some t" using Cons.prems by (auto simp: named_def)
  note d = name_differs_key(1) [OF Cons.prems(3) t n(1) Cons.prems(4), of cs]
    name_differs_key(2) [OF Cons.prems(3) t n(1) Cons.prems(4)]
  have IH: "find_name h name cs (first_or NULL ps) = Some (lookup h cs s ps)"
    using Cons n by (auto simp: named_def)
  show ?case using load_neq_NULL [OF n(1)] n(1,2) d t IH
    by (subst find_name.simps) (auto simp: lookup_def)
qed

lemma get_object_item_spelled:
  assumes "spelled h a ps e" and "named h ps" and "c_text h name = Some s" and "name \<noteq> NULL"
  shows "get_object_item h a name cs = Some (lookup h cs s ps)"
  using assms find_name_dseg [OF _ assms(2,3,4), of e cs] spelled_NULL(2) [OF assms(1)]
  by (auto simp: get_object_item_def spelled_def)

lemma relinks_key:
  assumes "relinks h h' a A" and "p \<noteq> a"
  shows "key h' p = key h p"
proof -
  have "c_text h' q = c_text h q" for q using relinks_same [OF assms(1)] by (simp add: c_text_def)
  moreover have "map_option string_ptr (load h' p) = map_option string_ptr (load h p)"
  proof -
    have "map_option string_ptr (map_option unlinked (load h' p)) = map_option string_ptr (map_option unlinked (load h p))"
      using relinks_load(1) [OF assms] by simp
    then show ?thesis by (simp add: option.map_comp o_def unlinked_def)
  qed
  ultimately show ?thesis by (cases "load h p"; cases "load h' p"; simp add: key_def)
qed

subsection \<open>The contract of an edit\<close>

locale list_editor =
  fixes edit :: "ptr \<Rightarrow> 'x \<Rightarrow> heap \<Rightarrow> heap option"
    and ready :: "heap \<Rightarrow> ptr \<Rightarrow> ptr list \<Rightarrow> 'x \<Rightarrow> bool"
    and result :: "'x \<Rightarrow> ptr list \<Rightarrow> ptr list"
  assumes edits: "children h a ps \<Longrightarrow> ready h a ps x \<Longrightarrow>
    \<exists>h'. edit a x h = Some h' \<and> children h' a (result x ps) \<and> relinks h h' a (set ps \<union> set (result x ps))"
begin

lemma edit_lookups:
  assumes "children h a ps" and "ready h a ps x"
  obtains h' where "edit a x h = Some h'" "children h' a (result x ps)"
    "cJSON_GetArraySize h' a = Some (sint (of_nat (length (result x ps)) :: u32))"
    "\<And>i. get_array_item h' a i = Some (if i < length (result x ps) then result x ps ! i else NULL)"
    "\<And>p. p \<noteq> a \<Longrightarrow> key h' p = key h p"
    "texts h' = texts h"
proof -
  obtain h' where h': "edit a x h = Some h'" "children h' a (result x ps)"
    "relinks h h' a (set ps \<union> set (result x ps))"
    using edits [OF assms] by blast
  obtain e where "spelled h' a (result x ps) e" using h'(2) children_spelled by blast
  then show thesis
    using h' GetArraySize_spelled get_array_item_spelled relinks_key [OF h'(3)] relinks_same [OF h'(3)] by (intro that [of h']) auto
qed

lemma edit_names:
  assumes "children h a ps" and "ready h a ps x" and "named h (result x ps)" and "c_text h name = Some s" and "name \<noteq> NULL"
  shows "\<exists>h'. edit a x h = Some h' \<and> get_object_item h' a name cs = Some (lookup h cs s (result x ps))"
proof -
  obtain h' where h': "edit a x h = Some h'" "children h' a (result x ps)" "\<And>p. p \<noteq> a \<Longrightarrow> key h' p = key h p"
    "texts h' = texts h"
    using edit_lookups [OF assms(1,2)] by blast
  obtain e where e: "spelled h' a (result x ps) e" using h'(2) children_spelled by blast
  then have k: "\<forall>p \<in> set (result x ps). key h' p = key h p" using h'(3) by (metis spelled_def)
  then have "find (\<lambda>p. same_name cs s (the (key h' p))) (result x ps) = find (\<lambda>p. same_name cs s (the (key h p))) (result x ps)"
    by (intro find_cong) auto
  then have "lookup h' cs s (result x ps) = lookup h cs s (result x ps)"
    by (simp add: lookup_def)
  moreover have "named h' (result x ps)" using assms(3) k by (simp add: named_def)
  ultimately show ?thesis
    using get_object_item_spelled [OF e, of name s cs] h' assms(4,5) by (simp add: c_text_def)
qed

end

fun run_edits :: "(ptr \<Rightarrow> 'x \<Rightarrow> heap \<Rightarrow> heap option) \<Rightarrow> ptr \<Rightarrow> 'x list \<Rightarrow> heap \<Rightarrow> heap option" where
  "run_edits edit a [] h = Some h"
| "run_edits edit a (x # xs) h = do { h \<leftarrow> edit a x h; run_edits edit a xs h }"

locale list_builder = list_editor +
  assumes ready_stays: "children h a ps \<Longrightarrow> ready h a ps x \<Longrightarrow> ready h a ps y \<Longrightarrow> x \<noteq> y \<Longrightarrow>
    edit a x h = Some h' \<Longrightarrow> ready h' a (result x ps) y"
begin

lemma run_edits_children:
  "children h a ps \<Longrightarrow> distinct xs \<Longrightarrow> (\<forall>x \<in> set xs. ready h a ps x) \<Longrightarrow>
   \<exists>h'. run_edits edit a xs h = Some h' \<and> children h' a (fold result xs ps)"
proof (induction xs arbitrary: h ps)
  case (Cons x xs)
  obtain h1 where h1: "edit a x h = Some h1" "children h1 a (result x ps)"
    using edits Cons.prems by (metis list.set_intros(1))
  have "\<forall>y \<in> set xs. ready h1 a (result x ps) y"
    using ready_stays [OF Cons.prems(1) _ _ _ h1(1)] Cons.prems by auto
  then show ?case using Cons.IH [OF h1(2)] Cons.prems h1(1) by auto
qed auto

end

subsection \<open>The edits keep the contract\<close>

interpretation adder: list_builder cJSON_AddItemToArray loose "\<lambda>i ps. ps @ [i]"
proof
  fix h a ps i
  assume "children h a ps" and "loose h a ps i"
  from add_item_children [OF this] show "\<exists>h'. cJSON_AddItemToArray a i h = Some h' \<and> children h' a (ps @ [i])
      \<and> relinks h h' a (set ps \<union> set (ps @ [i]))"
    by (auto simp: cJSON_AddItemToArray_def)
next
  fix h a ps i j h'
  assume h: "children h a ps" "loose h a ps i" "loose h a ps j" "i \<noteq> j" "cJSON_AddItemToArray a i h = Some h'"
  then have r: "relinks h h' a (insert i (set ps))"
    using add_item_children [OF h(1,2)] by (auto simp: cJSON_AddItemToArray_def)
  have "load h' j = load h j" using relinks_load(2) [OF r] h by (auto simp: loose_def)
  then show "loose h' a (ps @ [i]) j" using h by (auto simp: loose_def)
qed

definition insert_at :: "int \<times> ptr \<Rightarrow> ptr list \<Rightarrow> ptr list" where
  "insert_at = (\<lambda>(which, i) ps. take (nat which) ps @ i # drop (nat which) ps)"

definition insertable :: "heap \<Rightarrow> ptr \<Rightarrow> ptr list \<Rightarrow> int \<times> ptr \<Rightarrow> bool" where
  "insertable h a ps = (\<lambda>(which, i). 0 \<le> which \<and> loose h a ps i)"

lemma InsertItem_children:
  assumes "children h a ps" and "insertable h a ps (which, i)"
  shows "\<exists>h'. cJSON_InsertItemInArray a which i h = Some h' \<and> children h' a (insert_at (which, i) ps)
    \<and> relinks h h' a (set ps \<union> set (insert_at (which, i) ps))"
proof (cases "nat which < length ps")
  case True
  define xs where "xs = take (nat which) ps"
  define y where "y = ps ! nat which"
  define ys where "ys = drop (Suc (nat which)) ps"
  have ps: "ps = xs @ y # ys" and which: "which = int (length xs)"
    using True assms(2) id_take_nth_drop [of "nat which" ps] by (auto simp: xs_def y_def ys_def insertable_def)
  obtain e where e: "spelled h a (xs @ y # ys) e" "e = NULL \<or> e = last_or NULL (xs @ y # ys)"
    using assms(1) by (auto simp: children_def ps)
  obtain m where m: "load h i = Some m" "i \<noteq> a" "i \<notin> set (xs @ y # ys)"
    using assms(2) by (auto simp: insertable_def loose_def ps)
  have r: "insert_at (which, i) ps = xs @ i # y # ys" by (simp add: insert_at_def ps which)
  show ?thesis using insert_spelled [OF e(1) m] e(2) unfolding r
    by (auto simp: ps which children_def insert_commute)
next
  case False
  obtain e where "spelled h a ps e" using assms(1) children_spelled by blast
  then have "get_array_item h a (nat which) = Some NULL" using get_array_item_spelled False by simp
  then have "cJSON_InsertItemInArray a which i h = cJSON_AddItemToArray a i h"
    using assms(2) by (simp add: cJSON_InsertItemInArray_def cJSON_AddItemToArray_def insertable_def)
  moreover have "insert_at (which, i) ps = ps @ [i]" using False by (simp add: insert_at_def)
  ultimately show ?thesis using adder.edits assms by (simp add: insertable_def)
qed

interpretation inserter: list_editor "\<lambda>a x. cJSON_InsertItemInArray a (fst x) (snd x)" insertable insert_at
  using InsertItem_children by unfold_locales auto

definition detachable :: "heap \<Rightarrow> ptr \<Rightarrow> ptr list \<Rightarrow> ptr \<Rightarrow> bool" where
  \<comment> \<open>not the last of several, unless \<open>child->prev\<close> is \<open>NULL\<close>\<close>
  "detachable h a ps i \<longleftrightarrow> i \<in> set ps \<and> (i = last ps \<longrightarrow> ps = [i] \<or> spelled h a ps NULL)"

interpretation detacher: list_editor "\<lambda>a i h. map_option snd (cJSON_DetachItemViaPointer a i h)" detachable remove1
proof
  fix h a ps i
  assume h: "children h a ps" "detachable h a ps i"
  obtain xs ys where ps: "ps = xs @ i # ys" using h(2) split_list by (fastforce simp: detachable_def)
  obtain e where e: "spelled h a ps e" "e = NULL \<or> e = last_or NULL ps"
    using h(1) by (auto simp: children_def)
  then have d: "i \<notin> set xs" "remove1 i ps = xs @ ys" by (auto simp: spelled_def ps remove1_append)
  have "\<exists>e'. spelled h a ps e' \<and> (e' = NULL \<or> xs @ ys = [] \<or> e' = last_or NULL (xs @ ys))"
    using e h(2) d ps by (cases ys rule: rev_cases; cases xs) (auto simp: detachable_def)
  then obtain e' where e': "spelled h a (xs @ i # ys) e'" "e' = NULL \<or> xs @ ys = [] \<or> e' = last_or NULL (xs @ ys)"
    unfolding ps by blast
  from detach_spelled [OF e'(1)] obtain h' where h': "cJSON_DetachItemViaPointer a i h = Some (i, h')"
    "spelled h' a (xs @ ys) e'" "relinks h h' a (set (xs @ i # ys))" by blast
  have "children h' a (xs @ ys)"
  proof (cases "xs @ ys = []")
    case True
    then show ?thesis using h'(2) by (auto simp: children_def spelled_def)
  next
    case False
    then show ?thesis using h'(2) e'(2) by (auto simp: children_def)
  qed
  then show "\<exists>h'. map_option snd (cJSON_DetachItemViaPointer a i h) = Some h' \<and> children h' a (remove1 i ps)
      \<and> relinks h h' a (set ps \<union> set (remove1 i ps))"
    using h' d by (auto simp: ps insert_absorb Un_assoc)
qed

subsection \<open>An example store\<close>

definition demo_item :: "ptr \<Rightarrow> ptr \<Rightarrow> ptr \<Rightarrow> u32 \<Rightarrow> ptr \<Rightarrow> node" where
  "demo_item nx pv kid ty str = zero_node\<lparr>next_ptr := nx, prev_ptr := pv, child_ptr := kid, ntype := ty, string_ptr := str\<rparr>"

definition demo :: heap where
  \<comment> \<open>the object 5 with the children 2 (\<open>"a"\<close>) and 3 (\<open>"B"\<close>), as \<open>cJSON_AddItemToObject\<close> leaves it,
     the item 4 (\<open>"c"\<close>) in no list, and the string \<open>"b"\<close> at 14\<close>
  "demo = \<lparr>
     items = [5 \<mapsto> demo_item 0 0 2 cJSON_Object 0, 2 \<mapsto> demo_item 3 3 0 cJSON_True 11,
              3 \<mapsto> demo_item 0 2 0 cJSON_NULL 12, 4 \<mapsto> demo_item 0 0 0 cJSON_False 13],
     texts = [11 \<mapsto> [97, 0], 12 \<mapsto> [66, 0], 13 \<mapsto> [99, 0], 14 \<mapsto> [98, 0]],
     brk = 20, h_ok = (\<lambda>_. True), h_calls = 0\<rparr>"

lemma demo_load: "load demo 5 = Some (demo_item 0 0 2 cJSON_Object 0)" "load demo 2 = Some (demo_item 3 3 0 cJSON_True 11)"
  "load demo 3 = Some (demo_item 0 2 0 cJSON_NULL 12)" "load demo 4 = Some (demo_item 0 0 0 cJSON_False 13)"
  by (simp_all add: demo_def load_def)

lemma demo_sel [simp]: "next_ptr (demo_item nx pv kid ty str) = nx" "prev_ptr (demo_item nx pv kid ty str) = pv"
  "child_ptr (demo_item nx pv kid ty str) = kid" "string_ptr (demo_item nx pv kid ty str) = str"
  by (simp_all add: demo_item_def)

lemma demo_spelled: "spelled demo 5 [2, 3] 3"
  by (simp add: spelled_def demo_load)

lemma demo_children: "children demo 5 [2, 3]"
  unfolding children_def using demo_spelled by auto

lemma demo_loose: "loose demo 5 [2, 3] 4"
  by (simp add: loose_def demo_load)

lemma demo_text: "c_text demo 11 = Some [97]" "c_text demo 12 = Some [66]" "c_text demo 13 = Some [99]" "c_text demo 14 = Some [98]"
  by (simp_all add: c_text_def demo_def)

lemma demo_key: "key demo 2 = Some [97]" "key demo 3 = Some [66]" "key demo 4 = Some [99]"
  by (simp_all add: key_def demo_load demo_text)

subsection \<open>Properties\<close>

text \<open>
  C11: on an object whose members all have a name, \<open>cJSON_GetObjectItem\<close> and its case-sensitive
  variant return the first member of that name (up to the case of ASCII letters for the former),
  \<open>NULL\<close> if there is none, and read no address that holds no object.
\<close>

theorem get_object_item_first:
  assumes "children h object ps" and "named h ps" and "c_text h name = Some s" and "name \<noteq> NULL"
  shows "get_object_item h object name case_sensitive =
    Some (case find (\<lambda>p. same_name case_sensitive s (the (key h p))) ps of None \<Rightarrow> NULL | Some p \<Rightarrow> p)"
  using assms get_object_item_spelled children_spelled unfolding lookup_def by blast

theorem get_object_item_first_witness:
  "get_object_item demo 5 14 False = Some 3 \<and> get_object_item demo 5 14 True = Some NULL"
  using get_object_item_first [OF demo_children _ demo_text(4), of False]
    get_object_item_first [OF demo_children _ demo_text(4), of True]
  by (simp add: named_def demo_key same_name_def tolower_def)

text \<open>
  C9: adding items to a list that is well linked appends them in their order, whatever the length
  of the list and whether the parser, a constructor or earlier additions built it; afterwards
  \<open>cJSON_GetArraySize\<close> and \<open>get_array_item\<close> see the longer list.
\<close>

theorem add_items_append:
  assumes "children h array ps" and "distinct xs" and "\<forall>x \<in> set xs. loose h array ps x"
  shows "\<exists>h'. run_edits cJSON_AddItemToArray array xs h = Some h' \<and> children h' array (ps @ xs)
    \<and> cJSON_GetArraySize h' array = Some (sint (of_nat (length ps + length xs) :: u32))
    \<and> (\<forall>i. get_array_item h' array i = Some (if i < length (ps @ xs) then (ps @ xs) ! i else NULL))"
proof -
  have f: "fold (\<lambda>i ps. ps @ [i]) xs ps = ps @ xs" for xs and ps :: "ptr list"
    by (induction xs arbitrary: ps) auto
  obtain h' where h': "run_edits cJSON_AddItemToArray array xs h = Some h'" "children h' array (ps @ xs)"
    using adder.run_edits_children [OF assms] f by auto
  obtain e where "spelled h' array (ps @ xs) e" using children_spelled [OF h'(2)] by blast
  then show ?thesis using h' GetArraySize_spelled get_array_item_spelled by fastforce
qed

theorem add_items_append_witness:
  "\<exists>h'. run_edits cJSON_AddItemToArray 5 [4] demo = Some h' \<and> children h' 5 ([2, 3] @ [4])
    \<and> cJSON_GetArraySize h' 5 = Some (sint (of_nat (length [2 :: nat, 3] + length [4 :: nat]) :: u32))
    \<and> (\<forall>i. get_array_item h' 5 i = Some (if i < length ([2, 3] @ [4 :: nat]) then ([2, 3] @ [4]) ! i else NULL))"
  by (rule add_items_append [OF demo_children]) (simp_all add: demo_loose)

text \<open>
  C12: \<open>cJSON_InsertItemInArray\<close> puts the new item in front of the one at the index, at the end
  when the index is past it, and changes nothing but list pointers; lookups by name then see
  the new list.
\<close>

theorem insert_item_at:
  assumes "children h array ps" and "0 \<le> which" and "loose h array ps i"
  shows "\<exists>h'. cJSON_InsertItemInArray array which i h = Some h'
    \<and> children h' array (take (nat which) ps @ i # drop (nat which) ps)
    \<and> (\<forall>name s case_sensitive. named h (i # ps) \<and> c_text h name = Some s \<and> name \<noteq> NULL \<longrightarrow>
         get_object_item h' array name case_sensitive
           = Some (lookup h case_sensitive s (take (nat which) ps @ i # drop (nat which) ps)))"
proof -
  have r: "insertable h array ps (which, i)" using assms by (simp add: insertable_def)
  obtain h' where h': "cJSON_InsertItemInArray array which i h = Some h'" "children h' array (insert_at (which, i) ps)"
    using inserter.edits [OF assms(1) r] by auto
  have "named h (insert_at (which, i) ps)" if "named h (i # ps)"
    using that set_take_subset [of "nat which" ps] set_drop_subset [of "nat which" ps]
    by (auto simp: named_def insert_at_def)
  then show ?thesis using h' inserter.edit_names [OF assms(1) r] by (fastforce simp: insert_at_def)
qed

theorem insert_item_at_witness:
  "\<exists>h'. cJSON_InsertItemInArray 5 1 4 demo = Some h' \<and> children h' 5 [2, 4, 3]
     \<and> get_object_item h' 5 14 False = Some 3"
proof -
  obtain h' where "cJSON_InsertItemInArray 5 1 4 demo = Some h'" "children h' 5 [2, 4, 3]"
    "get_object_item h' 5 14 False = Some (lookup demo False [98] [2, 4, 3])"
    using insert_item_at [OF demo_children _ demo_loose, of 1] demo_text(4)
    by (auto simp: named_def demo_key)
  moreover have "lookup demo False [98] [2, 4, 3] = 3"
    by (simp add: lookup_def demo_key same_name_def tolower_def)
  ultimately show ?thesis by auto
qed

text \<open>
  C13: \<open>cJSON_DetachItemViaPointer\<close> takes the item out of a well linked list and keeps the list well
  linked, provided the item is not the last of several in a list whose \<open>child->prev\<close> is set.
\<close>

theorem detach_item:
  assumes "children h parent ps" and "detachable h parent ps i"
  shows "\<exists>h'. map_option snd (cJSON_DetachItemViaPointer parent i h) = Some h'
    \<and> children h' parent (remove1 i ps) \<and> texts h' = texts h
    \<and> (\<forall>p. p \<noteq> parent \<and> p \<notin> set ps \<longrightarrow> load h' p = load h p)"
proof -
  obtain h' where h': "map_option snd (cJSON_DetachItemViaPointer parent i h) = Some h'"
    "children h' parent (remove1 i ps)" "relinks h h' parent (set ps \<union> set (remove1 i ps))"
    using detacher.edits [OF assms] by blast
  then show ?thesis using relinks_same(1) [OF h'(3)] relinks_load(2) [OF h'(3)] set_remove1_subset [of i ps] by auto
qed

theorem detach_item_witness:
  "\<exists>h'. map_option snd (cJSON_DetachItemViaPointer 5 2 demo) = Some h'
    \<and> children h' 5 [3] \<and> texts h' = texts demo \<and> (\<forall>p. p \<noteq> 5 \<and> p \<notin> set [2, 3] \<longrightarrow> load h' p = load demo p)"
  using detach_item [OF demo_children, of 2] by (simp add: detachable_def)

text \<open>
  The exception is real.  After the last of several items is detached from a list that
  \<open>cJSON_AddItemToArray\<close> built, \<open>child->prev\<close> still names it, and the next addition links the new
  item behind the detached one: it reports success, and the array does not contain it.
\<close>

lemma detach_last_loses_next_item:
  assumes "spelled h array (ps @ [l]) l" and "ps \<noteq> []" and "loose h array (ps @ [l]) i"
  shows "\<exists>h1 h2 e n. cJSON_DetachItemViaPointer array l h = Some (l, h1)
    \<and> add_item_to_array array i h1 = Some (True, h2)
    \<and> spelled h2 array ps e \<and> i \<notin> set ps \<and> load h2 l = Some n \<and> next_ptr n = i"
proof -
  obtain h1 n where h1: "cJSON_DetachItemViaPointer array l h = Some (l, h1)" "spelled h1 array ps l"
    "load h1 l = Some (unlinked n)" "relinks h h1 array (set (ps @ [l]))"
    using detach_spelled [of h array ps l "[]" l] assms(1) by auto
  obtain p qs where ps: "ps = p # qs" using assms(2) by (cases ps) auto
  obtain m where m: "load h1 i = Some m" using assms(3) relinks_load(2) [OF h1(4), of i] by (auto simp: loose_def)
  have "\<exists>h2. add_item_to_array array i h1 = Some (True, h2) \<and> spelled h2 array (p # qs) i
      \<and> (\<exists>k. load h2 l = Some k \<and> next_ptr k = i)"
    using h1(2,3) assms(1,3) ps m by (intro add_item_stale) (auto simp: spelled_def loose_def)
  then show ?thesis using h1(1) assms(3) ps by (auto simp: loose_def)
qed

theorem detach_last_loses_next_item_witness:
  "\<exists>h1 h2 e n. cJSON_DetachItemViaPointer 5 3 demo = Some (3, h1)
    \<and> add_item_to_array 5 4 h1 = Some (True, h2)
    \<and> spelled h2 5 [2] e \<and> 4 \<notin> set [2 :: ptr] \<and> load h2 3 = Some n \<and> next_ptr n = 4"
  by (rule detach_last_loses_next_item) (use demo_spelled demo_loose in simp_all)

end
