(* ===== verification/JsonOwn.thy ===== *)
theory JsonOwn
  imports JsonLists
begin

text \<open>
  Ownership in \<open>JSON/cJSON.c\<close>: the tree of items and character blocks an item owns, as a datatype
  with the addresses (\<open>tree\<close>), and what \<open>cJSON_Delete\<close>, \<open>cJSON_ReplaceItemViaPointer\<close> and the array
  constructors do to it.  \<open>shape\<close> forgets the addresses and gives the items of \<open>JsonBase\<close>.
\<close>

unbundle bit_operations_syntax

subsection \<open>Trees in the store\<close>

datatype tree = Tree (root: ptr) (tnode: node) (kids: "tree list")

definition own_texts :: "node \<Rightarrow> ptr list" where
  "own_texts n =
     (if \<not> n_reference n \<and> valuestring_ptr n \<noteq> NULL then [valuestring_ptr n] else []) @
     (if \<not> n_const_key n \<and> string_ptr n \<noteq> NULL then [string_ptr n] else [])"

fun tree_items :: "tree \<Rightarrow> ptr list" where
  "tree_items (Tree p n ts) = p # concat (map tree_items ts)"

fun tree_texts :: "tree \<Rightarrow> ptr list" where
  "tree_texts (Tree p n ts) = own_texts n @ concat (map tree_texts ts)"

fun in_chain :: "tree list \<Rightarrow> bool" where
  "in_chain [] \<longleftrightarrow> True"
| "in_chain (t # ts) \<longleftrightarrow> next_ptr (tnode t) = first_or NULL (map root ts) \<and> in_chain ts"

fun stored :: "heap \<Rightarrow> tree \<Rightarrow> bool" where
  "stored h (Tree p n ts) \<longleftrightarrow> load h p = Some n \<and> in_chain ts
     \<and> (if n_reference n then ts = [] else child_ptr n = first_or NULL (map root ts))
     \<and> (\<forall>q \<in> set (own_texts n). texts h q \<noteq> None) \<and> (\<forall>t \<in> set ts. stored h t)"

abbreviation "all_items ts \<equiv> concat (map tree_items ts)"
abbreviation "all_texts ts \<equiv> concat (map tree_texts ts)"

definition erase :: "ptr set \<Rightarrow> ptr set \<Rightarrow> heap \<Rightarrow> heap" where
  "erase I T h = h\<lparr>items := (\<lambda>p. if p \<in> I then None else items h p),
                   texts := (\<lambda>p. if p \<in> T then None else texts h p)\<rparr>"

lemma erase_erase [simp]: "erase I T (erase I' T' h) = erase (I \<union> I') (T \<union> T') h"
  by (auto simp: erase_def fun_eq_iff intro!: heap.equality)

lemma erase_nothing [simp]: "erase {} {} h = h"
  by (simp add: erase_def)

lemma load_erase: "load (erase I T h) p = (if p \<in> I then None else load h p)"
  by (simp add: load_def erase_def)

lemma texts_erase: "texts (erase I T h) p = (if p \<in> T then None else texts h p)"
  by (simp add: erase_def)

lemma free_text_erase: "texts h p \<noteq> None \<Longrightarrow> free_text p h = Some (erase {} {p} h)"
  by (auto simp: free_text_def erase_def fun_eq_iff intro!: heap.equality)

lemma free_item_erase: "load h p \<noteq> None \<Longrightarrow> free_item p h = Some (erase {p} {} h)"
  by (auto simp: free_item_def erase_def fun_eq_iff intro!: heap.equality)

lemma stored_erase:
  "stored h t \<Longrightarrow> set (tree_items t) \<inter> I = {} \<Longrightarrow> set (tree_texts t) \<inter> T = {} \<Longrightarrow> stored (erase I T h) t"
proof (induction t)
  case (Tree p n ts)
  have "stored (erase I T h) t" if "t \<in> set ts" for t
    using Tree that by (intro Tree.IH) auto
  then show ?case using Tree.prems by (auto simp: load_erase texts_erase disjoint_iff)
qed

lemma root_in_items: "root t \<in> set (tree_items t)"
  by (cases t) simp

lemma stored_root: "stored h t \<Longrightarrow> load h (root t) = Some (tnode t)"
  by (cases t) simp

subsection \<open>Deleting\<close>

lemma delete_texts:
  assumes "\<forall>q \<in> set (own_texts n). texts h q \<noteq> None" and "distinct (own_texts n)"
  shows "do {
      h \<leftarrow> (if \<not> n_reference n \<and> valuestring_ptr n \<noteq> NULL then free_text (valuestring_ptr n) h else Some h);
      (if \<not> n_const_key n \<and> string_ptr n \<noteq> NULL then free_text (string_ptr n) h else Some h) }
    = Some (erase {} (set (own_texts n)) h)"
  using assms by (auto simp: own_texts_def free_text_erase texts_erase insert_commute)

lemma h_delete_chain:
  "in_chain ts \<Longrightarrow> \<forall>t \<in> set ts. stored h t \<Longrightarrow> distinct (all_items ts) \<Longrightarrow> distinct (all_texts ts) \<Longrightarrow>
   h_delete (first_or NULL (map root ts)) h = Some (erase (set (all_items ts)) (set (all_texts ts)) h)"
proof (induction ts arbitrary: h rule: measure_induct_rule [of "size_list size"])
  case (less ts)
  show ?case
  proof (cases ts)
    case Nil
    then show ?thesis by (subst h_delete.simps) simp
  next
    case (Cons t rest)
    obtain p n cs where t: "t = Tree p n cs" by (cases t)
    note prems = less.prems [unfolded Cons t, simplified]
    have p: "load h p = Some n" "p \<noteq> NULL" using prems load_neq_NULL by auto
    define hc where "hc = (if n_reference n then h else erase (set (all_items cs)) (set (all_texts cs)) h)"
    have kids: "(if \<not> n_reference n \<and> child_ptr n \<noteq> NULL then h_delete (child_ptr n) h else Some h) = Some hc"
    proof (cases "n_reference n \<or> cs = []")
      case True
      then show ?thesis using prems by (auto simp: hc_def)
    next
      case False
      then have "h_delete (first_or NULL (map root cs)) h = Some (erase (set (all_items cs)) (set (all_texts cs)) h)"
        using prems by (intro less.IH) (auto simp: Cons t)
      moreover have "first_or NULL (map root cs) \<noteq> NULL"
      proof -
        obtain c cs' where "cs = c # cs'" using False by (cases cs) auto
        then show ?thesis using prems False stored_root [of h c] load_neq_NULL by fastforce
      qed
      ultimately show ?thesis using False prems by (simp add: hc_def)
    qed
    have hc: "hc = erase (set (all_items cs)) (set (all_texts cs)) h" using prems by (auto simp: hc_def)
    let ?h2 = "erase {} (set (own_texts n)) hc"
    have texts: "do {
        h \<leftarrow> (if \<not> n_reference n \<and> valuestring_ptr n \<noteq> NULL then free_text (valuestring_ptr n) hc else Some hc);
        (if \<not> n_const_key n \<and> string_ptr n \<noteq> NULL then free_text (string_ptr n) h else Some h) } = Some ?h2"
      using prems by (intro delete_texts) (auto simp: hc texts_erase disjoint_iff)
    have item: "free_item p ?h2 = Some (erase {p} {} ?h2)"
      using prems p by (intro free_item_erase) (simp add: hc load_erase)
    let ?h3 = "erase {p} {} ?h2"
    have "h_delete (first_or NULL (map root rest)) ?h3 = Some (erase (set (all_items rest)) (set (all_texts rest)) ?h3)"
    proof (intro less.IH)
      show "\<forall>t \<in> set rest. stored ?h3 t"
      proof
        fix r assume "r \<in> set rest"
        then show "stored ?h3 r" using prems unfolding hc
          by (simp only: erase_erase) (intro stored_erase; fastforce simp: disjoint_iff)
      qed
    qed (use prems in \<open>auto simp: Cons\<close>)
    moreover have "h_delete p h = do {
        h \<leftarrow> (if \<not> n_reference n \<and> child_ptr n \<noteq> NULL then h_delete (child_ptr n) h else Some h);
        h \<leftarrow> do {
          h \<leftarrow> (if \<not> n_reference n \<and> valuestring_ptr n \<noteq> NULL then free_text (valuestring_ptr n) h else Some h);
          (if \<not> n_const_key n \<and> string_ptr n \<noteq> NULL then free_text (string_ptr n) h else Some h) };
        h \<leftarrow> free_item p h;
        h_delete (next_ptr n) h }"
      using p by (subst h_delete.simps) (simp add: Option.bind_assoc)
    moreover have "next_ptr n = first_or NULL (map root rest)" using prems by simp
    ultimately have "h_delete p h = Some (erase (set (all_items rest)) (set (all_texts rest)) ?h3)"
      by (simp only: kids texts item bind.bind_lunit)
    also have "\<dots> = Some (erase (set (all_items ts)) (set (all_texts ts)) h)"
      unfolding hc by (simp add: Cons t) (intro arg_cong2 [of _ _ _ _ "\<lambda>A B. erase A B h"]; auto)
    finally show ?thesis by (simp add: Cons t)
  qed
qed

definition text_at :: "heap \<Rightarrow> ptr \<Rightarrow> bytes option" where
  "text_at h q = (if q = NULL then None else map_option string_of_buf (texts h q))"

fun shape :: "heap \<Rightarrow> tree \<Rightarrow> cJSON" where
  "shape h (Tree p n ts) = CJ (ntype n) (text_at h (valuestring_ptr n)) (nvalueint n) (nvaluedouble n)
     (text_at h (string_ptr n)) (map (shape h) ts)"

lemma blocks_shape:
  "stored h t \<Longrightarrow> blocks (shape h t) = int (length (tree_items t)) + int (length (tree_texts t))"
proof (induction t)
  case (Tree p n ts)
  have l: "blocks_list (map (shape h) us) = int (length (all_items us)) + int (length (all_texts us))" if "set us \<subseteq> set ts" for us
    using that Tree by (induction us) auto
  from Tree.prems l [of ts] show ?case
    by (auto simp: is_reference_def is_const_key_def n_reference_def n_const_key_def own_texts_def text_at_def)
qed

definition separate :: "tree \<Rightarrow> bool" where
  "separate t \<longleftrightarrow> distinct (tree_items t) \<and> distinct (tree_texts t)"

lemma h_delete_tree:
  assumes "stored h t" and "next_ptr (tnode t) = NULL" and "separate t"
  shows "h_delete (root t) h = Some (erase (set (tree_items t)) (set (tree_texts t)) h)"
  using h_delete_chain [of "[t]" h] assms by (simp add: separate_def)

subsection \<open>Edits and ownership\<close>

lemma dseg_erase: "set ps \<inter> I = {} \<Longrightarrow> dseg (erase I T h) e ps z \<longleftrightarrow> dseg h e ps z"
  by (induction ps arbitrary: e) (auto simp: load_erase)

lemma spelled_erase: "a \<notin> I \<Longrightarrow> set ps \<inter> I = {} \<Longrightarrow> spelled (erase I T h) a ps e \<longleftrightarrow> spelled h a ps e"
  by (simp add: spelled_def dseg_erase load_erase)

lemma stored_relinks:
  assumes "relinks h h' a A"
  shows "stored h t \<Longrightarrow> a \<notin> set (tree_items t) \<Longrightarrow> set (tree_items t) \<inter> A = {} \<Longrightarrow> stored h' t"
proof (induction t)
  case (Tree p n ts)
  have "stored h' t" if "t \<in> set ts" for t
    using Tree that by (intro Tree.IH) auto
  then show ?case
    using Tree.prems relinks_load(2) [OF assms, of p] relinks_same(1) [OF assms] by auto
qed

lemma own_texts_unlinked [simp]: "own_texts (unlinked n) = own_texts n" "n_reference (unlinked n) = n_reference n"
  "child_ptr (unlinked n) = child_ptr n" "next_ptr (unlinked n) = NULL" "prev_ptr (unlinked n) = NULL"
  by (simp_all add: own_texts_def unlinked_def n_reference_def n_const_key_def)

lemma delete_unlinked:
  \<comment> \<open>deleting an item that an edit has just taken out of its list\<close>
  assumes t: "stored h t" "separate t" "root t = i" and d: "set (all_items (kids t)) \<inter> insert a A = {}"
    and r: "relinks h h' a A" and u: "load h' i = Some (unlinked (tnode t))"
  shows "h_delete i h' = Some (erase (set (tree_items t)) (set (tree_texts t)) h')"
proof -
  obtain n cs where cs: "t = Tree i n cs" using t(3) by (cases t) auto
  have "\<forall>c \<in> set cs. stored h' c" using t(1) d cs by (auto intro!: stored_relinks [OF r])
  then have "stored h' (Tree i (unlinked n) cs)"
    using t(1) u cs relinks_same(1) [OF r] by simp
  moreover have "separate (Tree i (unlinked n) cs)" using t(2) cs by (simp add: separate_def)
  ultimately show ?thesis
    using h_delete_tree [of h' "Tree i (unlinked n) cs"] cs by (cases "n_reference n") simp_all
qed

definition owned_child :: "heap \<Rightarrow> ptr \<Rightarrow> ptr list \<Rightarrow> ptr \<Rightarrow> tree \<Rightarrow> bool" where
  \<comment> \<open>the item \<open>i\<close> of the list is the root of \<open>t\<close>, and \<open>t\<close> shares nothing with the list\<close>
  "owned_child h a ps i t \<longleftrightarrow> i \<in> set ps \<and> stored h t \<and> separate t \<and> root t = i
     \<and> set (all_items (kids t)) \<inter> insert a (set ps) = {}"

lemma tree_items_root: "set (tree_items t) = insert (root t) (set (all_items (kids t)))"
  by (cases t) simp

lemma replace_run:
  assumes sp: "spelled h a (xs @ i # ys) e" and t: "owned_child h a (xs @ i # ys) i t"
    and r: "loose h a (xs @ i # ys) r" "r \<notin> set (tree_items t)"
  shows "\<exists>h'. cJSON_ReplaceItemViaPointer a i r h = Some (True, h') \<and> spelled h' a (xs @ r # ys) e
    \<and> (\<forall>p \<in> set (tree_items t). load h' p = None) \<and> (\<forall>q \<in> set (tree_texts t). texts h' q = None)
    \<and> (\<forall>q. q \<notin> set (tree_texts t) \<longrightarrow> texts h' q = texts h q)
    \<and> (\<forall>p. p \<notin> set (tree_items t) \<union> insert a (insert r (set (xs @ i # ys))) \<longrightarrow> load h' p = load h p)
    \<and> (\<forall>p. p \<noteq> a \<and> p \<notin> set (tree_items t) \<longrightarrow> load h p \<noteq> None \<longrightarrow> load h' p \<noteq> None)"
proof -
  obtain m where m: "load h r = Some m" "r \<noteq> a" "r \<notin> set (xs @ i # ys)" using r by (auto simp: loose_def)
  from replace_spelled [OF sp m] obtain h1 n where
    run: "cJSON_ReplaceItemViaPointer a i r h = map_option (Pair True) (h_delete i h1)"
    and h1: "spelled h1 a (xs @ r # ys) e" "load h i = Some n" "load h1 i = Some (unlinked n)"
      "relinks h h1 a (insert r (set (xs @ i # ys)))" by blast
  have n: "tnode t = n" using t h1(2) stored_root [of h t] by (auto simp: owned_child_def)
  let ?I = "set (tree_items t)" and ?T = "set (tree_texts t)"
  have "set (all_items (kids t)) \<inter> insert a (insert r (set (xs @ i # ys))) = {}"
    using t r(2) unfolding owned_child_def tree_items_root by blast
  then have del: "h_delete i h1 = Some (erase ?I ?T h1)"
    using t h1 n by (intro delete_unlinked [OF _ _ _ _ h1(4)]) (simp_all add: owned_child_def)
  have I: "?I \<inter> insert a (set (xs @ r # ys)) = {}"
    using t r sp unfolding owned_child_def tree_items_root spelled_def by auto
  have "spelled (erase ?I ?T h1) a (xs @ r # ys) e"
    using h1(1) I by (subst spelled_erase) auto
  moreover have "load (erase ?I ?T h1) p = load h p"
    if "p \<notin> ?I \<union> insert a (insert r (set (xs @ i # ys)))" for p
    using that relinks_load(2) [OF h1(4), of p] by (simp add: load_erase)
  moreover have "load (erase ?I ?T h1) p \<noteq> None" if "p \<noteq> a" "p \<notin> ?I" "load h p \<noteq> None" for p
    using that relinks_load(1) [OF h1(4), of p] by (auto simp: load_erase)
  ultimately show ?thesis
    using run del relinks_same(1) [OF h1(4)] by (auto simp: load_erase texts_erase)
qed

lemma delete_last_run:
  assumes sp: "spelled h a (xs @ i # ys) e" and t: "owned_child h a (xs @ i # ys) i t"
  shows "\<exists>h'. cJSON_DeleteItemFromArray a (int (length xs)) h = Some h' \<and> spelled h' a (xs @ ys) e
    \<and> (\<forall>p \<in> set (tree_items t). load h' p = None) \<and> (\<forall>q \<in> set (tree_texts t). texts h' q = None)
    \<and> (\<forall>q. q \<notin> set (tree_texts t) \<longrightarrow> texts h' q = texts h q)
    \<and> (\<forall>p. p \<notin> set (tree_items t) \<union> insert a (set (xs @ i # ys)) \<longrightarrow> load h' p = load h p)"
proof -
  from detach_spelled [OF sp] obtain h1 n where
    run: "cJSON_DetachItemViaPointer a i h = Some (i, h1)"
    and h1: "spelled h1 a (xs @ ys) e" "load h i = Some n" "load h1 i = Some (unlinked n)"
      "relinks h h1 a (set (xs @ i # ys))" by blast
  have n: "tnode t = n" using t h1(2) stored_root [of h t] by (auto simp: owned_child_def)
  let ?I = "set (tree_items t)" and ?T = "set (tree_texts t)"
  have del: "h_delete i h1 = Some (erase ?I ?T h1)"
    using t h1 n by (intro delete_unlinked [OF _ _ _ _ h1(4)]) (simp_all add: owned_child_def)
  have "get_array_item h a (length xs) = Some i" using get_array_item_spelled [OF sp] by simp
  then have "cJSON_DeleteItemFromArray a (int (length xs)) h = Some (erase ?I ?T h1)"
    using run del by (simp add: cJSON_DeleteItemFromArray_def cJSON_DetachItemFromArray_def)
  moreover have "?I \<inter> insert a (set (xs @ ys)) = {}"
    using t sp unfolding owned_child_def tree_items_root spelled_def by auto
  then have "spelled (erase ?I ?T h1) a (xs @ ys) e" using h1(1) by (subst spelled_erase) auto
  moreover have "load (erase ?I ?T h1) p = load h p" if "p \<notin> ?I \<union> insert a (set (xs @ i # ys))" for p
    using that relinks_load(2) [OF h1(4), of p] by (simp add: load_erase)
  ultimately show ?thesis
    using relinks_same(1) [OF h1(4)] by (auto simp: load_erase texts_erase)
qed

lemma add_item_dangling:
  \<comment> \<open>\<open>child->prev\<close> names a freed item\<close>
  assumes "spelled h a ps e" and "ps \<noteq> []" and "load h e = None" and "e \<noteq> NULL"
  shows "add_item_to_array a i h = (if i = NULL then Some (False, h) else None)"
proof -
  obtain p qs where ps: "ps = p # qs" using assms(2) by (cases ps) auto
  obtain n c where "load h a = Some n" "child_ptr n = p" "load h p = Some c" "prev_ptr c = e" "p \<noteq> NULL" "a \<noteq> NULL"
    using assms(1) spelled_NULL [OF assms(1)] by (auto simp: spelled_def ps)
  then show ?thesis using assms(3,4)
    by (auto simp: add_item_to_array_def suffix_object_def store_def)
qed

subsection \<open>Properties of deleting and replacing\<close>

text \<open>
  C8: \<open>cJSON_Delete\<close> of an item in no list returns after it has freed every item and every
  character block the item owns, each once, and nothing else; the number of frees is the one that
  the tree model counts.
\<close>

theorem cJSON_Delete_frees_tree:
  assumes "stored h t" and "next_ptr (tnode t) = NULL" and "separate t"
  shows "h_delete (root t) h = Some (erase (set (tree_items t)) (set (tree_texts t)) h)
    \<and> live (cJSON_Delete (shape h t) m)
        = live m - int (card (set (tree_items t)) + card (set (tree_texts t)))"
  using h_delete_tree [OF assms] assms
  by (simp add: delete_frees blocks_shape separate_def distinct_card)

definition demo_tree :: tree where
  "demo_tree = Tree 5 (demo_item 0 0 2 cJSON_Object 0)
     [Tree 2 (demo_item 3 3 0 cJSON_True 11) [], Tree 3 (demo_item 0 2 0 cJSON_NULL 12) []]"

lemma demo_types: "\<not> n_reference (demo_item nx pv kid ty str) \<longleftrightarrow> ty AND cJSON_IsReference = 0"
  "\<not> n_const_key (demo_item nx pv kid ty str) \<longleftrightarrow> ty AND cJSON_StringIsConst = 0"
  "valuestring_ptr (demo_item nx pv kid ty str) = NULL"
  by (simp_all add: n_reference_def n_const_key_def demo_item_def zero_node_def)

lemma demo_own: "own_texts (demo_item 0 0 2 cJSON_Object 0) = []" "own_texts (demo_item 3 3 0 cJSON_True 11) = [11]"
  "own_texts (demo_item 0 2 0 cJSON_NULL 12) = [12]" "\<not> n_reference (demo_item 0 0 2 cJSON_Object 0)"
  "\<not> n_reference (demo_item 3 3 0 cJSON_True 11)" "\<not> n_reference (demo_item 0 2 0 cJSON_NULL 12)"
  by (simp_all add: own_texts_def demo_types cJSON_types)

lemma demo_stored: "stored demo demo_tree" "separate demo_tree"
  by (simp_all add: demo_tree_def demo_load demo_own separate_def) (simp_all add: demo_def)

theorem cJSON_Delete_frees_tree_witness:
  "h_delete 5 demo = Some (erase {2, 3, 5} {11, 12} demo)"
  using cJSON_Delete_frees_tree [OF demo_stored(1) _ demo_stored(2)]
  by (simp add: demo_tree_def demo_own insert_commute)

text \<open>
  C14: \<open>cJSON_ReplaceItemViaPointer\<close> puts the replacement in the item's place in a well linked list
  and frees exactly what the item owned, provided the item is not the last of a list whose
  \<open>child->prev\<close> is set.
\<close>

theorem replace_item:
  assumes "children h parent ps" and "i \<noteq> last ps \<or> spelled h parent ps NULL" and "owned_child h parent ps i t"
    and "loose h parent ps r" and "r \<notin> set (tree_items t)"
  shows "\<exists>h'. cJSON_ReplaceItemViaPointer parent i r h = Some (True, h')
    \<and> children h' parent (map (\<lambda>p. if p = i then r else p) ps)
    \<and> (\<forall>p \<in> set (tree_items t). load h' p = None) \<and> (\<forall>q \<in> set (tree_texts t). texts h' q = None)
    \<and> (\<forall>q. q \<notin> set (tree_texts t) \<longrightarrow> texts h' q = texts h q)
    \<and> (\<forall>p. p \<notin> set (tree_items t) \<union> insert parent (insert r (set ps)) \<longrightarrow> load h' p = load h p)"
proof -
  have "i \<in> set ps" using assms(3) by (simp add: owned_child_def)
  then obtain xs ys where ps: "ps = xs @ i # ys" by (auto dest: split_list)
  obtain e where e: "spelled h parent ps e" "e = NULL \<or> e = last ps \<and> ys \<noteq> []"
    using assms(1,2) ps by (auto simp: children_def last_or_def split: if_splits)
  have m: "map (\<lambda>p. if p = i then r else p) ps = xs @ r # ys"
    using e(1) by (auto simp: ps spelled_def intro: map_idI)
  have "e = NULL \<or> e = last_or NULL (xs @ r # ys)" using e(2) ps by (auto simp: last_or_def)
  then show ?thesis
    using replace_run [OF e(1) [unfolded ps] assms(3,4) [unfolded ps] assms(5)]
    unfolding m unfolding children_def unfolding ps by blast
qed

theorem replace_item_witness:
  "\<exists>h'. cJSON_ReplaceItemViaPointer 5 2 4 demo = Some (True, h') \<and> children h' 5 [4, 3]
    \<and> load h' 2 = None \<and> texts h' 11 = None"
proof -
  have "owned_child demo 5 [2, 3] 2 (Tree 2 (demo_item 3 3 0 cJSON_True 11) [])"
    using demo_stored by (auto simp: owned_child_def demo_tree_def separate_def demo_own)
  from replace_item [OF demo_children _ this demo_loose] show ?thesis by (auto simp: demo_own)
qed

text \<open>
  C15: that exception is real too.  When the last item of a list that \<open>cJSON_AddItemToArray\<close> built is
  replaced or deleted, \<open>child->prev\<close> keeps the address of the freed item, and the next
  \<open>cJSON_AddItemToArray\<close> writes through it.
\<close>

theorem replace_last_then_add_uses_freed:
  assumes "spelled h array (ps @ [l]) l" and "ps \<noteq> []" and "owned_child h array (ps @ [l]) l t"
    and "loose h array (ps @ [l]) r" and "r \<notin> set (tree_items t)" and "i \<noteq> NULL"
  shows "(\<exists>h1. cJSON_ReplaceItemViaPointer array l r h = Some (True, h1) \<and> cJSON_AddItemToArray array i h1 = None)
    \<and> (\<exists>h1. cJSON_DeleteItemFromArray array (int (length ps)) h = Some h1 \<and> cJSON_AddItemToArray array i h1 = None)"
proof -
  have l: "l \<noteq> NULL" "l \<in> set (tree_items t)"
    using spelled_NULL(1) [OF assms(1)] assms(3) root_in_items by (auto simp: owned_child_def)
  obtain h1 where h1: "cJSON_ReplaceItemViaPointer array l r h = Some (True, h1)" "spelled h1 array (ps @ [r]) l" "load h1 l = None"
    using replace_run [OF assms(1,3-5)] l(2) by blast
  have a1: "cJSON_AddItemToArray array i h1 = None"
    using add_item_dangling [OF h1(2) _ h1(3) l(1), of i] assms(6) by (simp add: cJSON_AddItemToArray_def)
  obtain h2 where h2: "cJSON_DeleteItemFromArray array (int (length ps)) h = Some h2" "spelled h2 array ps l" "load h2 l = None"
    using delete_last_run [OF assms(1,3)] l(2) by auto
  have "cJSON_AddItemToArray array i h2 = None"
    using add_item_dangling [OF h2(2) assms(2) h2(3) l(1), of i] assms(6) by (simp add: cJSON_AddItemToArray_def)
  with h1(1) a1 h2(1) show ?thesis by blast
qed

theorem replace_last_then_add_uses_freed_witness:
  "(\<exists>h1. cJSON_ReplaceItemViaPointer 5 3 4 demo = Some (True, h1) \<and> cJSON_AddItemToArray 5 9 h1 = None)
    \<and> (\<exists>h1. cJSON_DeleteItemFromArray 5 1 demo = Some h1 \<and> cJSON_AddItemToArray 5 9 h1 = None)"
proof -
  have "owned_child demo 5 ([2] @ [3]) 3 (Tree 3 (demo_item 0 2 0 cJSON_NULL 12) [])"
    using demo_stored by (auto simp: owned_child_def demo_tree_def separate_def demo_own)
  from replace_last_then_add_uses_freed [OF _ _ this, of 4 9] show ?thesis
    using demo_spelled demo_loose by simp
qed

end
