(* ===== verification/JsonMake.thy ===== *)
theory JsonMake
  imports JsonOwn
begin

text \<open>
  The constructors of \<open>JSON/cJSON.c\<close>: the contract of a constructor of one item (\<open>item_maker\<close>), which
  \<open>cJSON_CreateNumber\<close> and \<open>cJSON_CreateString\<close> keep, and the array constructors proved from it:
  a complete array, or \<open>NULL\<close> with the store as before.
\<close>

unbundle bit_operations_syntax

subsection \<open>Fresh addresses\<close>

definition wf_heap :: "heap \<Rightarrow> bool" where
  "wf_heap h \<longleftrightarrow> 0 < brk h \<and> (\<forall>p. p = NULL \<or> brk h \<le> p \<longrightarrow> items h p = None \<and> texts h p = None)"

lemma upd_sel [simp]: "items (upd p f h) q = None \<longleftrightarrow> items h q = None" "brk (upd p f h) = brk h" "h_ok (upd p f h) = h_ok h"
  by (simp_all add: upd_def)

lemma wf_heap_upd [simp]: "wf_heap (upd p f h) = wf_heap h"
  by (simp add: wf_heap_def)

definition grown :: "heap \<Rightarrow> heap \<Rightarrow> bool" where
  "grown h h' \<longleftrightarrow> wf_heap h' \<and> brk h \<le> brk h' \<and> h_ok h' = h_ok h"

definition same_objects :: "heap \<Rightarrow> heap \<Rightarrow> bool" where
  "same_objects h h' \<longleftrightarrow> items h' = items h \<and> texts h' = texts h"

definition made :: "heap \<Rightarrow> heap \<Rightarrow> ptr \<Rightarrow> node \<Rightarrow> bool" where
  \<comment> \<open>\<open>p\<close> is a new leaf, in no list, with new character blocks\<close>
  "made h h' p n \<longleftrightarrow> brk h \<le> p \<and> items h' = (items h)(p \<mapsto> n) \<and> next_ptr n = NULL \<and> prev_ptr n = NULL \<and> child_ptr n = NULL
     \<and> distinct (own_texts n) \<and> (\<forall>q \<in> set (own_texts n). brk h \<le> q \<and> texts h' q \<noteq> None)
     \<and> (\<forall>q. q \<notin> set (own_texts n) \<longrightarrow> texts h' q = texts h q)
     \<and> valuestring_ptr n < brk h' \<and> string_ptr n = NULL"

abbreviation leaf :: "heap \<Rightarrow> ptr \<Rightarrow> tree" where
  "leaf h p \<equiv> Tree p (the (load h p)) []"

lemma load_made: "made h h' p n \<Longrightarrow> wf_heap h \<Longrightarrow> load h' q = (if q = p then Some n else load h q)"
  by (auto simp: made_def load_def wf_heap_def)

lemma load_fresh: "wf_heap h \<Longrightarrow> brk h \<le> p \<Longrightarrow> load h p = None"
  by (simp add: load_def wf_heap_def)

lemma h_allocate_cases:
  obtains (no) "h_allocate h = (NULL, h\<lparr>h_calls := Suc (h_calls h)\<rparr>)" "\<not> h_ok h (h_calls h)"
  | (yes) "h_allocate h = (brk h, h\<lparr>brk := Suc (brk h), h_calls := Suc (h_calls h)\<rparr>)" "h_ok h (h_calls h)"
  by (cases "h_ok h (h_calls h)") (simp_all add: h_allocate_def)

lemma create_item_cases:
  assumes "wf_heap h"
  obtains (no) h' where "create_item f h = (NULL, h')" "same_objects h h'" "grown h h'" "\<exists>k. \<not> h_ok h k"
  | (yes) h' where "create_item f h = (brk h, h')" "brk h \<noteq> NULL" "items h' = (items h)(brk h \<mapsto> f zero_node)"
      "texts h' = texts h" "brk h' = Suc (brk h)" "h_calls h' = Suc (h_calls h)" "grown h h'" "h_ok h (h_calls h)"
proof (cases rule: h_allocate_cases [of h])
  case no
  then show thesis using assms that(1) [of "h\<lparr>h_calls := Suc (h_calls h)\<rparr>"]
    by (auto simp: create_item_def h_new_item_def same_objects_def grown_def wf_heap_def)
next
  case yes
  then show thesis using assms
    by (intro that(2) [of "h\<lparr>brk := Suc (brk h), h_calls := Suc (h_calls h), items := (items h)(brk h \<mapsto> f zero_node)\<rparr>"])
      (auto simp: create_item_def h_new_item_def upd_def grown_def wf_heap_def)
qed

lemma strdup_cases:
  assumes "wf_heap h" and "string \<noteq> NULL" and "c_text h string = Some s"
  obtains (no) h' where "cJSON_strdup string h = Some (NULL, h')" "same_objects h h'" "grown h h'" "\<not> h_ok h (h_calls h)"
  | (yes) h' where "cJSON_strdup string h = Some (brk h, h')" "brk h \<noteq> NULL" "items h' = items h"
      "texts h' = (texts h)(brk h \<mapsto> s @ [0])" "brk h' = Suc (brk h)" "grown h h'" "h_ok h (h_calls h)"
proof -
  obtain b n where b: "texts h string = Some b" "c_strlen b = Some n" "s = take n b"
    using assms(3) by (auto simp: c_text_def split: bind_splits)
  then have r: "read_range b 0 (n + 1) = Some (s @ [0])"
    using c_strlen_Some [OF b(2)] by (simp add: read_range_def take_Suc_conv_app_nth)
  show thesis
  proof (cases rule: h_allocate_cases [of h])
    case no
    then show thesis using assms b that(1) [of "h\<lparr>h_calls := Suc (h_calls h)\<rparr>"]
      by (auto simp: cJSON_strdup_def same_objects_def grown_def wf_heap_def)
  next
    case yes
    then show thesis using assms b r
      by (intro that(2) [of "h\<lparr>brk := Suc (brk h), h_calls := Suc (h_calls h), texts := (texts h)(brk h \<mapsto> s @ [0])\<rparr>"])
        (auto simp: cJSON_strdup_def grown_def wf_heap_def)
  qed
qed

subsection \<open>The contract of a constructor\<close>

locale item_maker =
  fixes create :: "'x \<Rightarrow> heap \<Rightarrow> (ptr \<times> heap) option"
    and fit :: "heap \<Rightarrow> 'x \<Rightarrow> bool"
    and val :: "heap \<Rightarrow> 'x \<Rightarrow> cJSON"
  assumes creates: "wf_heap h \<Longrightarrow> fit h x \<Longrightarrow> \<exists>p h'. create x h = Some (p, h') \<and> grown h h' \<and>
      (if p = NULL then same_objects h h' \<and> (\<exists>k. \<not> h_ok h k)
       else \<exists>n. made h h' p n \<and> shape h' (Tree p n []) = val h x)"
    and stable: "wf_heap h \<Longrightarrow> (\<And>q. q < brk h \<Longrightarrow> texts h' q = texts h q) \<Longrightarrow> fit h x \<Longrightarrow> fit h' x \<and> val h' x = val h x"

definition parts :: "heap \<Rightarrow> ptr list \<Rightarrow> ptr list" where
  "parts h ps = concat (map (\<lambda>p. own_texts (the (load h p))) ps)"

definition array_node :: "ptr list \<Rightarrow> node" where
  "array_node ps = zero_node\<lparr>ntype := cJSON_Array, child_ptr := first_or NULL ps\<rparr>"

definition filled :: "heap \<Rightarrow> heap \<Rightarrow> ptr \<Rightarrow> ptr list \<Rightarrow> bool" where
  \<comment> \<open>\<open>h\<close> is \<open>h0\<close> with a new array \<open>a\<close> of the new leaves \<open>ps\<close>\<close>
  "filled h0 h a ps \<longleftrightarrow> grown h0 h \<and> brk h0 \<le> a \<and> load h a = Some (array_node ps) \<and> spelled h a ps NULL
     \<and> (\<forall>p \<in> set ps. brk h0 \<le> p \<and> (\<exists>n. load h p = Some n \<and> child_ptr n = NULL))
     \<and> distinct (parts h ps) \<and> (\<forall>q \<in> set (parts h ps). brk h0 \<le> q \<and> texts h q \<noteq> None)
     \<and> (\<forall>p. p \<notin> insert a (set ps) \<longrightarrow> items h p = items h0 p)
     \<and> (\<forall>q. q \<notin> set (parts h ps) \<longrightarrow> texts h q = texts h0 q)"

lemma in_chain_leaves: "dseg h e ps NULL \<Longrightarrow> in_chain (map (leaf h) ps)"
  by (induction ps arbitrary: e) (auto simp: comp_def)

lemma array_node_sel [simp]: "next_ptr (array_node ps) = NULL" "child_ptr (array_node ps) = first_or NULL ps"
  "own_texts (array_node ps) = []" "\<not> n_reference (array_node ps)" "\<not> n_const_key (array_node ps)"
  by (simp_all add: array_node_def zero_node_def own_texts_def n_reference_def n_const_key_def cJSON_types)

lemma filled_tree:
  assumes "filled h0 h a ps"
  shows "stored h (Tree a (array_node ps) (map (leaf h) ps))" and "separate (Tree a (array_node ps) (map (leaf h) ps))"
proof -
  have s: "dseg h NULL ps NULL" "distinct ps" "a \<notin> set ps" and a: "load h a = Some (array_node ps)"
    and p: "\<And>p. p \<in> set ps \<Longrightarrow> \<exists>n. load h p = Some n \<and> child_ptr n = NULL"
    and q: "\<And>q. q \<in> set (parts h ps) \<Longrightarrow> texts h q \<noteq> None" and d: "distinct (parts h ps)"
    using assms by (auto simp: filled_def spelled_def)
  have l: "stored h (leaf h p)" if "p \<in> set ps" for p
    using p [OF that] q that by (fastforce simp: parts_def)
  have "map root (map (leaf h) ps) = ps" by (simp add: comp_def)
  then show "stored h (Tree a (array_node ps) (map (leaf h) ps))"
    using a in_chain_leaves [OF s(1)] l by (auto simp: comp_def)
  have "all_items (map (leaf h) ps) = ps" "all_texts (map (leaf h) ps) = parts h ps"
    by (simp_all add: parts_def comp_def)
  then show "separate (Tree a (array_node ps) (map (leaf h) ps))"
    using s d by (simp add: separate_def)
qed

lemma filled_delete:
  assumes "wf_heap h0" and "filled h0 h a ps"
  shows "\<exists>h'. h_delete a h = Some h' \<and> same_objects h0 h' \<and> grown h0 h'"
proof -
  let ?t = "Tree a (array_node ps) (map (leaf h) ps)"
  have i: "set (tree_items ?t) = insert a (set ps)" "set (tree_texts ?t) = set (parts h ps)"
    by (auto simp: parts_def)
  have "h_delete a h = Some (erase (insert a (set ps)) (set (parts h ps)) h)"
    using h_delete_tree [OF filled_tree(1) [OF assms(2)] _ filled_tree(2) [OF assms(2)]] unfolding i by simp
  moreover have "same_objects h0 (erase (insert a (set ps)) (set (parts h ps)) h)"
    using assms by (auto simp: same_objects_def erase_def filled_def wf_heap_def fun_eq_iff)
  moreover have "grown h0 (erase (insert a (set ps)) (set (parts h ps)) h)"
    using assms by (auto simp: grown_def erase_def filled_def wf_heap_def)
  ultimately show ?thesis by blast
qed

subsection \<open>The loop of the array constructors\<close>

lemma own_texts_links [simp]: "own_texts (set_next q n) = own_texts n" "own_texts (set_prev q n) = own_texts n"
  by (simp_all add: own_texts_def set_next_def set_prev_def n_reference_def n_const_key_def)

lemma shape_links [simp]: "shape h (Tree p (set_next q n) ts) = shape h (Tree p n ts)"
  "shape h (Tree p (set_prev q n) ts) = shape h (Tree p n ts)"
  by (simp_all add: set_next_def set_prev_def)

lemma dseg_link:
  assumes "dseg h e ps NULL" and "ps \<noteq> []" and "distinct ps" and "i \<notin> set ps" and "load h i = Some m" and "next_ptr m = NULL"
  shows "dseg (upd i (set_prev (last ps)) (upd (last ps) (set_next i) h)) e (ps @ [i]) NULL"
proof -
  obtain rs l where ps: "ps = rs @ [l]" using assms(2) by (metis append_butlast_last_id)
  have "dseg (upd l (set_next i) h) e (rs @ [l]) i" using assms ps by (intro dseg_set_next) auto
  then have "dseg (upd i (set_prev l) (upd l (set_next i) h)) e (rs @ [l]) i"
    using assms ps by (subst dseg_upd_other) auto
  moreover have "dseg (upd i (set_prev l) (upd l (set_next i) h)) l [i] NULL" using assms ps by auto
  ultimately show ?thesis unfolding ps
    by (simp only: dseg_append first_or_simps last_or_simps last_snoc)
qed

lemma shape_leaf_cong: "(\<forall>q \<in> {valuestring_ptr n, string_ptr n}. texts h' q = texts h q) \<Longrightarrow>
    shape h' (Tree p n []) = shape h (Tree p n [])"
  by (simp add: text_at_def)

definition readable :: "heap \<Rightarrow> ptr list \<Rightarrow> bool" where
  \<comment> \<open>the strings of the leaves are in the store\<close>
  "readable h ps \<longleftrightarrow> (\<forall>p \<in> set ps. \<forall>q \<in> {valuestring_ptr (the (load h p)), string_ptr (the (load h p))}. q < brk h)"

lemma made_old: "made h h1 p n \<Longrightarrow> q < brk h \<Longrightarrow> texts h1 q = texts h q"
  by (auto simp: made_def not_le [symmetric])

lemma filled_link:
  assumes f: "filled h0 h a ps" and m: "made h h1 p n" and g: "grown h h1" and w: "wf_heap h"
    and o: "readable h ps"
  shows "\<exists>h2. (if last_or NULL ps = NULL then store a (set_kid p) h1 else suffix_object (last_or NULL ps) p h1) = Some h2
    \<and> filled h0 h2 a (ps @ [p])
    \<and> map (\<lambda>q. shape h2 (leaf h2 q)) (ps @ [p]) = map (\<lambda>q. shape h (leaf h q)) ps @ [shape h1 (Tree p n [])]
    \<and> readable h2 (ps @ [p])"
proof -
  have ld: "load h1 q = (if q = p then Some n else load h q)" for q using load_made [OF m w] by blast
  have fr: "load h p = None" using m load_fresh [OF w] by (simp add: made_def)
  have sp: "spelled h a ps NULL" and a: "load h a = Some (array_node ps)" "a \<noteq> NULL" "a \<noteq> p"
    using f fr by (auto simp: filled_def dest: load_neq_NULL)
  have nz: "NULL \<notin> set ps" "p \<notin> set ps"
    using spelled_NULL(1) [OF sp] spelled_load [OF sp, of p] fr by auto
  have seg: "dseg h NULL ps NULL" "distinct ps" "a \<notin> set ps" using sp by (simp_all add: spelled_def)
  have seg1: "dseg h1 NULL ps NULL"
  proof -
    have "dseg h1 e qs z = dseg h e qs z" if "p \<notin> set qs" for e qs z
      using that by (induction qs arbitrary: e) (auto simp: ld)
    then show ?thesis using seg nz by blast
  qed
  define h2 where "h2 = (if ps = [] then upd a (set_kid p) h1 else upd p (set_prev (last ps)) (upd (last ps) (set_next p) h1))"
  have l: "last_or NULL ps = NULL \<longleftrightarrow> ps = []" using nz(1) last_in_set unfolding last_or_def by metis
  have lp: "ps \<noteq> [] \<Longrightarrow> last ps \<noteq> a \<and> last ps \<noteq> p \<and> load h1 (last ps) \<noteq> None"
    using last_in_set [of ps] seg nz spelled_load [OF sp] by (auto simp: ld)
  have r: "(if last_or NULL ps = NULL then store a (set_kid p) h1 else suffix_object (last_or NULL ps) p h1) = Some h2"
    using a l lp ld [of p] ld [of a] by (cases "ps = []") (simp_all add: h2_def heap_simps suffix_object_def last_or_def)
  have n: "next_ptr n = NULL" "prev_ptr n = NULL" "child_ptr n = NULL" using m by (simp_all add: made_def)
  have d2: "dseg h2 NULL (ps @ [p]) NULL"
    using dseg_link [OF seg1 _ seg(2) nz(2), of n] n ld a(3) by (cases "ps = []") (auto simp: h2_def)
  have a2: "load h2 a = Some (array_node (ps @ [p]))"
    using a lp ld by (cases ps) (auto simp: h2_def array_node_def set_kid_def)
  have p2: "\<exists>n'. load h2 p = Some n' \<and> own_texts n' = own_texts n \<and> child_ptr n' = NULL
      \<and> valuestring_ptr n' = valuestring_ptr n \<and> string_ptr n' = string_ptr n \<and> shape h2 (Tree p n' []) = shape h1 (Tree p n [])"
    using a lp ld n by (cases "ps = []") (auto simp: h2_def text_at_def set_prev_def own_texts_def n_reference_def n_const_key_def)
  have t2: "texts h2 = texts h1" "brk h2 = brk h1" "h_ok h2 = h_ok h1" by (auto simp: h2_def upd_def)
  have q2: "\<exists>k k'. load h q = Some k \<and> load h2 q = Some k' \<and> own_texts k' = own_texts k \<and> child_ptr k' = child_ptr k
      \<and> valuestring_ptr k' = valuestring_ptr k \<and> string_ptr k' = string_ptr k \<and> shape h2 (Tree q k' []) = shape h1 (Tree q k [])" if q: "q \<in> set ps" for q
  proof -
    obtain k where k: "load h q = Some k" using spelled_load [OF sp q] by blast
    have "ps \<noteq> []" "q \<noteq> p" using q nz(2) by auto
    moreover have "last ps \<noteq> p" using lp \<open>ps \<noteq> []\<close> by blast
    ultimately show ?thesis using k ld by (cases "q = last ps") (auto simp: h2_def text_at_def set_next_def own_texts_def n_reference_def n_const_key_def)
  qed
  have parts: "parts h2 (ps @ [p]) = parts h ps @ own_texts n"
  proof -
    have "map (\<lambda>q. own_texts (the (load h2 q))) ps = map (\<lambda>q. own_texts (the (load h q))) ps"
      using q2 by (intro map_cong) fastforce+
    then have "parts h2 ps = parts h ps" unfolding parts_def by (rule arg_cong)
    moreover obtain n' where "load h2 p = Some n'" "own_texts n' = own_texts n" using p2 by blast
    ultimately show ?thesis by (simp add: parts_def)
  qed
  have new: "\<forall>q \<in> set (own_texts n). brk h \<le> q \<and> texts h1 q \<noteq> None" "distinct (own_texts n)"
    "\<forall>q. q \<notin> set (own_texts n) \<longrightarrow> texts h1 q = texts h q"
    using m by (auto simp: made_def)
  have old: "\<forall>q \<in> set (parts h ps). brk h0 \<le> q \<and> q < brk h \<and> texts h q \<noteq> None"
  proof -
    have "q < brk h" if "texts h q \<noteq> None" for q using w that unfolding wf_heap_def by (meson not_le)
    then show ?thesis using f unfolding filled_def by blast
  qed
  have it: "items h1 = (items h)(p \<mapsto> n)" "brk h \<le> p" using m by (auto simp: made_def)
  have h0: "brk h0 \<le> brk h" "brk h \<le> brk h1" using f g by (auto simp: filled_def grown_def)
  have "filled h0 h2 a (ps @ [p])"
    unfolding filled_def
  proof (intro conjI)
    show "grown h0 h2"
      using f g t2 by (auto simp: filled_def grown_def h2_def)
    show "spelled h2 a (ps @ [p]) NULL"
      using a2 d2 seg nz a(3) by (simp add: spelled_def)
    show "distinct (parts h2 (ps @ [p]))" using f new old by (fastforce simp: parts filled_def)
    show "\<forall>q \<in> set (parts h2 (ps @ [p])). brk h0 \<le> q \<and> texts h2 q \<noteq> None"
    proof
      fix q assume "q \<in> set (parts h2 (ps @ [p]))"
      then consider "q \<in> set (parts h ps)" | "q \<in> set (own_texts n)" by (auto simp: parts)
      then show "brk h0 \<le> q \<and> texts h2 q \<noteq> None"
      proof cases
        case 1
        then have "q \<notin> set (own_texts n)" using old new(1) by (meson not_le)
        then show ?thesis using 1 old new(3) by (simp add: t2)
      next
        case 2
        then show ?thesis using new(1) h0 by (fastforce simp: t2)
      qed
    qed
    show "\<forall>q. q \<notin> set (parts h2 (ps @ [p])) \<longrightarrow> texts h2 q = texts h0 q"
      using f new by (simp add: parts t2 filled_def)
    show "\<forall>q. q \<notin> insert a (set (ps @ [p])) \<longrightarrow> items h2 q = items h0 q"
      using f it last_in_set [of ps] by (auto simp: filled_def h2_def upd_def)
    show "\<forall>q \<in> set (ps @ [p]). brk h0 \<le> q \<and> (\<exists>n. load h2 q = Some n \<and> child_ptr n = NULL)"
    proof
      fix q assume "q \<in> set (ps @ [p])"
      then consider "q \<in> set ps" | "q = p" by auto
      then show "brk h0 \<le> q \<and> (\<exists>n. load h2 q = Some n \<and> child_ptr n = NULL)"
      proof cases
        case 1
        then show ?thesis using q2 [OF 1] f unfolding filled_def by fastforce
      next
        case 2
        then show ?thesis using p2 it h0 by auto
      qed
    qed
  qed (use a2 f in \<open>auto simp: filled_def\<close>)
  moreover have "map (\<lambda>q. shape h2 (leaf h2 q)) ps = map (\<lambda>q. shape h (leaf h q)) ps"
  proof (intro map_cong refl)
    fix q assume q: "q \<in> set ps"
    obtain k k' where k: "load h q = Some k" "load h2 q = Some k'" "shape h2 (Tree q k' []) = shape h1 (Tree q k [])"
      using q2 [OF q] by blast
    moreover have "shape h1 (Tree q k []) = shape h (Tree q k [])"
      using bspec [OF o [unfolded readable_def] q] k(1) made_old [OF m] by (intro shape_leaf_cong) simp
    ultimately show "shape h2 (leaf h2 q) = shape h (leaf h q)" by (simp del: shape.simps)
  qed
  moreover have "shape h2 (leaf h2 p) = shape h1 (Tree p n [])" using p2 by auto
  moreover have "readable h2 (ps @ [p])"
    unfolding readable_def
  proof
    fix q assume "q \<in> set (ps @ [p])"
    then consider "q \<in> set ps" | "q = p" by auto
    then show "\<forall>v \<in> {valuestring_ptr (the (load h2 q)), string_ptr (the (load h2 q))}. v < brk h2"
    proof cases
      case 1
      then show ?thesis using q2 [OF 1] bspec [OF o [unfolded readable_def] 1] h0(2) t2 by auto
    next
      case 2
      then show ?thesis using p2 m t2 by (auto simp: made_def)
    qed
  qed
  ultimately show ?thesis using r by auto
qed

context item_maker begin

lemma fill_array_outcome:
  assumes "wf_heap h0"
  shows "filled h0 h a ps \<Longrightarrow> readable h ps \<Longrightarrow> (\<forall>x \<in> set xs. fit h0 x) \<Longrightarrow>
    \<exists>r h'. fill_array create xs a (last_or NULL ps) h = Some (r, h') \<and> grown h0 h' \<and>
      (if r = NULL then same_objects h0 h' \<and> (\<exists>k. \<not> h_ok h0 k)
       else r = a \<and> (\<exists>qs. filled h0 h' a (ps @ qs)
         \<and> map (\<lambda>q. shape h' (leaf h' q)) (ps @ qs) = map (\<lambda>q. shape h (leaf h q)) ps @ map (val h0) xs))"
proof (induction xs arbitrary: h ps)
  case Nil
  then have "a \<noteq> NULL" by (auto simp: filled_def dest: load_neq_NULL)
  moreover have "\<exists>qs. filled h0 h a (ps @ qs) \<and> map (\<lambda>q. shape h (leaf h q)) (ps @ qs) = map (\<lambda>q. shape h (leaf h q)) ps"
    using Nil by (intro exI [of _ "[]"]) simp
  ultimately show ?case using Nil by (auto simp: filled_def)
next
  case (Cons x xs)
  have w: "wf_heap h" and h0: "brk h0 \<le> brk h" "h_ok h = h_ok h0" using Cons.prems by (auto simp: filled_def grown_def)
  have old: "texts h q = texts h0 q" if "q < brk h0" for q
    using Cons.prems(1) that by (auto simp: filled_def not_le [symmetric])
  have fx: "fit h x" "val h x = val h0 x" using stable [OF assms old, of x] Cons.prems(3) by auto
  obtain p h1 where c: "create x h = Some (p, h1)" "grown h h1"
    and r: "if p = NULL then same_objects h h1 \<and> (\<exists>k. \<not> h_ok h k)
       else \<exists>n. made h h1 p n \<and> shape h1 (Tree p n []) = val h x"
    using creates [OF w fx(1)] by blast
  show ?case
  proof (cases "p = NULL")
    case True
    have f1: "filled h0 h1 a ps"
    proof -
      have so: "items h1 = items h" "texts h1 = texts h" using r True by (auto simp: same_objects_def)
      then have ld: "load h1 = load h" by (auto simp: load_def)
      then have "dseg h1 e qs z = dseg h e qs z" for e qs z by (induction qs arbitrary: e) auto
      then show ?thesis using Cons.prems(1) c(2) so ld by (auto simp: filled_def spelled_def parts_def grown_def)
    qed
    obtain h2 where "h_delete a h1 = Some h2" "same_objects h0 h2" "grown h0 h2"
      using filled_delete [OF assms f1] by blast
    then show ?thesis using c True r h0 by (auto simp: grown_def)
  next
    case False
    then obtain n where n: "made h h1 p n" "shape h1 (Tree p n []) = val h x" using r by auto
    obtain h2 where h2: "(if last_or NULL ps = NULL then store a (set_kid p) h1 else suffix_object (last_or NULL ps) p h1) = Some h2"
      "filled h0 h2 a (ps @ [p])"
      "map (\<lambda>q. shape h2 (leaf h2 q)) (ps @ [p]) = map (\<lambda>q. shape h (leaf h q)) ps @ [shape h1 (Tree p n [])]" "readable h2 (ps @ [p])"
      using filled_link [OF Cons.prems(1) n(1) c(2) w Cons.prems(2)] by blast
    have lo: "last_or NULL (ps @ [p]) = p" by (simp add: last_or_def)
    obtain r h' where r: "fill_array create xs a p h2 = Some (r, h')" "grown h0 h'"
      and out: "if r = NULL then same_objects h0 h' \<and> (\<exists>k. \<not> h_ok h0 k)
       else r = a \<and> (\<exists>qs. filled h0 h' a ((ps @ [p]) @ qs)
         \<and> map (\<lambda>q. shape h' (leaf h' q)) ((ps @ [p]) @ qs) = map (\<lambda>q. shape h2 (leaf h2 q)) (ps @ [p]) @ map (val h0) xs)"
      using Cons.IH [OF h2(2,4)] Cons.prems(3) unfolding lo by auto
    have run: "fill_array create (x # xs) a (last_or NULL ps) h = Some (r, h')"
      using c(1) False h2(1) r(1) by (simp del: last_or_simps)
    have vals: "map (\<lambda>q. shape h2 (leaf h2 q)) (ps @ [p]) @ map (val h0) xs
        = map (\<lambda>q. shape h (leaf h q)) ps @ map (val h0) (x # xs)"
      unfolding h2(3) using n(2) fx(2) by (simp del: shape.simps)
    show ?thesis
    proof (intro exI conjI)
      show "fill_array create (x # xs) a (last_or NULL ps) h = Some (r, h')" by (rule run)
      show "if r = NULL then same_objects h0 h' \<and> (\<exists>k. \<not> h_ok h0 k)
       else r = a \<and> (\<exists>qs. filled h0 h' a (ps @ qs)
         \<and> map (\<lambda>q. shape h' (leaf h' q)) (ps @ qs) = map (\<lambda>q. shape h (leaf h q)) ps @ map (val h0) (x # xs))"
        using out unfolding vals append_assoc by (simp split: if_splits del: shape.simps map_append list.map) blast
    qed (rule r(2))
  qed
qed

lemma create_array_outcome:
  assumes w: "wf_heap h" and n: "0 \<le> count" "nat count \<le> length xs" and fit: "\<forall>x \<in> set xs. fit h x"
  shows "\<exists>a h'. create_array create (Some xs) count h = Some (a, h') \<and> grown h h' \<and>
      (if a = NULL then same_objects h h' \<and> (\<exists>k. \<not> h_ok h k)
       else \<exists>ps. filled h h' a ps \<and> map (\<lambda>p. shape h' (leaf h' p)) ps = map (val h) (take (nat count) xs))"
proof -
  have rr: "read_range xs 0 (nat count) = Some (take (nat count) xs)" using n by (simp add: read_range_def)
  show ?thesis
  proof (cases rule: create_item_cases [OF w, of "\<lambda>n. n\<lparr>ntype := cJSON_Array\<rparr>"])
    case (1 h')
    then show ?thesis using n rr by (auto simp: create_array_def cJSON_CreateArray_def)
  next
    case (2 h1)
    have "load h1 (brk h) = Some (array_node [])" using 2 by (simp add: load_def array_node_def zero_node_def)
    then have f: "filled h h1 (brk h) []"
      using 2 by (simp add: filled_def spelled_def parts_def)
    have "readable h1 []" "\<forall>x \<in> set (take (nat count) xs). fit h x"
      using fit by (auto simp: readable_def dest: in_set_takeD)
    note run = fill_array_outcome [OF w f this, unfolded last_or_simps append_Nil list.map(1)]
    obtain r h' where r: "fill_array create (take (nat count) xs) (brk h) NULL h1 = Some (r, h')" "grown h h'"
      and out: "if r = NULL then same_objects h h' \<and> (\<exists>k. \<not> h_ok h k)
       else r = brk h \<and> (\<exists>qs. filled h h' (brk h) qs \<and> map (\<lambda>q. shape h' (leaf h' q)) qs = map (val h) (take (nat count) xs))"
      using run by blast
    then show ?thesis using 2(1,2) n rr
      by (intro exI [of _ r] exI [of _ h']) (auto simp: create_array_def cJSON_CreateArray_def)
  qed
qed

end

subsection \<open>Adding a new item to an object\<close>

definition makes_string :: "heap \<Rightarrow> ptr \<Rightarrow> bool" where
  "makes_string h x \<longleftrightarrow> x \<noteq> NULL \<and> c_text h x \<noteq> None"

lemma c_text_c_string: "c_text h q = Some s \<Longrightarrow> c_string s"
  using c_strlen_Some by (fastforce simp: c_text_def split: bind_splits)

lemma text_at_c_text: "c_text h q = Some s \<Longrightarrow> q \<noteq> NULL \<Longrightarrow> text_at h q = Some s"
  by (auto simp: text_at_def c_text_def c_strlen_string_of_buf string_of_buf_def split: bind_splits)
    (metis c_strlen_string_of_buf string_of_buf_def takeWhile_eq_take)

lemma c_text_old:
  assumes "wf_heap h" and "\<And>q. q < brk h \<Longrightarrow> texts h' q = texts h q" and "c_text h x = Some s"
  shows "c_text h' x = Some s"
proof -
  have "x < brk h"
  proof (rule ccontr)
    assume "\<not> x < brk h"
    then have "texts h x = None" using assms(1) by (simp add: wf_heap_def)
    then show False using assms(3) by (simp add: c_text_def)
  qed
  then show ?thesis using assms(2,3) by (simp add: c_text_def)
qed

lemma dseg_cong: "(\<And>p. p \<in> set ps \<Longrightarrow> load h' p = load h p) \<Longrightarrow> dseg h' e ps z = dseg h e ps z"
  by (induction ps arbitrary: e) auto

lemma children_cong: "(\<And>p. p \<in> insert a (set ps) \<Longrightarrow> load h' p = load h p) \<Longrightarrow> children h' a ps = children h a ps"
  using dseg_cong [of ps h' h] by (simp add: children_def spelled_def)

definition fresh_key_node :: "ptr \<Rightarrow> u32 \<Rightarrow> node \<Rightarrow> node" where
  "fresh_key_node q ty n = n\<lparr>string_ptr := q, ntype := ty\<rparr>"

lemma add_to_object_new:
  assumes n: "load h p = Some n" "string_ptr n = NULL" and name: "name \<noteq> NULL" and object: "object \<noteq> NULL"
    and s: "cJSON_strdup name h = Some (q, h1)" and ld: "load h1 p = Some n"
  shows "add_item_to_object object name p False h =
    (if q = NULL then Some (False, h1) else add_item_to_array object p (upd p (fresh_key_node q (ntype n AND NOT cJSON_StringIsConst)) h1))"
  using assms load_neq_NULL [OF n(1)]
  by (simp add: add_item_to_object_def store_def fresh_key_node_def [abs_def])

lemma load_items_cong: "items h1 = items h \<Longrightarrow> load h1 p = load h p"
  by (simp add: load_def)

context item_maker begin

lemma add_new_to_object:
  assumes w: "wf_heap h" and ch: "children h object ps" and name: "makes_string h name" and x: "fit h x"
  shows "\<exists>p h'. do { r \<leftarrow> create x h; add_or_delete object name r } = Some (p, h') \<and>
    (if p = NULL then same_objects h h' \<and> (\<exists>k. \<not> h_ok h k)
     else load h p = None \<and> children h' object (ps @ [p]) \<and> key h' p = c_text h name)"
proof -
  obtain s where s: "c_text h name = Some s" "name \<noteq> NULL" using name by (auto simp: makes_string_def)
  obtain p h1 where c: "create x h = Some (p, h1)" "grown h h1"
    and r: "if p = NULL then same_objects h h1 \<and> (\<exists>k. \<not> h_ok h k)
       else \<exists>n. made h h1 p n \<and> shape h1 (Tree p n []) = val h x"
    using creates [OF w x] by blast
  show ?thesis
  proof (cases "p = NULL")
    case True
    have "h_delete NULL h1 = Some h1" by (subst h_delete.simps) simp
    then show ?thesis using c r True by (auto simp: add_or_delete_def add_item_to_object_def)
  next
    case False
    then obtain n where m: "made h h1 p n" using r by auto
    have w1: "wf_heap h1" using c(2) by (simp add: grown_def)
    have s1: "c_text h1 name = Some s" using c_text_old [OF w made_old [OF m] s(1)] by blast
    have ld: "load h1 q = (if q = p then Some n else load h q)" for q using load_made [OF m w] by blast
    obtain e where e: "spelled h object ps e" using ch children_spelled by blast
    have fr: "load h p = None" using m load_fresh [OF w] by (simp add: made_def)
    have np: "p \<notin> insert object (set ps)" using e spelled_load [OF e, of p] fr by (auto simp: spelled_def)
    have nz: "object \<noteq> NULL" using spelled_NULL [OF e] by simp
    have sn: "string_ptr n = NULL" using m by (simp add: made_def)
    have lp: "load h1 p = Some n" using ld by simp
    show ?thesis
    proof (cases rule: strdup_cases [OF w1 s(2) s1])
      case (1 h2)
      have i2: "items h2 = items h1" "texts h2 = texts h1" using 1(2) by (simp_all add: same_objects_def)
      then have lp2: "load h2 p = Some n" using lp load_items_cong by metis
      let ?O = "set (own_texts n)"
      have "h_delete p h2 = Some (erase {p} ?O h2)"
        using h_delete_tree [of h2 "Tree p n []"] lp2 i2 m by (auto simp: separate_def made_def)
      moreover have "same_objects h (erase {p} ?O h2)"
        using w m i2 fr False by (auto simp: same_objects_def erase_def made_def wf_heap_def fun_eq_iff)
      moreover have "\<exists>k. \<not> h_ok h k" using 1(4) c(2) by (auto simp: grown_def)
      ultimately show ?thesis
        using c(1) False add_to_object_new [OF lp sn s(2) nz 1(1) lp2] by (auto simp: add_or_delete_def)
    next
      case (2 h2)
      have lp2: "load h2 q = load h1 q" for q using 2(3) load_items_cong by metis
      let ?h3 = "upd p (fresh_key_node (brk h1) (ntype n AND NOT cJSON_StringIsConst)) h2"
      have "children ?h3 object ps" using ch np lp2 ld by (subst children_cong [of _ _ _ h]) auto
      moreover have "loose ?h3 object ps p" using np lp lp2 m by (auto simp: loose_def made_def fresh_key_node_def)
      ultimately obtain h4 where h4: "add_item_to_array object p ?h3 = Some (True, h4)" "children h4 object (ps @ [p])"
        "relinks ?h3 h4 object (insert p (set ps))"
        using add_item_children by blast
      have "key h4 p = key ?h3 p" using relinks_key [OF h4(3)] np by auto
      also have "\<dots> = Some s"
      proof -
        have "c_string s" using s(1) by (rule c_text_c_string)
        then have "c_text ?h3 (brk h1) = Some s" using 2(4) by (simp add: c_text_def c_strlen_append)
        then show ?thesis using lp lp2 2(2) by (simp add: key_def fresh_key_node_def)
      qed
      finally have k: "key h4 p = Some s" .
      have lp3: "load h2 p = Some n" using lp lp2 by simp
      have "add_or_delete object name (p, h1) = Some (p, h4)"
        using add_to_object_new [OF lp sn s(2) nz 2(1) lp3] 2(2) h4(1) by (simp add: add_or_delete_def)
      then show ?thesis using c(1) False fr h4(2) k s(1) by auto
    qed
  qed
qed

end

subsection \<open>The constructors keep it\<close>

definition number_item :: "double \<Rightarrow> cJSON" where
  "number_item d = CJ cJSON_Number None (saturate d) d None []"

definition string_item :: "bytes \<Rightarrow> cJSON" where
  "string_item s = CJ cJSON_String (Some s) 0 d_zero None []"

lemma CreateNumber_makes:
  assumes "wf_heap h"
  shows "\<exists>p h'. cJSON_CreateNumber d h = (p, h') \<and> grown h h' \<and>
      (if p = NULL then same_objects h h' \<and> (\<exists>k. \<not> h_ok h k)
       else \<exists>n. made h h' p n \<and> shape h' (Tree p n []) = number_item d)"
proof -
  let ?f = "\<lambda>n. n\<lparr>ntype := cJSON_Number, nvaluedouble := d, nvalueint := saturate d\<rparr>"
  show ?thesis
  proof (cases rule: create_item_cases [OF assms, of ?f])
    case (1 h')
    then show ?thesis by (auto simp: cJSON_CreateNumber_def)
  next
    case (2 h')
    then have "made h h' (brk h) (?f zero_node)"
      by (simp add: made_def zero_node_def own_texts_def)
    moreover have "shape h' (Tree (brk h) (?f zero_node) []) = number_item d"
      by (simp add: number_item_def zero_node_def text_at_def)
    ultimately show ?thesis using 2(1,2,7) by (auto simp: cJSON_CreateNumber_def)
  qed
qed

interpretation number_maker: item_maker "\<lambda>k h. Some (cJSON_CreateNumber (f k) h)" "\<lambda>h k. True" "\<lambda>h k. number_item (f k)" for f :: "'a \<Rightarrow> double"
  using CreateNumber_makes by unfold_locales fastforce+

lemma CreateString_makes:
  assumes w: "wf_heap h" and x: "makes_string h x"
  shows "\<exists>p h'. cJSON_CreateString x h = Some (p, h') \<and> grown h h' \<and>
      (if p = NULL then same_objects h h' \<and> (\<exists>k. \<not> h_ok h k)
       else \<exists>n. made h h' p n \<and> shape h' (Tree p n []) = string_item (the (c_text h x)))"
proof -
  let ?f = "\<lambda>n. n\<lparr>ntype := cJSON_String\<rparr>"
  obtain s where s: "c_text h x = Some s" "x \<noteq> NULL" using x by (auto simp: makes_string_def)
  show ?thesis
  proof (cases rule: create_item_cases [OF w, of ?f])
    case (1 h')
    then show ?thesis by (auto simp: cJSON_CreateString_def create_text_def)
  next
    case (2 h1)
    have w1: "wf_heap h1" using 2(7) by (simp add: grown_def)
    have ld: "load h1 (brk h) = Some (?f zero_node)" using 2(2,3) by (simp add: load_def)
    have s1: "c_text h1 x = Some s" using s(1) 2(4) by (simp add: c_text_def)
    show ?thesis
    proof (cases rule: strdup_cases [OF w1 s(2) s1])
      case (1 h2)
      let ?n = "?f zero_node\<lparr>valuestring_ptr := NULL\<rparr>"
      have same: "upd (brk h) (\<lambda>n. n\<lparr>valuestring_ptr := NULL\<rparr>) h2 = h2"
        using 1(2) 2(3) by (simp add: upd_def same_objects_def zero_node_def fun_upd_idem)
      have ld2: "load h2 (brk h) = Some (?f zero_node)" using ld 1(2) unfolding load_def same_objects_def by metis
      then have st: "store (brk h) (\<lambda>n. n\<lparr>valuestring_ptr := NULL\<rparr>) h2 = Some h2" by (simp add: store_def same)
      have "h_delete (brk h) h2 = Some (erase {brk h} {} h2)"
        using h_delete_tree [of h2 "Tree (brk h) (?f zero_node) []"] ld2
        by (simp add: separate_def own_texts_def zero_node_def)
      moreover have "same_objects h (erase {brk h} {} h2)"
        using w 1(2) 2(3,4) by (auto simp: same_objects_def erase_def wf_heap_def fun_eq_iff)
      moreover have "grown h (erase {brk h} {} h2)"
        using 1(3) 2(7) by (auto simp: grown_def wf_heap_def erase_def)
      moreover have "\<not> h_ok h (h_calls h1)" using 1(4) 2(7) by (simp add: grown_def)
      ultimately show ?thesis using 1(1) 2(1,2) st
        by (auto simp: cJSON_CreateString_def create_text_def)
    next
      case (2 h2)
      note c = \<open>create_item ?f h = (brk h, h1)\<close> and b1 = \<open>brk h1 = Suc (brk h)\<close> and i1 = \<open>items h1 = (items h)(brk h \<mapsto> ?f zero_node)\<close>
        and t1 = \<open>texts h1 = texts h\<close> and g1 = \<open>grown h h1\<close> and nz = \<open>brk h \<noteq> NULL\<close>
      let ?g = "\<lambda>n. n\<lparr>valuestring_ptr := brk h1\<rparr>"
      let ?h3 = "upd (brk h) ?g h2"
      have ld2: "load h2 (brk h) = Some (?f zero_node)" using ld 2(3) unfolding load_def by metis
      have st: "store (brk h) ?g h2 = Some ?h3" using ld2 by (simp add: store_def)
      have i3: "items ?h3 = (items h)(brk h \<mapsto> ?g (?f zero_node))" using i1 2(3) by (simp add: upd_def)
      have own: "own_texts (?g (?f zero_node)) = [brk h1]"
        using 2(2) by (simp add: own_texts_def zero_node_def n_reference_def n_const_key_def cJSON_types)
      have "made h ?h3 (brk h) (?g (?f zero_node))"
        using i3 own 2(4,5) t1 b1 by (auto simp: made_def zero_node_def)
      moreover have "shape ?h3 (Tree (brk h) (?g (?f zero_node)) []) = string_item s"
      proof -
        have "c_string s" using s(1) by (rule c_text_c_string)
        then show ?thesis using 2(2,4) by (simp add: string_item_def zero_node_def text_at_def string_of_buf_append)
      qed
      moreover have "grown h ?h3" using g1 2(6) by (auto simp: grown_def)
      ultimately show ?thesis using c nz st s(1) 2(1,2)
        by (auto simp: cJSON_CreateString_def create_text_def simp del: shape.simps)
    qed
  qed
qed

interpretation string_maker: item_maker cJSON_CreateString makes_string "\<lambda>h x. string_item (the (c_text h x))"
proof
  show "\<exists>p h'. cJSON_CreateString x h = Some (p, h') \<and> grown h h' \<and>
      (if p = NULL then same_objects h h' \<and> (\<exists>k. \<not> h_ok h k)
       else \<exists>n. made h h' p n \<and> shape h' (Tree p n []) = string_item (the (c_text h x)))"
    if "wf_heap h" "makes_string h x" for h x
    using CreateString_makes that by blast
  show "makes_string h' x \<and> string_item (the (c_text h' x)) = string_item (the (c_text h x))"
    if "wf_heap h" "\<And>q. q < brk h \<Longrightarrow> texts h' q = texts h q" "makes_string h x" for h h' x
  proof -
    have "\<exists>s. c_text h x = Some s" using that(3) by (auto simp: makes_string_def)
    then show ?thesis using c_text_old [OF that(1,2)] that(3) by (auto simp: makes_string_def)
  qed
qed

subsection \<open>Properties\<close>

lemma filled_result:
  assumes "filled h h' a ps" and "map (\<lambda>p. shape h' (leaf h' p)) ps = vs"
  shows "\<exists>t. root t = a \<and> stored h' t \<and> separate t \<and> children h' a (map root (kids t))
    \<and> shape h' t = CJ cJSON_Array None 0 d_zero None vs"
proof -
  have "spelled h' a ps NULL" using assms(1) by (simp add: filled_def)
  then have "children h' a ps" by (auto simp: children_def)
  moreover have "map (shape h') (map (leaf h') ps) = vs" using assms(2) by (simp add: comp_def)
  ultimately show ?thesis
    by (intro exI [of _ "Tree a (array_node ps) (map (leaf h') ps)"] conjI filled_tree [OF assms(1)])
      (simp_all add: array_node_def zero_node_def text_at_def comp_def)
qed

text \<open>
  Under every pattern of allocation failures, \<open>cJSON_CreateIntArray\<close> gives either an array of
  the given numbers in their order, well linked and sharing nothing with what was there, or
  \<open>NULL\<close> after freeing everything it had allocated; \<open>NULL\<close> only after a failed allocation.
\<close>

lemma create_int_array:
  assumes "wf_heap h" and "0 \<le> count" and "nat count \<le> length numbers"
  shows "\<exists>a h'. cJSON_CreateIntArray (Some numbers) count h = Some (a, h') \<and>
    (if a = NULL then same_objects h h' \<and> (\<exists>k. \<not> h_ok h k)
     else \<exists>t. root t = a \<and> stored h' t \<and> separate t \<and> children h' a (map root (kids t))
       \<and> shape h' t = CJ cJSON_Array None 0 d_zero None
           (map (\<lambda>k. number_item (double_of_int k)) (take (nat count) numbers)))"
  unfolding cJSON_CreateIntArray_def
  using number_maker.create_array_outcome [OF assms, where f = double_of_int] filled_result by fastforce

definition empty_heap :: "(nat \<Rightarrow> bool) \<Rightarrow> heap" where
  "empty_heap ok = \<lparr>items = (\<lambda>_. None), texts = [7 \<mapsto> [97, 0]], brk = 8, h_ok = ok, h_calls = 0\<rparr>"

lemma wf_empty_heap: "wf_heap (empty_heap ok)"
  by (auto simp: wf_heap_def empty_heap_def)

theorem create_int_array_witness:
  "\<exists>a h'. cJSON_CreateIntArray (Some [3, -1]) 2 (empty_heap (\<lambda>_. True)) = Some (a, h') \<and> a \<noteq> NULL \<and>
    (\<exists>t. root t = a \<and> shape h' t = CJ cJSON_Array None 0 d_zero None
           [number_item (double_of_int 3), number_item (double_of_int (-1))])"
proof -
  obtain a h' where r: "cJSON_CreateIntArray (Some [3, -1]) 2 (empty_heap (\<lambda>_. True)) = Some (a, h')"
    and out: "if a = NULL then same_objects (empty_heap (\<lambda>_. True)) h' \<and> (\<exists>k. \<not> h_ok (empty_heap (\<lambda>_. True)) k)
     else \<exists>t. root t = a \<and> stored h' t \<and> separate t \<and> children h' a (map root (kids t))
       \<and> shape h' t = CJ cJSON_Array None 0 d_zero None
           (map (\<lambda>k. number_item (double_of_int k)) (take (nat 2) [3, -1]))"
    using create_int_array [OF wf_empty_heap, of 2 "[3, -1]" "\<lambda>_. True"] by auto
  have "a \<noteq> NULL"
  proof
    assume "a = NULL"
    with out show False by (simp add: empty_heap_def)
  qed
  then show ?thesis using r out by auto
qed

text \<open>
  \<open>cJSON_CreateStringArray\<close> keeps the same promise, with a copy of every string.
\<close>

lemma create_string_array:
  assumes "wf_heap h" and "0 \<le> count" and "nat count \<le> length strings" and "\<forall>x \<in> set strings. makes_string h x"
  shows "\<exists>a h'. cJSON_CreateStringArray (Some strings) count h = Some (a, h') \<and>
    (if a = NULL then same_objects h h' \<and> (\<exists>k. \<not> h_ok h k)
     else \<exists>t. root t = a \<and> stored h' t \<and> separate t \<and> children h' a (map root (kids t))
       \<and> shape h' t = CJ cJSON_Array None 0 d_zero None
           (map (\<lambda>x. string_item (the (c_text h x))) (take (nat count) strings)))"
  unfolding cJSON_CreateStringArray_def
  using string_maker.create_array_outcome [OF assms] filled_result by fastforce

theorem create_string_array_witness:
  "\<exists>a h'. cJSON_CreateStringArray (Some [7]) 1 (empty_heap (\<lambda>k. k \<noteq> 2)) = Some (a, h') \<and>
    (a = NULL \<longrightarrow> same_objects (empty_heap (\<lambda>k. k \<noteq> 2)) h')"
proof -
  have "makes_string (empty_heap (\<lambda>k. k \<noteq> 2)) 7" by (simp add: makes_string_def c_text_def empty_heap_def)
  then show ?thesis
    using create_string_array [OF wf_empty_heap, of 1 "[7]" "\<lambda>k. k \<noteq> 2"] by auto
qed

text \<open>
  C10: \<open>cJSON_AddStringToObject\<close> and \<open>cJSON_AddNumberToObject\<close> on a well linked object append a new
  member with the given name, or return \<open>NULL\<close> with every object as it was: no member is added
  without its name and nothing leaks, whichever of the up to three allocations fails.
\<close>

theorem add_to_object:
  assumes "wf_heap h" and "children h object ps" and "makes_string h name" and "makes_string h string"
  shows "(\<exists>p h'. cJSON_AddStringToObject object name string h = Some (p, h') \<and>
      (if p = NULL then same_objects h h' \<and> (\<exists>k. \<not> h_ok h k)
       else load h p = None \<and> children h' object (ps @ [p]) \<and> key h' p = c_text h name))
    \<and> (\<exists>p h'. cJSON_AddNumberToObject object name number h = Some (p, h') \<and>
      (if p = NULL then same_objects h h' \<and> (\<exists>k. \<not> h_ok h k)
       else load h p = None \<and> children h' object (ps @ [p]) \<and> key h' p = c_text h name))"
  using string_maker.add_new_to_object [OF assms]
    number_maker.add_new_to_object [OF assms(1-3) TrueI, where f = "\<lambda>_. number"]
  by (simp add: cJSON_AddStringToObject_def cJSON_AddNumberToObject_def)

lemma wf_demo: "wf_heap demo"
  by (auto simp: wf_heap_def demo_def)

theorem add_to_object_witness:
  "\<exists>p h'. cJSON_AddStringToObject 5 14 13 demo = Some (p, h') \<and> children h' 5 [2, 3, p] \<and> key h' p = Some [98]"
proof -
  have ok: "h_ok demo = (\<lambda>_. True)" by (simp add: demo_def)
  have "makes_string demo 14" "makes_string demo 13" by (simp_all add: makes_string_def demo_text)
  from conjunct1 [OF add_to_object [OF wf_demo demo_children this, of d_zero]]
  obtain p h' where r: "cJSON_AddStringToObject 5 14 13 demo = Some (p, h')"
    and out: "if p = NULL then same_objects demo h' \<and> (\<exists>k. \<not> h_ok demo k)
       else load demo p = None \<and> children h' 5 ([2, 3] @ [p]) \<and> key h' p = c_text demo 14"
    by blast
  have "p \<noteq> NULL"
  proof
    assume "p = NULL"
    with out show False by (simp add: ok)
  qed
  then show ?thesis using r out by (simp add: demo_text)
qed

text \<open>
  \<open>cJSON_AddItemReferenceToObject\<close> leaks.  When the copy of the name cannot be allocated, the
  reference it has just made stays allocated, and no object of the store points to it.
\<close>

lemma add_reference_leaks:
  assumes "wf_heap h" and "object \<noteq> NULL" and "makes_string h string" and "load h item = Some n"
    and "h_ok h (h_calls h)" and "\<not> h_ok h (Suc (h_calls h))"
  shows "\<exists>h'. cJSON_AddItemReferenceToObject object string item h = Some h'
    \<and> load h' (brk h) \<noteq> None \<and> load h (brk h) = None
    \<and> (\<forall>p. p \<noteq> brk h \<longrightarrow> load h' p = load h p) \<and> texts h' = texts h"
proof -
  let ?r = "n\<lparr>string_ptr := NULL, ntype := ntype n OR cJSON_IsReference, next_ptr := NULL, prev_ptr := NULL\<rparr>"
  let ?h1 = "h\<lparr>brk := Suc (brk h), h_calls := Suc (h_calls h), items := (items h)(brk h \<mapsto> ?r)\<rparr>"
  have nz: "item \<noteq> NULL" "brk h \<noteq> NULL" "item \<noteq> brk h" "string \<noteq> NULL"
    using assms load_neq_NULL load_fresh [OF assms(1), of item] by (auto simp: wf_heap_def makes_string_def)
  have cr: "create_reference item h = Some (brk h, ?h1)"
    using assms nz by (simp add: create_reference_def h_new_item_def h_allocate_def load_def store_def upd_def)
  obtain s where s: "c_text h string = Some s" using assms(3) by (auto simp: makes_string_def)
  then obtain b k where b: "texts h string = Some b" "c_strlen b = Some k" by (auto simp: c_text_def split: bind_splits)
  have sd: "cJSON_strdup string ?h1 = Some (NULL, ?h1\<lparr>h_calls := Suc (h_calls ?h1)\<rparr>)"
    using b nz assms(6) by (simp add: cJSON_strdup_def h_allocate_def)
  have "load ?h1 (brk h) = Some ?r" using nz by (simp add: load_def)
  then have "cJSON_AddItemReferenceToObject object string item h = Some (?h1\<lparr>h_calls := Suc (h_calls ?h1)\<rparr>)"
    using assms(2) nz cr sd by (simp add: cJSON_AddItemReferenceToObject_def add_item_to_object_def)
  then show ?thesis using nz load_fresh [OF assms(1)] by (auto simp: load_def)
qed

theorem add_reference_leaks_witness:
  "\<exists>h'. cJSON_AddItemReferenceToObject 5 14 4 (demo\<lparr>h_ok := \<lambda>k. k = 0\<rparr>) = Some h'
    \<and> load h' 20 \<noteq> None \<and> load (demo\<lparr>h_ok := \<lambda>k. k = 0\<rparr>) 20 = None
    \<and> (\<forall>p. p \<noteq> 20 \<longrightarrow> load h' p = load (demo\<lparr>h_ok := \<lambda>k. k = 0\<rparr>) p) \<and> texts h' = texts (demo\<lparr>h_ok := \<lambda>k. k = 0\<rparr>)"
proof -
  let ?h = "demo\<lparr>h_ok := \<lambda>k. k = 0\<rparr>"
  have "wf_heap ?h" "makes_string ?h 14" "load ?h 4 = Some (demo_item 0 0 0 cJSON_False 13)"
    "h_ok ?h (h_calls ?h)" "\<not> h_ok ?h (Suc (h_calls ?h))" "brk ?h = 20"
    using wf_demo by (simp_all add: wf_heap_def makes_string_def c_text_def demo_def load_def)
  then show ?thesis using add_reference_leaks [of ?h 5 14 4] by fastforce
qed

end
