(* ===== verification/JsonMisc.thy ===== *)
theory JsonMisc
  imports JsonOwn
begin

text \<open>
  The smaller functions of \<open>JSON/cJSON.c\<close>: the hooks, the type tests, and \<open>cJSON_Duplicate\<close> with
  the copy it makes.
\<close>

unbundle bit_operations_syntax

subsection \<open>Hooks and version\<close>

datatype c_function = Libc_malloc | Libc_free | Libc_realloc | Custom nat

record internal_hooks =
  hook_allocate :: c_function
  hook_deallocate :: c_function
  hook_reallocate :: "c_function option"

definition global_hooks :: internal_hooks where
  "global_hooks = \<lparr>hook_allocate = Libc_malloc, hook_deallocate = Libc_free, hook_reallocate = Some Libc_realloc\<rparr>"

definition cJSON_InitHooks :: "(c_function option \<times> c_function option) option \<Rightarrow> internal_hooks" where
  \<comment> \<open>\<open>malloc_fn\<close> and \<open>free_fn\<close>; the new global hooks\<close>
  "cJSON_InitHooks hooks =
     (case hooks of
        None \<Rightarrow> \<lparr>hook_allocate = Libc_malloc, hook_deallocate = Libc_free, hook_reallocate = Some Libc_realloc\<rparr>
      | Some (malloc_fn, free_fn) \<Rightarrow>
          let a = (case malloc_fn of None \<Rightarrow> Libc_malloc | Some f \<Rightarrow> f);
              d = (case free_fn of None \<Rightarrow> Libc_free | Some f \<Rightarrow> f)
          in \<lparr>hook_allocate = a, hook_deallocate = d,
              hook_reallocate = if a = Libc_malloc \<and> d = Libc_free then Some Libc_realloc else None\<rparr>)"

definition cJSON_malloc :: "heap \<Rightarrow> ptr \<times> heap" where
  "cJSON_malloc h = h_allocate h"

definition cJSON_free :: "ptr \<Rightarrow> heap \<Rightarrow> heap option" where
  \<comment> \<open>of a character block, as the library uses it\<close>
  "cJSON_free object h = free_text object h"

definition CJSON_VERSION :: "nat \<times> nat \<times> nat" where
  "CJSON_VERSION = (1, 7, 12)"

definition cJSON_Version :: bytes where
  "cJSON_Version = (case CJSON_VERSION of (major, minor, patch) \<Rightarrow>
     dec_digits major @ [46] @ dec_digits minor @ [46] @ dec_digits patch)"

subsection \<open>Type tests\<close>

definition has_tag :: "u32 \<Rightarrow> heap \<Rightarrow> ptr \<Rightarrow> bool option" where
  "has_tag ty h item = (if item = NULL then Some False else map_option (\<lambda>n. ntype n AND 0xFF = ty) (load h item))"

definition cJSON_IsInvalid :: "heap \<Rightarrow> ptr \<Rightarrow> bool option" where "cJSON_IsInvalid = has_tag cJSON_Invalid"
definition cJSON_IsFalse :: "heap \<Rightarrow> ptr \<Rightarrow> bool option" where "cJSON_IsFalse = has_tag cJSON_False"
definition cJSON_IsTrue :: "heap \<Rightarrow> ptr \<Rightarrow> bool option" where "cJSON_IsTrue = has_tag cJSON_True"

definition cJSON_IsBool :: "heap \<Rightarrow> ptr \<Rightarrow> bool option" where
  "cJSON_IsBool h item =
     (if item = NULL then Some False
      else map_option (\<lambda>n. ntype n AND (cJSON_True OR cJSON_False) \<noteq> 0) (load h item))"

definition cJSON_IsNull :: "heap \<Rightarrow> ptr \<Rightarrow> bool option" where "cJSON_IsNull = has_tag cJSON_NULL"
definition cJSON_IsNumber :: "heap \<Rightarrow> ptr \<Rightarrow> bool option" where "cJSON_IsNumber = has_tag cJSON_Number"
definition cJSON_IsString :: "heap \<Rightarrow> ptr \<Rightarrow> bool option" where "cJSON_IsString = has_tag cJSON_String"
definition cJSON_IsArray :: "heap \<Rightarrow> ptr \<Rightarrow> bool option" where "cJSON_IsArray = has_tag cJSON_Array"
definition cJSON_IsObject :: "heap \<Rightarrow> ptr \<Rightarrow> bool option" where "cJSON_IsObject = has_tag cJSON_Object"
definition cJSON_IsRaw :: "heap \<Rightarrow> ptr \<Rightarrow> bool option" where "cJSON_IsRaw = has_tag cJSON_Raw"

definition cJSON_GetStringValue :: "heap \<Rightarrow> ptr \<Rightarrow> ptr option" where
  "cJSON_GetStringValue h item = do {
     is_string \<leftarrow> cJSON_IsString h item;
     if \<not> is_string then Some NULL else map_option valuestring_ptr (load h item) }"

subsection \<open>Duplicating\<close>

definition t_strdup :: "bytes option \<Rightarrow> mem \<Rightarrow> bytes option \<times> mem" where
  \<comment> \<open>\<open>cJSON_strdup\<close> of a string that may be \<open>NULL\<close>\<close>
  "t_strdup s m =
     (case s of None \<Rightarrow> (None, m)
      | Some x \<Rightarrow> (case c_allocate m of (False, m) \<Rightarrow> (None, m) | (True, m) \<Rightarrow> (Some x, m)))"

definition copy_name :: "u32 \<Rightarrow> bytes option \<Rightarrow> mem \<Rightarrow> bytes option \<times> mem" where
  \<comment> \<open>a constant name is shared\<close>
  "copy_name ty s m = (if ty AND cJSON_StringIsConst \<noteq> 0 then (s, m) else t_strdup s m)"

fun cJSON_Duplicate :: "cJSON \<Rightarrow> bool \<Rightarrow> mem \<Rightarrow> cJSON option \<times> mem"
  and duplicate_children :: "cJSON list \<Rightarrow> cJSON list \<Rightarrow> mem \<Rightarrow> bool \<times> cJSON list \<times> mem" where
  \<comment> \<open>of an item that is not \<open>NULL\<close>; the loop returns false with the copies made so far\<close>
  "cJSON_Duplicate (CJ ty vs vi vd s c) recurse m =
     (case cJSON_New_Item m of
        (None, m) \<Rightarrow> (None, m)
      | (Some new, m) \<Rightarrow>
          let newitem = set_valuedouble vd (set_valueint vi (set_type (ty AND NOT cJSON_IsReference) new))
          in case t_strdup vs m of (vs', m) \<Rightarrow>
            if vs \<noteq> None \<and> vs' = None then (None, cJSON_Delete newitem m)
            else let newitem = set_valuestring vs' newitem
              in case copy_name ty s m of (s', m) \<Rightarrow>
                if s \<noteq> None \<and> s' = None then (None, cJSON_Delete newitem m)
                else let newitem = set_string s' newitem
                  in if \<not> recurse then (Some newitem, m)
                     else case duplicate_children c [] m of (ok, c', m) \<Rightarrow>
                       let newitem = set_child c' newitem
                       in if ok then (Some newitem, m) else (None, cJSON_Delete newitem m))"
| "duplicate_children [] acc m = (True, acc, m)"
| "duplicate_children (child # rest) acc m =
     (case cJSON_Duplicate child True m of
        (None, m) \<Rightarrow> (False, acc, m)
      | (Some newchild, m) \<Rightarrow> duplicate_children rest (acc @ [newchild]) m)"

fun owned_copy :: "cJSON \<Rightarrow> cJSON" where
  \<comment> \<open>the same value, with nothing borrowed but constant names\<close>
  "owned_copy (CJ ty vs vi vd s c) = CJ (ty AND NOT cJSON_IsReference) vs vi vd s (map owned_copy c)"

definition all_fine :: "mem \<Rightarrow> bool" where
  "all_fine m \<longleftrightarrow> (\<forall>k. alloc_ok m k)"

definition copies :: "cJSON \<Rightarrow> mem \<Rightarrow> cJSON option \<times> mem \<Rightarrow> bool" where
  "copies t m = (\<lambda>(r, m'). alloc_ok m' = alloc_ok m \<and>
     (case r of None \<Rightarrow> live m' = live m \<and> \<not> all_fine m
      | Some t' \<Rightarrow> t' = t \<and> live m' = live m + blocks t))"

lemma not_reference_mask [simp]: "(ty AND NOT cJSON_IsReference) AND cJSON_IsReference = (0 :: u32)"
  by (simp add: bit_eq_iff bit_simps)

lemma const_mask [simp]: "(ty AND NOT cJSON_IsReference) AND cJSON_StringIsConst = ty AND cJSON_StringIsConst"
proof -
  have "NOT cJSON_IsReference AND cJSON_StringIsConst = cJSON_StringIsConst" by (simp add: cJSON_types)
  then show ?thesis by (simp only: and.assoc)
qed

lemma owned_flags [simp]:
  "\<not> is_reference (CJ (ty AND NOT cJSON_IsReference) vs vi vd s c)"
  "is_const_key (CJ (ty AND NOT cJSON_IsReference) vs vi vd s c) \<longleftrightarrow> ty AND cJSON_StringIsConst \<noteq> 0"
  by (simp_all add: is_reference_def is_const_key_def)

lemma t_strdup_cases:
  obtains (no) m' where "t_strdup s m = (None, m')" "s \<noteq> None" "alloc_ok m' = alloc_ok m" "live m' = live m" "\<not> all_fine m"
  | (yes) m' where "t_strdup s m = (s, m')" "alloc_ok m' = alloc_ok m" "live m' = live m + (if s = None then 0 else 1)"
proof (cases s)
  case None
  then show thesis by (intro yes [of m]) (simp_all add: t_strdup_def)
next
  case (Some x)
  show thesis
  proof (cases "alloc_ok m (calls m)")
    case True
    then show thesis using Some
      by (intro yes [of "m\<lparr>calls := Suc (calls m), live := live m + 1\<rparr>"]) (simp_all add: t_strdup_def c_allocate_def)
  next
    case False
    then show thesis using Some
      by (intro no [of "m\<lparr>calls := Suc (calls m)\<rparr>"]) (auto simp: t_strdup_def c_allocate_def all_fine_def)
  qed
qed

lemma copy_name_cases:
  obtains (no) m' where "copy_name ty s m = (None, m')" "s \<noteq> None" "alloc_ok m' = alloc_ok m" "live m' = live m" "\<not> all_fine m"
  | (yes) m' where "copy_name ty s m = (s, m')" "alloc_ok m' = alloc_ok m"
      "live m' = live m + (if ty AND cJSON_StringIsConst \<noteq> 0 \<or> s = None then 0 else 1)"
proof (cases "ty AND cJSON_StringIsConst \<noteq> 0")
  case True
  then show thesis using yes [of m] by (simp add: copy_name_def)
next
  case False
  show thesis
  proof (cases rule: t_strdup_cases [of s m])
    case (no m1)
    then show thesis using that(1) [of m1] False by (simp add: copy_name_def)
  next
    case (yes m1)
    then show thesis using that(2) [of m1] False by (simp add: copy_name_def)
  qed
qed

lemma new_item_outcome:
  obtains (no) m' where "cJSON_New_Item m = (None, m')" "alloc_ok m' = alloc_ok m" "live m' = live m" "\<not> all_fine m"
  | (yes) m' where "cJSON_New_Item m = (Some new_item, m')" "alloc_ok m' = alloc_ok m" "live m' = live m + 1"
proof (cases "alloc_ok m (calls m)")
  case True
  then show thesis
    by (intro yes [of "m\<lparr>calls := Suc (calls m), live := live m + 1\<rparr>"]) (simp_all add: cJSON_New_Item_def c_allocate_def)
next
  case False
  then show thesis
    by (intro no [of "m\<lparr>calls := Suc (calls m)\<rparr>"]) (auto simp: cJSON_New_Item_def c_allocate_def all_fine_def)
qed

lemma duplicate_children_copies:
  assumes "\<And>t m. t \<in> set ts \<Longrightarrow> copies (owned_copy t) m (cJSON_Duplicate t True m)"
  shows "\<exists>ok c' m'. duplicate_children ts acc m = (ok, acc @ c', m') \<and> alloc_ok m' = alloc_ok m
     \<and> live m' = live m + blocks_list c' \<and> (if ok then c' = map owned_copy ts else \<not> all_fine m)"
  using assms
proof (induction ts arbitrary: acc m)
  case (Cons t ts)
  obtain r m1 where r: "cJSON_Duplicate t True m = (r, m1)" by (cases "cJSON_Duplicate t True m")
  have c: "copies (owned_copy t) m (r, m1)" using Cons.prems [of t m] r by simp
  show ?case
  proof (cases r)
    case None
    then show ?thesis using c r by (intro exI [of _ False] exI [of _ "[]"] exI [of _ m1]) (simp add: copies_def)
  next
    case (Some t')
    then have t': "t' = owned_copy t" "alloc_ok m1 = alloc_ok m" "live m1 = live m + blocks t'"
      using c by (simp_all add: copies_def)
    obtain ok c' m2 where l: "duplicate_children ts (acc @ [t']) m1 = (ok, (acc @ [t']) @ c', m2)" "alloc_ok m2 = alloc_ok m1"
      "live m2 = live m1 + blocks_list c'" "if ok then c' = map owned_copy ts else \<not> all_fine m1"
      using Cons.IH [of "acc @ [t']" m1] Cons.prems by auto
    then show ?thesis using r Some t'
      by (intro exI [of _ ok] exI [of _ "t' # c'"] exI [of _ m2]) (auto simp: all_fine_def)
  qed
qed auto

lemma duplicate_after_names:
  assumes "cJSON_New_Item m = (Some new_item, m1)" and "t_strdup vs m1 = (vs, m2)" and "copy_name ty s m2 = (s, m3)"
  shows "cJSON_Duplicate (CJ ty vs vi vd s c) recurse m =
    (if \<not> recurse then (Some (CJ (ty AND NOT cJSON_IsReference) vs vi vd s []), m3)
     else case duplicate_children c [] m3 of (ok, c', m) \<Rightarrow>
       let newitem = CJ (ty AND NOT cJSON_IsReference) vs vi vd s c'
       in if ok then (Some newitem, m) else (None, cJSON_Delete newitem m))"
  using assms by (cases vs; cases s; simp add: Let_def new_item_def split: prod.splits)

lemma duplicate_copies:
  "copies (if recurse then owned_copy t else set_child [] (owned_copy t)) m (cJSON_Duplicate t recurse m)"
proof (induction t arbitrary: recurse m)
  case (CJ ty vs vi vd s c)
  show ?case
  proof (cases rule: new_item_outcome [of m])
    case (no m1)
    then show ?thesis by (simp add: copies_def)
  next
    case y1: (yes m1)
    show ?thesis
    proof (cases rule: t_strdup_cases [of vs m1])
      case (no m2)
      then show ?thesis using y1
        by (auto simp: Let_def copies_def new_item_def delete_frees all_fine_def)
    next
      case y2: (yes m2)
      show ?thesis
      proof (cases rule: copy_name_cases [of ty s m2])
        case (no m3)
        then show ?thesis using y1 y2
          by (auto simp: Let_def copies_def new_item_def delete_frees all_fine_def)
      next
        case y3: (yes m3)
        note step = duplicate_after_names [OF y1(1) y2(1) y3(1)]
        let ?t = "\<lambda>c'. CJ (ty AND NOT cJSON_IsReference) vs vi vd s c'"
        have live: "live m3 = live m + blocks (?t c') - blocks_list c'" for c'
          using y1 y2 y3 by simp
        have ok: "alloc_ok m3 = alloc_ok m" using y1 y2 y3 by simp
        show ?thesis
        proof (cases recurse)
          case False
          then show ?thesis using live [of "[]"] ok by (simp add: step copies_def del: blocks.simps cJSON_Duplicate.simps)
        next
          case True
          have "copies (owned_copy t) m' (cJSON_Duplicate t True m')" if "t \<in> set c" for t m'
            using CJ.IH [OF that, of True m'] by simp
          from duplicate_children_copies [OF this, of c "[]" m3]
          obtain k c' m4 where l: "duplicate_children c [] m3 = (k, c', m4)" "alloc_ok m4 = alloc_ok m3"
            "live m4 = live m3 + blocks_list c'" "if k then c' = map owned_copy c else \<not> all_fine m3"
            by auto
          show ?thesis using True l live [of c'] ok
            by (cases k) (auto simp: step copies_def delete_frees all_fine_def Let_def simp del: blocks.simps cJSON_Duplicate.simps)
        qed
      qed
    qed
  qed
qed

subsection \<open>Properties\<close>

text \<open>
  C17: \<open>cJSON_Duplicate\<close> terminates on every item, and gives under every pattern of allocation
  failures either a full copy that owns everything (no reference flag is left anywhere in it) or
  \<open>NULL\<close> with nothing leaked; \<open>NULL\<close> only after a failed allocation.  Without \<open>recurse\<close> the copy
  has no children.
\<close>

theorem cJSON_Duplicate_copies:
  "case cJSON_Duplicate t recurse m of
     (None, m') \<Rightarrow> live m' = live m \<and> \<not> (\<forall>k. alloc_ok m k)
   | (Some t', m') \<Rightarrow> t' = (if recurse then owned_copy t else set_child [] (owned_copy t))
       \<and> live m' = live m + blocks t'"
  using duplicate_copies [of recurse t m]
  by (auto simp: copies_def all_fine_def split: prod.splits option.splits)

text \<open>
  Whatever hooks the program installs, \<open>realloc\<close> is used only together with \<open>malloc\<close> and
  \<open>free\<close>.
\<close>

lemma InitHooks_realloc:
  "hook_reallocate (cJSON_InitHooks hooks) \<noteq> None \<longleftrightarrow>
     hook_allocate (cJSON_InitHooks hooks) = Libc_malloc \<and> hook_deallocate (cJSON_InitHooks hooks) = Libc_free"
  by (auto simp: cJSON_InitHooks_def Let_def split: option.splits)

end
