(* ===== verification/JsonCompare.thy ===== *)
theory JsonCompare
  imports CDoubleFacts JsonMake JsonMisc
begin

text \<open>
  \<open>cJSON_Compare\<close> of \<open>JSON/cJSON.c\<close>, and what it decides: equality of JSON values, with the
  members of objects in any order.
\<close>

unbundle bit_operations_syntax

subsection \<open>The code\<close>

definition json_tags :: "u32 list" where
  "json_tags = [cJSON_False, cJSON_True, cJSON_NULL, cJSON_Number, cJSON_String, cJSON_Raw, cJSON_Array, cJSON_Object]"

fun compare_items :: "nat \<Rightarrow> heap \<Rightarrow> bool \<Rightarrow> ptr \<Rightarrow> ptr \<Rightarrow> bool option"
  and compare_arrays :: "nat \<Rightarrow> heap \<Rightarrow> bool \<Rightarrow> ptr \<Rightarrow> ptr \<Rightarrow> bool option"
  and compare_members :: "nat \<Rightarrow> heap \<Rightarrow> bool \<Rightarrow> ptr \<Rightarrow> ptr \<Rightarrow> bool option" where
  \<comment> \<open>with fuel; \<open>compare_arrays\<close> is the loop over two arrays, \<open>compare_members\<close> one of the two
     loops over the members of an object\<close>
  "compare_items 0 h case_sensitive a b = None"
| "compare_items (Suc n) h case_sensitive a b =
     (if a = NULL \<or> b = NULL then Some False
      else do {
        x \<leftarrow> load h a;
        y \<leftarrow> load h b;
        let tg = ntype x AND 0xFF;
        if tg \<noteq> ntype y AND 0xFF \<or> tg = cJSON_Invalid then Some False
        else if tg \<notin> set json_tags then Some False
        else if a = b then Some True
        else if tg = cJSON_False \<or> tg = cJSON_True \<or> tg = cJSON_NULL then Some True
        else if tg = cJSON_Number then Some (compare_double (nvaluedouble x) (nvaluedouble y))
        else if tg = cJSON_String \<or> tg = cJSON_Raw then
          if valuestring_ptr x = NULL \<or> valuestring_ptr y = NULL then Some False
          else do { s \<leftarrow> c_text h (valuestring_ptr x); t \<leftarrow> c_text h (valuestring_ptr y); Some (s = t) }
        else if tg = cJSON_Array then compare_arrays n h case_sensitive (child_ptr x) (child_ptr y)
        else do {
          ok \<leftarrow> compare_members n h case_sensitive (child_ptr x) b;
          if ok then compare_members n h case_sensitive (child_ptr y) a else Some False } })"
| "compare_arrays 0 h case_sensitive p q = None"
| "compare_arrays (Suc n) h case_sensitive p q =
     (if p \<noteq> NULL \<and> q \<noteq> NULL then do {
        same \<leftarrow> compare_items n h case_sensitive p q;
        if \<not> same then Some False
        else do { x \<leftarrow> load h p; y \<leftarrow> load h q; compare_arrays n h case_sensitive (next_ptr x) (next_ptr y) } }
      else Some (p = q))"
| "compare_members 0 h case_sensitive p other = None"
| "compare_members (Suc n) h case_sensitive p other =
     (if p = NULL then Some True
      else do {
        x \<leftarrow> load h p;
        q \<leftarrow> get_object_item h other (string_ptr x) case_sensitive;
        if q = NULL then Some False
        else do {
          same \<leftarrow> compare_items n h case_sensitive p q;
          if \<not> same then Some False else compare_members n h case_sensitive (next_ptr x) other } })"

subsection \<open>JSON equality\<close>

definition same_key :: "bool \<Rightarrow> cJSON \<Rightarrow> cJSON \<Rightarrow> bool" where
  "same_key cs x y \<longleftrightarrow> (case (jstring x, jstring y) of (Some s, Some t) \<Rightarrow> same_name cs s t | _ \<Rightarrow> False)"

function same_json :: "bool \<Rightarrow> cJSON \<Rightarrow> cJSON \<Rightarrow> bool" where
  "same_json cs x y \<longleftrightarrow>
     (let tg = tag x
      in tg = tag y \<and>
        (if tg = cJSON_False \<or> tg = cJSON_True \<or> tg = cJSON_NULL then True
         else if tg = cJSON_Number then compare_double (jvaluedouble x) (jvaluedouble y)
         else if tg = cJSON_String \<or> tg = cJSON_Raw then jvaluestring x = jvaluestring y
         else if tg = cJSON_Array then
           length (jchild x) = length (jchild y) \<and> (\<forall>(u, v) \<in> set (zip (jchild x) (jchild y)). same_json cs u v)
         else
           (\<forall>u \<in> set (jchild x). \<exists>v \<in> set (jchild y). same_key cs u v \<and> same_json cs u v) \<and>
           (\<forall>v \<in> set (jchild y). \<exists>u \<in> set (jchild x). same_key cs v u \<and> same_json cs v u)))"
  by pat_completeness auto
termination
proof (relation "measure (\<lambda>(cs, x, y). size x + size y)", goal_cases)
  have kid: "u \<in> set (jchild x) \<Longrightarrow> size u < size x" for u x
    by (cases x) (auto dest: size_list_estimation' [of _ _ _ size])
  {
    case 1
    then show ?case by simp
  next
    case (2 cs x y tg uv u v)
    then have "u \<in> set (jchild x)" "v \<in> set (jchild y)" by (auto dest: set_zip_leftD set_zip_rightD)
    then have "size u < size x" "size v < size y" using kid by auto
    then show ?case by simp
  next
    case (3 cs x y tg u v)
    then show ?case using kid [of u x] kid [of v y] by auto
  next
    case (4 cs x y tg v u)
    then show ?case using kid [of u x] kid [of v y] by auto
  }
qed

declare same_json.simps [simp del]

subsection \<open>Views of the store\<close>

fun viewed :: "heap \<Rightarrow> tree \<Rightarrow> bool" where
  \<comment> \<open>the items below a pointer, whoever owns them\<close>
  "viewed h (Tree p n ts) \<longleftrightarrow> load h p = Some n \<and> child_ptr n = first_or NULL (map root ts) \<and> in_chain ts
     \<and> (\<forall>q \<in> {valuestring_ptr n, string_ptr n}. q \<noteq> NULL \<longrightarrow> c_text h q \<noteq> None) \<and> (\<forall>t \<in> set ts. viewed h t)"

lemma viewed_load: "viewed h t \<Longrightarrow> load h (root t) = Some (tnode t)" "viewed h t \<Longrightarrow> root t \<noteq> NULL"
  by (cases t, auto dest: load_neq_NULL)+

lemma viewed_kids: "viewed h t \<Longrightarrow> u \<in> set (kids t) \<Longrightarrow> viewed h u"
  by (cases t) auto

lemma viewed_unique: "viewed h t \<Longrightarrow> viewed h u \<Longrightarrow> root t = root u \<Longrightarrow> t = u"
proof (induction t arbitrary: u)
  case (Tree p n ts)
  obtain us where u: "u = Tree p n us" using Tree.prems by (cases u) auto
  have "vs = ws" if "in_chain vs" "in_chain ws" "set vs \<subseteq> set ts" "\<forall>w \<in> set ws. viewed h w"
      "first_or NULL (map root vs) = first_or NULL (map root ws)" for vs ws
    using that
  proof (induction vs arbitrary: ws)
    case Nil
    then show ?case by (cases ws) (auto dest: viewed_load(2))
  next
    case (Cons v vs)
    have "viewed h v" using Cons.prems(3) Tree.prems(1) by auto
    then obtain w ws' where w: "ws = w # ws'" using Cons.prems viewed_load(2) [of h v] by (cases ws) auto
    have "v = w" using Tree.IH [of v w] Cons.prems \<open>viewed h v\<close> w by auto
    then show ?case using Cons w by auto
  qed
  then show ?case using Tree.prems u by auto
qed

lemma text_at_text: "q \<noteq> NULL \<Longrightarrow> c_text h q = Some s \<Longrightarrow> text_at h q = Some s"
  by (rule text_at_c_text)

lemma text_at_NULL [simp]: "text_at h NULL = None"
  by (simp add: text_at_def)

lemma key_viewed: "viewed h t \<Longrightarrow> key h (root t) = jstring (shape h t)"
  by (cases t) (auto simp: key_def text_at_text)

definition has_keys :: "bool \<Rightarrow> cJSON \<Rightarrow> bool" where
  \<comment> \<open>every member has a name, and no two have the same\<close>
  "has_keys cs t \<longleftrightarrow> (\<forall>u \<in> set (jchild t). jstring u \<noteq> None)
     \<and> (\<forall>i < length (jchild t). \<forall>j < length (jchild t). same_key cs (jchild t ! i) (jchild t ! j) \<longrightarrow> i = j)"

fun json_ok :: "bool \<Rightarrow> cJSON \<Rightarrow> bool" where
  "json_ok cs (CJ ty vs vi vd s c) \<longleftrightarrow> ty AND 0xFF \<in> set json_tags
     \<and> (ty AND 0xFF = cJSON_Number \<longrightarrow> \<not> is_nan_or_inf vd)
     \<and> (ty AND 0xFF = cJSON_String \<or> ty AND 0xFF = cJSON_Raw \<longrightarrow> vs \<noteq> None)
     \<and> (ty AND 0xFF = cJSON_Object \<longrightarrow> has_keys cs (CJ ty vs vi vd s c))
     \<and> (\<forall>u \<in> set c. json_ok cs u)"

lemma json_ok_kids: "json_ok cs t \<Longrightarrow> u \<in> set (jchild t) \<Longrightarrow> json_ok cs u"
  by (cases t) auto

lemma same_name_refl [simp]: "same_name cs s s"
  by (simp add: same_name_def)

lemma same_json_refl: "json_ok cs t \<Longrightarrow> same_json cs t t"
proof (induction t)
  case (CJ ty vs vi vd s c)
  have "same_json cs u u" if "u \<in> set c" for u
    using CJ that by auto
  moreover have "(u, v) \<in> set (zip c c) \<Longrightarrow> u = v" for u v by (auto simp: zip_same)
  moreover have "same_key cs u u" if "ty AND 0xFF = cJSON_Object" "u \<in> set c" for u
    using CJ.prems that by (auto simp: has_keys_def same_key_def)
  ultimately show ?case using CJ.prems
    by (subst same_json.simps) (auto simp: Let_def tag_def json_tags_def compare_double_refl zip_same)
qed

subsection \<open>Lookups\<close>

lemma find_name_chain:
  "in_chain ts \<Longrightarrow> \<forall>t \<in> set ts. viewed h t \<Longrightarrow> \<forall>t \<in> set ts. key h (root t) \<noteq> None \<Longrightarrow>
   c_text h name = Some s \<Longrightarrow> name \<noteq> NULL \<Longrightarrow>
   find_name h name cs (first_or NULL (map root ts)) =
     Some (case find (\<lambda>t. same_name cs s (the (key h (root t)))) ts of None \<Rightarrow> NULL | Some t \<Rightarrow> root t)"
proof (induction ts)
  case Nil
  then show ?case by (subst find_name.simps) simp
next
  case (Cons t ts)
  have l: "load h (root t) = Some (tnode t)" "root t \<noteq> NULL" using Cons.prems viewed_load by auto
  obtain k where k: "key h (root t) = Some k" using Cons.prems by auto
  have IH: "find_name h name cs (first_or NULL (map root ts)) =
     Some (case find (\<lambda>t. same_name cs s (the (key h (root t)))) ts of None \<Rightarrow> NULL | Some t \<Rightarrow> root t)"
    using Cons by auto
  show ?case using name_differs_key [OF Cons.prems(4) k l(1) Cons.prems(5)] l k IH Cons.prems(1)
    by (subst find_name.simps) auto
qed

lemma member_lookup:
  assumes ob: "viewed h ob" and x: "viewed h x" "jstring (shape h x) = Some s"
    and ks: "has_keys cs (shape h ob)"
  shows "get_object_item h (root ob) (string_ptr (tnode x)) cs =
    Some (case find (\<lambda>t. same_key cs (shape h x) (shape h t)) (kids ob) of None \<Rightarrow> NULL | Some t \<Rightarrow> root t)"
proof -
  obtain p n ts where t: "ob = Tree p n ts" by (cases ob)
  have n: "string_ptr (tnode x) \<noteq> NULL" "c_text h (string_ptr (tnode x)) = Some s"
  proof -
    have t: "text_at h (string_ptr (tnode x)) = Some s" using x(2) by (cases x) simp
    then show nz: "string_ptr (tnode x) \<noteq> NULL" by (auto simp: text_at_def split: if_splits)
    then have "c_text h (string_ptr (tnode x)) \<noteq> None" using x(1) by (cases x) auto
    then show "c_text h (string_ptr (tnode x)) = Some s" using text_at_text [OF nz] t by auto
  qed
  have k: "\<forall>t \<in> set ts. key h (root t) = jstring (shape h t) \<and> jstring (shape h t) \<noteq> None"
    using ob ks key_viewed by (auto simp: t has_keys_def)
  have "find (\<lambda>t. same_name cs s (the (key h (root t)))) ts = find (\<lambda>t. same_key cs (shape h x) (shape h t)) ts"
    using k x(2) by (intro find_cong) (auto simp: same_key_def split: option.splits)
  then show ?thesis
    using find_name_chain [of ts h "string_ptr (tnode x)" s cs] ob k n load_neq_NULL [of h p n]
    by (auto simp: get_object_item_def t)
qed

subsection \<open>The code decides JSON equality\<close>

fun weight :: "tree \<Rightarrow> nat" and weights :: "tree list \<Rightarrow> nat" where
  "weight (Tree p n ts) = 2 + weights ts"
| "weights [] = 0"
| "weights (t # ts) = 1 + weight t + weights ts"

lemma weight_kids: "weight t = 2 + weights (kids t)"
  by (cases t) simp

lemma weight_le: "t \<in> set ts \<Longrightarrow> weight t < weights ts"
  by (induction ts) auto

definition member_of :: "bool \<Rightarrow> cJSON list \<Rightarrow> cJSON \<Rightarrow> bool" where
  "member_of cs us x \<longleftrightarrow> (\<exists>u \<in> set us. same_key cs x u \<and> same_json cs x u)"

lemma has_keys_same:
  assumes "has_keys cs t" and "u \<in> set (jchild t)" and "v \<in> set (jchild t)" and "same_key cs x u" and "same_key cs x v"
  shows "u = v"
proof -
  have "same_key cs u v" using assms(4,5) by (auto simp: same_key_def same_name_def split: option.splits if_splits)
  then show ?thesis using assms(1-3) by (metis has_keys_def in_set_conv_nth)
qed

lemma find_member:
  assumes "has_keys cs (shape h ob)"
  shows "member_of cs (jchild (shape h ob)) x =
    (case find (\<lambda>t. same_key cs x (shape h t)) (kids ob) of None \<Rightarrow> False | Some t \<Rightarrow> same_json cs x (shape h t))"
proof -
  have c: "jchild (shape h ob) = map (shape h) (kids ob)" by (cases ob) simp
  show ?thesis
  proof (cases "find (\<lambda>t. same_key cs x (shape h t)) (kids ob)")
    case None
    then have "\<not> same_key cs x (shape h t)" if "t \<in> set (kids ob)" for t using that by (auto simp: find_None_iff)
    then show ?thesis by (auto simp: member_of_def c None)
  next
    case (Some t)
    then have t: "t \<in> set (kids ob)" "same_key cs x (shape h t)" by (auto simp: find_Some_iff)
    have "shape h u = shape h t" if "u \<in> set (kids ob)" "same_key cs x (shape h u)" for u
      using has_keys_same [OF assms] that t by (simp add: c)
    then have "member_of cs (jchild (shape h ob)) x \<longleftrightarrow> same_json cs x (shape h t)"
      using t unfolding member_of_def c by (metis (no_types, lifting) image_iff list.set_map)
    then show ?thesis by (simp add: Some)
  qed
qed

lemma same_json_object:
  "tag x = cJSON_Object \<Longrightarrow> tag y = cJSON_Object \<Longrightarrow> same_json cs x y \<longleftrightarrow>
    (\<forall>u \<in> set (jchild x). member_of cs (jchild y) u) \<and> (\<forall>v \<in> set (jchild y). member_of cs (jchild x) v)"
  by (subst same_json.simps) (simp add: member_of_def cJSON_types)

definition arrays_same :: "bool \<Rightarrow> cJSON list \<Rightarrow> cJSON list \<Rightarrow> bool" where
  "arrays_same cs us vs \<longleftrightarrow> length us = length vs \<and> (\<forall>(u, v) \<in> set (zip us vs). same_json cs u v)"

lemma arrays_same_simps [simp]: "arrays_same cs [] []" "\<not> arrays_same cs [] (v # vs)" "\<not> arrays_same cs (u # us) []"
  "arrays_same cs (u # us) (v # vs) \<longleftrightarrow> same_json cs u v \<and> arrays_same cs us vs"
  by (auto simp: arrays_same_def)

lemma first_or_NULL: "\<forall>t \<in> set ts. viewed h t \<Longrightarrow> first_or NULL (map root ts) = NULL \<longleftrightarrow> ts = []"
  by (cases ts) (auto dest: viewed_load(2))

lemma shape_sel: "jtype (shape h t) = ntype (tnode t)" "jchild (shape h t) = map (shape h) (kids t)"
  "jvaluedouble (shape h t) = nvaluedouble (tnode t)" "jvaluestring (shape h t) = text_at h (valuestring_ptr (tnode t))"
  by (cases t; simp)+

definition ok_tree :: "heap \<Rightarrow> bool \<Rightarrow> tree \<Rightarrow> bool" where
  "ok_tree h cs t \<longleftrightarrow> viewed h t \<and> json_ok cs (shape h t)"

lemma ok_tree_kids: "ok_tree h cs t \<Longrightarrow> u \<in> set (kids t) \<Longrightarrow> ok_tree h cs u"
  unfolding ok_tree_def using viewed_kids json_ok_kids [of cs "shape h t" "shape h u"] by (auto simp: shape_sel)

lemma ok_tree_links: "ok_tree h cs t \<Longrightarrow> child_ptr (tnode t) = first_or NULL (map root (kids t)) \<and> in_chain (kids t)"
  by (cases t) (auto simp: ok_tree_def)

lemma ok_tree_object: "ok_tree h cs t \<Longrightarrow> ntype (tnode t) AND 0xFF = cJSON_Object \<Longrightarrow> has_keys cs (shape h t)"
  by (cases t) (auto simp: ok_tree_def)

lemma value_text:
  "ok_tree h cs t \<Longrightarrow> ntype (tnode t) AND 0xFF \<in> {cJSON_String, cJSON_Raw} \<Longrightarrow>
   \<exists>s. text_at h (valuestring_ptr (tnode t)) = Some s \<and> c_text h (valuestring_ptr (tnode t)) = Some s"
proof (cases t)
  case (Tree p n ts)
  assume "ok_tree h cs t" and "ntype (tnode t) AND 0xFF \<in> {cJSON_String, cJSON_Raw}"
  then have s: "text_at h (valuestring_ptr n) \<noteq> None" and c: "valuestring_ptr n \<noteq> NULL \<longrightarrow> c_text h (valuestring_ptr n) \<noteq> None"
    by (auto simp: ok_tree_def Tree)
  have nz: "valuestring_ptr n \<noteq> NULL" using s by (metis text_at_NULL)
  then obtain x where "c_text h (valuestring_ptr n) = Some x" using c by auto
  then show ?thesis using text_at_text [OF nz] by (simp add: Tree)
qed

lemma json_tags_valid: "ty \<in> set json_tags \<Longrightarrow> ty \<noteq> cJSON_Invalid"
  by (auto simp: json_tags_def cJSON_types)

lemma compare_spec:
  "(\<forall>a b. ok_tree h cs a \<and> ok_tree h cs b \<and> weight a + weight b \<le> n \<longrightarrow>
      compare_items n h cs (root a) (root b) = Some (same_json cs (shape h a) (shape h b))) \<and>
   (\<forall>ts us. (\<forall>t \<in> set ts. ok_tree h cs t) \<and> (\<forall>u \<in> set us. ok_tree h cs u) \<and> in_chain ts \<and> in_chain us
      \<and> weights ts + weights us < n \<longrightarrow>
      compare_arrays n h cs (first_or NULL (map root ts)) (first_or NULL (map root us))
        = Some (arrays_same cs (map (shape h) ts) (map (shape h) us))) \<and>
   (\<forall>ts ob. (\<forall>t \<in> set ts. ok_tree h cs t \<and> jstring (shape h t) \<noteq> None) \<and> in_chain ts \<and> ok_tree h cs ob
      \<and> has_keys cs (shape h ob) \<and> weights ts + weight ob < n \<longrightarrow>
      compare_members n h cs (first_or NULL (map root ts)) (root ob)
        = Some (\<forall>t \<in> set ts. member_of cs (jchild (shape h ob)) (shape h t)))"
proof (induction n)
  case 0
  have "0 < weight a" for a by (cases a) simp
  then show ?case by (simp add: not_le)
next
  case (Suc n)
  note items = Suc.IH [THEN conjunct1, rule_format]
    and arrays = Suc.IH [THEN conjunct2, THEN conjunct1, rule_format]
    and members = Suc.IH [THEN conjunct2, THEN conjunct2, rule_format]
  show ?case
  proof (intro conjI allI impI; elim conjE)
    fix ts us
    assume ts: "\<forall>t \<in> set ts. ok_tree h cs t" "in_chain ts" and us: "\<forall>u \<in> set us. ok_tree h cs u" "in_chain us"
      and w: "weights ts + weights us < Suc n"
    have f: "first_or NULL (map root ts) = NULL \<longleftrightarrow> ts = []" "first_or NULL (map root us) = NULL \<longleftrightarrow> us = []"
      using ts us first_or_NULL [of _ h] by (auto simp: ok_tree_def)
    show "compare_arrays (Suc n) h cs (first_or NULL (map root ts)) (first_or NULL (map root us))
        = Some (arrays_same cs (map (shape h) ts) (map (shape h) us))"
    proof (cases "ts = [] \<or> us = []")
      case True
      then show ?thesis using f by (cases ts; cases us) auto
    next
      case False
      then obtain t ts' u us' where tu: "ts = t # ts'" "us = u # us'" by (meson list.exhaust)
      have "compare_items n h cs (root t) (root u) = Some (same_json cs (shape h t) (shape h u))"
        using items ts us w by (auto simp: tu)
      moreover have "compare_arrays n h cs (first_or NULL (map root ts')) (first_or NULL (map root us'))
          = Some (arrays_same cs (map (shape h) ts') (map (shape h) us'))"
        using arrays ts us w by (auto simp: tu)
      moreover have "load h (root t) = Some (tnode t)" "load h (root u) = Some (tnode u)" "root t \<noteq> NULL" "root u \<noteq> NULL"
        using ts us viewed_load by (auto simp: tu ok_tree_def)
      ultimately show ?thesis using ts us by (auto simp: tu)
    qed
  next
    fix ts ob
    assume ts: "\<forall>t \<in> set ts. ok_tree h cs t \<and> jstring (shape h t) \<noteq> None" "in_chain ts"
      and ob: "ok_tree h cs ob" "has_keys cs (shape h ob)" and w: "weights ts + weight ob < Suc n"
    show "compare_members (Suc n) h cs (first_or NULL (map root ts)) (root ob)
        = Some (\<forall>t \<in> set ts. member_of cs (jchild (shape h ob)) (shape h t))"
    proof (cases ts)
      case Nil
      then show ?thesis by simp
    next
      case (Cons t ts')
      obtain s where s: "jstring (shape h t) = Some s" using ts Cons by auto
      have t: "viewed h t" "load h (root t) = Some (tnode t)" "root t \<noteq> NULL" "next_ptr (tnode t) = first_or NULL (map root ts')"
        using ts viewed_load Cons by (auto simp: ok_tree_def)
      have look: "get_object_item h (root ob) (string_ptr (tnode t)) cs =
          Some (case find (\<lambda>u. same_key cs (shape h t) (shape h u)) (kids ob) of None \<Rightarrow> NULL | Some u \<Rightarrow> root u)"
        using member_lookup [OF _ t(1) s ob(2)] ob(1) by (simp add: ok_tree_def)
      have rest: "compare_members n h cs (first_or NULL (map root ts')) (root ob)
          = Some (\<forall>t \<in> set ts'. member_of cs (jchild (shape h ob)) (shape h t))"
        using members [of ts' ob] ts ob w Cons by auto
      show ?thesis
      proof (cases "find (\<lambda>u. same_key cs (shape h t) (shape h u)) (kids ob)")
        case None
        then show ?thesis using look t find_member [OF ob(2), of "shape h t"] by (simp add: Cons)
      next
        case (Some u)
        then have u: "u \<in> set (kids ob)" by (auto simp: find_Some_iff)
        have "weight u < weight ob" using weight_le [OF u] weight_kids [of ob] by simp
        then have "compare_items n h cs (root t) (root u) = Some (same_json cs (shape h t) (shape h u))"
          using items [of t u] ts Cons ok_tree_kids [OF ob(1) u] w by auto
        moreover have "root u \<noteq> NULL" using ok_tree_kids [OF ob(1) u] viewed_load by (auto simp: ok_tree_def)
        ultimately show ?thesis using look Some t rest find_member [OF ob(2), of "shape h t"] by (simp add: Cons)
      qed
    qed
  next
    fix a b
    assume a: "ok_tree h cs a" and b: "ok_tree h cs b" and w: "weight a + weight b \<le> Suc n"
    have la: "load h (root a) = Some (tnode a)" "root a \<noteq> NULL" and lb: "load h (root b) = Some (tnode b)" "root b \<noteq> NULL"
      using a b viewed_load by (auto simp: ok_tree_def)
    have va: "viewed h a" "json_ok cs (shape h a)" and vb: "viewed h b" "json_ok cs (shape h b)"
      using a b by (auto simp: ok_tree_def)
    have tg: "ntype (tnode a) AND 0xFF \<in> set json_tags" using va by (cases a) auto
    show "compare_items (Suc n) h cs (root a) (root b) = Some (same_json cs (shape h a) (shape h b))"
    proof (cases "ntype (tnode a) AND 0xFF = ntype (tnode b) AND 0xFF")
      case False
      then show ?thesis using la lb by (simp add: Let_def same_json.simps [of cs "shape h a"] tag_def shape_sel)
    next
      case same: True
      show ?thesis
      proof (cases "root a = root b")
        case True
        then have "a = b" using viewed_unique va vb by blast
        then show ?thesis using la tg same_json_refl [OF va(2)] json_tags_valid by (auto simp: Let_def)
      next
        case False
        note facts = la lb same False
        note unfolds = Let_def tag_def shape_sel same_json.simps [of cs "shape h a"] cJSON_types json_tags_def
        consider (leaf) "ntype (tnode a) AND 0xFF \<in> {cJSON_False, cJSON_True, cJSON_NULL}"
          | (num) "ntype (tnode a) AND 0xFF = cJSON_Number"
          | (str) "ntype (tnode a) AND 0xFF \<in> {cJSON_String, cJSON_Raw}"
          | (arr) "ntype (tnode a) AND 0xFF = cJSON_Array" | (obj) "ntype (tnode a) AND 0xFF = cJSON_Object"
          using tg by (auto simp: json_tags_def)
        then show ?thesis
        proof cases
          case leaf
          then show ?thesis using facts by (auto simp: unfolds)
        next
          case num
          then show ?thesis using facts by (auto simp: unfolds)
        next
          case str
          obtain s t where "text_at h (valuestring_ptr (tnode a)) = Some s" "text_at h (valuestring_ptr (tnode b)) = Some t"
              "c_text h (valuestring_ptr (tnode a)) = Some s" "c_text h (valuestring_ptr (tnode b)) = Some t"
            using value_text [OF a] value_text [OF b] str same by metis
          moreover from this have "valuestring_ptr (tnode a) \<noteq> NULL" "valuestring_ptr (tnode b) \<noteq> NULL"
            by (auto simp: text_at_def split: if_splits)
          ultimately show ?thesis using facts str by (auto simp: unfolds)
        next
          case arr
          have "compare_arrays n h cs (first_or NULL (map root (kids a))) (first_or NULL (map root (kids b)))
              = Some (arrays_same cs (map (shape h) (kids a)) (map (shape h) (kids b)))"
            using ok_tree_kids [OF a] ok_tree_kids [OF b] ok_tree_links [OF a] ok_tree_links [OF b] w
            by (intro arrays) (auto simp: weight_kids [of a] weight_kids [of b])
          then show ?thesis using facts arr ok_tree_links [OF a] ok_tree_links [OF b]
            by (simp add: unfolds arrays_same_def)
        next
          case obj
          have hk: "has_keys cs (shape h a)" "has_keys cs (shape h b)"
            using ok_tree_object a b obj same by auto
          have "compare_members n h cs (first_or NULL (map root (kids a))) (root b)
              = Some (\<forall>t \<in> set (kids a). member_of cs (jchild (shape h b)) (shape h t))"
            using ok_tree_kids [OF a] ok_tree_links [OF a] hk b w
            by (intro members) (auto simp: weight_kids [of a] has_keys_def shape_sel)
          moreover have "compare_members n h cs (first_or NULL (map root (kids b))) (root a)
              = Some (\<forall>t \<in> set (kids b). member_of cs (jchild (shape h a)) (shape h t))"
            using ok_tree_kids [OF b] ok_tree_links [OF b] hk a w
            by (intro members) (auto simp: weight_kids [of b] has_keys_def shape_sel)
          moreover have "same_json cs (shape h a) (shape h b) \<longleftrightarrow>
              (\<forall>t \<in> set (kids a). member_of cs (jchild (shape h b)) (shape h t)) \<and>
              (\<forall>t \<in> set (kids b). member_of cs (jchild (shape h a)) (shape h t))"
            using obj same by (simp add: same_json_object tag_def shape_sel)
          ultimately show ?thesis using facts obj ok_tree_links [OF a] ok_tree_links [OF b]
            by (simp add: Let_def json_tags_def cJSON_types)
        qed
      qed
    qed
  qed
qed

subsection \<open>Property\<close>

text \<open>
  C16: on two JSON values \<open>cJSON_Compare\<close> terminates, reads only items and strings of the two
  values, and decides equality of JSON values: numbers up to the library's tolerance, arrays
  element by element, objects by their members in any order, with names compared in the case the
  caller asks for.  A value has finite numbers, strings that are present, and objects whose
  members have different names.
\<close>

theorem cJSON_Compare_decides:
  assumes "viewed h a" and "viewed h b" and "json_ok cs (shape h a)" and "json_ok cs (shape h b)"
    and "weight a + weight b \<le> n"
  shows "compare_items n h cs (root a) (root b) = Some (same_json cs (shape h a) (shape h b))"
  using compare_spec [of h cs n] assms by (auto simp: ok_tree_def)

definition demo2 :: heap where
  \<comment> \<open>next to the object \<open>{"a": true, "B": null}\<close> at 5, the same one in the other order at 6\<close>
  "demo2 = demo\<lparr>items := (items demo)(6 \<mapsto> demo_item 0 0 7 cJSON_Object 0, 7 \<mapsto> demo_item 8 8 0 cJSON_NULL 12,
      8 \<mapsto> demo_item 0 7 0 cJSON_True 11)\<rparr>"

definition demo2_tree :: tree where
  "demo2_tree = Tree 6 (demo_item 0 0 7 cJSON_Object 0)
     [Tree 7 (demo_item 8 8 0 cJSON_NULL 12) [], Tree 8 (demo_item 0 7 0 cJSON_True 11) []]"

lemma demo2_views: "viewed demo2 demo_tree" "viewed demo2 demo2_tree"
  by (simp_all add: demo2_def demo_tree_def demo2_tree_def load_def demo_def c_text_def demo_item_def zero_node_def)

definition demo_leaf :: "u32 \<Rightarrow> bytes \<Rightarrow> cJSON" where
  "demo_leaf ty s = CJ ty None 0 d_zero (Some s) []"

lemma demo2_shapes:
  "shape demo2 demo_tree = CJ cJSON_Object None 0 d_zero None [demo_leaf cJSON_True [97], demo_leaf cJSON_NULL [66]]"
  "shape demo2 demo2_tree = CJ cJSON_Object None 0 d_zero None [demo_leaf cJSON_NULL [66], demo_leaf cJSON_True [97]]"
  by (simp_all add: demo2_def demo_tree_def demo2_tree_def text_at_def demo_def demo_item_def zero_node_def demo_leaf_def string_of_buf_def)

lemma demo_leaf_ok:
  "json_ok cs (demo_leaf cJSON_True s)" "json_ok cs (demo_leaf cJSON_NULL s)"
  "same_key cs (demo_leaf ty s) (demo_leaf ty' s') \<longleftrightarrow> same_name cs s s'" "jstring (demo_leaf ty s) = Some s"
  by (simp_all add: demo_leaf_def json_tags_def cJSON_types same_key_def)

lemma demo2_ok: "json_ok True (shape demo2 demo_tree)" "json_ok True (shape demo2 demo2_tree)"
  by (simp_all add: demo2_shapes has_keys_def demo_leaf_ok [unfolded cJSON_types] demo_leaf_ok same_name_def less_Suc_eq json_tags_def cJSON_types)

theorem cJSON_Compare_decides_witness:
  "compare_items 16 demo2 True 5 6 = Some True"
proof -
  have "same_json True (demo_leaf ty s) (demo_leaf ty s)" if "ty = cJSON_True \<or> ty = cJSON_NULL" for ty s
    using that demo_leaf_ok by (auto intro: same_json_refl)
  then have "same_json True (shape demo2 demo_tree) (shape demo2 demo2_tree)"
    unfolding demo2_shapes by (subst same_json_object) (simp_all add: tag_def cJSON_types member_of_def demo_leaf_ok same_name_def)
  then show ?thesis
    using cJSON_Compare_decides [OF demo2_views demo2_ok, of 16] by (simp add: demo_tree_def demo2_tree_def)
qed

end
