(* ===== verification/JsonMinify.thy ===== *)
theory JsonMinify
  imports JsonPrintSafe
begin

text \<open>
  \<open>cJSON_Minify\<close> of \<open>JSON/cJSON.c\<close>, which removes white space and comments from a C string in
  place: the code with its two pointers into one buffer, what it computes as a function on the
  string, and what it does to the texts the printer makes.
\<close>

subsection \<open>The code\<close>

text \<open>
  The buffer is a list of bytes and the pointers \<open>json\<close> and \<open>into\<close> are offsets into it.  An access
  outside the buffer gives \<open>None\<close>, and so does a loop that never ends.
\<close>

partial_function (option) oneline_loop :: "bytes \<Rightarrow> nat \<Rightarrow> nat option" where
  "oneline_loop b input = do {
     c \<leftarrow> read_at b input;
     if c = 0 then Some input
     else if c = 10 then Some (input + 1)
     else oneline_loop b (input + 1) }"

definition skip_oneline_comment :: "bytes \<Rightarrow> nat \<Rightarrow> nat option" where
  "skip_oneline_comment b input = oneline_loop b (input + 2)"

partial_function (option) multiline_loop :: "bytes \<Rightarrow> nat \<Rightarrow> nat option" where
  "multiline_loop b input = do {
     c \<leftarrow> read_at b input;
     if c = 0 then Some input
     else do {
       end_mark \<leftarrow> (if c = 42 then map_option (\<lambda>d. d = 47) (read_at b (input + 1)) else Some False);
       if end_mark then Some (input + 2) else multiline_loop b (input + 1) } }"

definition skip_multiline_comment :: "bytes \<Rightarrow> nat \<Rightarrow> nat option" where
  "skip_multiline_comment b input = multiline_loop b (input + 2)"

partial_function (option) minify_string_loop :: "bytes \<Rightarrow> nat \<Rightarrow> nat \<Rightarrow> (bytes \<times> nat \<times> nat) option" where
  "minify_string_loop b input output = do {
     c \<leftarrow> read_at b input;
     if c = 0 then Some (b, input, output)
     else do {
       b \<leftarrow> write_at b output [c];
       c \<leftarrow> read_at b input;
       if c = 34 then do { b \<leftarrow> write_at b output [34]; Some (b, input + 1, output + 1) }
       else do {
         escaped_quote \<leftarrow> (if c = 92 then map_option (\<lambda>d. d = 34) (read_at b (input + 1)) else Some False);
         if escaped_quote then do {
           d \<leftarrow> read_at b (input + 1);
           b \<leftarrow> write_at b (output + 1) [d];
           minify_string_loop b (input + 2) (output + 2) }
         else minify_string_loop b (input + 1) (output + 1) } } }"

definition minify_string :: "bytes \<Rightarrow> nat \<Rightarrow> nat \<Rightarrow> (bytes \<times> nat \<times> nat) option" where
  "minify_string b input output = do {
     c \<leftarrow> read_at b input;
     b \<leftarrow> write_at b output [c];
     minify_string_loop b (input + 1) (output + 1) }"

partial_function (option) minify_loop :: "bytes \<Rightarrow> nat \<Rightarrow> nat \<Rightarrow> (bytes \<times> nat) option" where
  "minify_loop b json into = do {
     c \<leftarrow> read_at b json;
     if c = 0 then Some (b, into)
     else if c = 32 \<or> c = 9 \<or> c = 13 \<or> c = 10 then minify_loop b (json + 1) into
     else if c = 47 then do {
       d \<leftarrow> read_at b (json + 1);
       json \<leftarrow> (if d = 47 then skip_oneline_comment b json
                else if d = 42 then skip_multiline_comment b json
                else Some (json + 1));
       minify_loop b json into }
     else if c = 34 then do {
       (b, json, into) \<leftarrow> minify_string b json into;
       minify_loop b json into }
     else do {
       b \<leftarrow> write_at b into [c];
       minify_loop b (json + 1) (into + 1) } }"

definition cJSON_Minify :: "bytes \<Rightarrow> bytes option" where
  \<comment> \<open>of a pointer that is not \<open>NULL\<close>\<close>
  "cJSON_Minify json = do {
     (b, into) \<leftarrow> minify_loop json 0 0;
     write_at b into [0] }"

subsection \<open>What it computes\<close>

fun after_line :: "bytes \<Rightarrow> bytes" where
  "after_line [] = []"
| "after_line (c # s) = (if c = 10 then s else after_line s)"

fun after_block :: "bytes \<Rightarrow> bytes" where
  "after_block (c # d # s) = (if c = 42 \<and> d = 47 then s else after_block (d # s))"
| "after_block s = []"

fun string_part :: "bytes \<Rightarrow> bytes \<times> bytes" where
  \<comment> \<open>the text up to the end of a string, and what follows\<close>
  "string_part [] = ([], [])"
| "string_part [c] = ([c], [])"
| "string_part (c # d # s) =
     (if c = 34 then ([c], d # s)
      else if c = 92 \<and> d = 34 then (case string_part s of (k, r) \<Rightarrow> (c # d # k, r))
      else (case string_part (d # s) of (k, r) \<Rightarrow> (c # k, r)))"

lemma after_line_length: "length (after_line s) \<le> length s"
  by (induction s) auto

lemma after_block_length: "length (after_block s) \<le> length s"
  by (induction s rule: after_block.induct) auto

lemma string_part_append: "string_part s = (k, r) \<Longrightarrow> s = k @ r"
  by (induction s arbitrary: k r rule: string_part.induct) (auto split: prod.splits if_splits)

lemma string_part_length: "string_part s = (k, r) \<Longrightarrow> length k + length r = length s"
  using string_part_append by fastforce

function minified :: "bytes \<Rightarrow> bytes" where
  "minified [] = []"
| "minified (c # s) =
     (if c = 32 \<or> c = 9 \<or> c = 13 \<or> c = 10 then minified s
      else if c = 47 then
        (if s = [] then []
         else if hd s = 47 then minified (after_line (tl s))
         else if hd s = 42 then minified (after_block (tl s))
         else minified s)
      else if c = 34 then (case string_part s of (k, r) \<Rightarrow> c # k @ minified r)
      else c # minified s)"
  by pat_completeness auto
termination
  by (relation "measure length")
    (auto simp: less_Suc_eq_le intro: after_line_length [THEN le_trans] after_block_length [THEN le_trans]
      dest: string_part_length [OF sym])

declare minified.simps [simp del]

subsection \<open>The code computes it\<close>

text \<open>
  \<open>out\<close> is written, \<open>gap\<close> is free and \<open>s\<close> is still to be read; a write of the next byte moves it
  over the gap.
\<close>

definition shift :: "bytes \<Rightarrow> u8 \<Rightarrow> bytes" where
  "shift gap c = tl (gap @ [c])"

lemma length_shift [simp]: "length (shift gap c) = length gap"
  by (simp add: shift_def)

lemma write_shift [simp]:
  "write_at (out @ gap @ c # r) (length out) [c] = Some (out @ [c] @ shift gap c @ r)"
  by (cases gap) (simp_all add: write_at_def shift_def)

lemma oneline_loop_skips:
  "c_string s \<Longrightarrow> \<exists>l. s = l @ after_line s \<and> oneline_loop (b @ s @ 0 # t) (length b) = Some (length (b @ l))"
proof (induction s arbitrary: b)
  case Nil
  show ?case by (subst oneline_loop.simps) (simp add: buf_simps)
next
  case (Cons c s)
  show ?case
  proof (cases "c = 10")
    case True
    then show ?thesis by (intro exI [of _ "[10]"]) (subst oneline_loop.simps, simp add: buf_simps)
  next
    case False
    obtain l where l: "s = l @ after_line s" "oneline_loop ((b @ [c]) @ s @ 0 # t) (length (b @ [c])) = Some (length ((b @ [c]) @ l))"
      using Cons.IH [of "b @ [c]"] Cons.prems by auto
    then show ?thesis using False Cons.prems
      by (intro exI [of _ "c # l"]) (subst oneline_loop.simps, simp add: buf_simps)
  qed
qed

lemma multiline_loop_skips:
  "c_string s \<Longrightarrow> \<exists>l. s = l @ after_block s \<and> multiline_loop (b @ s @ 0 # t) (length b) = Some (length (b @ l))"
proof (induction s arbitrary: b rule: after_block.induct)
  case (1 c d s)
  show ?case
  proof (cases "c = 42 \<and> d = 47")
    case True
    then show ?thesis by (intro exI [of _ "[42, 47]"]) (subst multiline_loop.simps, simp add: buf_simps read_at_def nth_append)
  next
    case False
    obtain l where l: "d # s = l @ after_block (d # s)"
        "multiline_loop ((b @ [c]) @ (d # s) @ 0 # t) (length (b @ [c])) = Some (length ((b @ [c]) @ l))"
      using 1(1) [of "b @ [c]"] 1(2) False by auto
    then show ?thesis using False 1(2)
      by (intro exI [of _ "c # l"]) (subst multiline_loop.simps, auto simp add: buf_simps read_at_def nth_append)
  qed
next
  case "2_1"
  show ?case by (subst multiline_loop.simps) (simp add: buf_simps)
next
  case "2_2"
  then show ?case
    by (subst multiline_loop.simps, subst multiline_loop.simps) (auto simp: buf_simps read_at_def nth_append)
qed

lemma write_shift_Cons [simp]:
  "write_at (out @ gap @ c # r) (length out) [c] = Some (out @ c # shift gap c @ r)"
  using write_shift by simp

lemma read_shifted [simp]: "read_at (c # shift gap c @ r) (length gap) = Some c"
  by (cases gap) (simp_all add: shift_def read_at_def nth_append)

lemma read_shifted_next [simp]: "read_at (out @ c # shift gap c @ d # r) (Suc (length out + length gap)) = Some d"
  "read_at (out @ gap @ c # d # r) (Suc (length out + length gap)) = Some d"
  by (simp_all add: read_at_def nth_append)

lemma minify_string_loop_step:
  "c \<noteq> 0 \<Longrightarrow> c \<noteq> 34 \<Longrightarrow> c = 92 \<longrightarrow> d \<noteq> 34 \<Longrightarrow>
   minify_string_loop (out @ gap @ c # d # r) (length out + length gap) (length out) =
   minify_string_loop (out @ c # shift gap c @ d # r) (Suc (length out + length gap)) (Suc (length out))"
  by (subst minify_string_loop.simps) simp

lemma minify_string_loop_escape:
  "minify_string_loop (out @ gap @ 92 # 34 # r) (length out + length gap) (length out) =
   minify_string_loop (out @ 92 # 34 # shift (shift gap 92) 34 @ r) (Suc (Suc (length out + length gap))) (Suc (Suc (length out)))"
  using write_shift_Cons [of "out @ [92]" "shift gap 92" 34 r] by (subst minify_string_loop.simps) simp

lemma minify_string_loop_quote:
  "minify_string_loop (out @ gap @ 34 # r) (length out + length gap) (length out) =
   Some (out @ 34 # shift gap 34 @ r, Suc (length out + length gap), Suc (length out))"
proof -
  have "write_at (out @ 34 # shift gap 34 @ r) (length out) [34] = Some (out @ 34 # shift gap 34 @ r)"
    by (simp add: write_at_def)
  then show ?thesis by (subst minify_string_loop.simps) simp
qed

lemma minify_string_loop_end:
  "minify_string_loop (out @ gap @ 0 # r) (length out + length gap) (length out) =
   Some (out @ gap @ 0 # r, length out + length gap, length out)"
  by (subst minify_string_loop.simps) simp

lemma minify_string_loop_keeps:
  "c_string s \<Longrightarrow> string_part s = (k, r) \<Longrightarrow>
   \<exists>g. length g = length gap \<and>
     minify_string_loop (out @ gap @ s @ 0 # t) (length out + length gap) (length out)
       = Some (out @ k @ g @ r @ 0 # t, length out + length k + length g, length out + length k)"
proof (induction s arbitrary: out gap k r rule: string_part.induct)
  case 1
  then show ?case using minify_string_loop_end by auto
next
  case (2 c)
  show ?case
  proof (cases "c = 34")
    case True
    then show ?thesis using 2 minify_string_loop_quote [of out gap "0 # t"]
      by (intro exI [of _ "shift gap 34"]) auto
  next
    case False
    have "minify_string_loop (out @ gap @ c # 0 # t) (length out + length gap) (length out) =
        Some (out @ c # shift gap c @ 0 # t, Suc (length out + length gap), Suc (length out))"
      using minify_string_loop_step [of c 0] minify_string_loop_end [of "out @ [c]" "shift gap c" t] 2 False by simp
    then show ?thesis using 2 by (intro exI [of _ "shift gap c"]) auto
  qed
next
  case (3 c d s)
  consider (quote) "c = 34" | (esc) "c = 92" "d = 34" | (char) "c \<noteq> 34" "c = 92 \<longrightarrow> d \<noteq> 34" by auto
  then show ?case
  proof cases
    case quote
    then show ?thesis using 3(4) minify_string_loop_quote [of out gap "d # s @ 0 # t"]
      by (intro exI [of _ "shift gap 34"]) auto
  next
    case esc
    then obtain k' where k: "string_part s = (k', r)" "k = 92 # 34 # k'" using 3(4) by (auto split: prod.splits)
    show ?thesis using 3(1) [of k' r "shift (shift gap 92) 34" "out @ [92, 34]"] 3(3) esc k minify_string_loop_escape [of out gap "s @ 0 # t"]
      by auto
  next
    case char
    then obtain k' where k: "string_part (d # s) = (k', r)" "k = c # k'" using 3(4) by (auto split: prod.splits)
    show ?thesis using 3(2) [of k' r "shift gap c" "out @ [c]"] 3(3) char k minify_string_loop_step [of c d out gap "s @ 0 # t"]
      by auto
  qed
qed

lemma minify_string_keeps:
  assumes "c_string (c # s)" and "string_part s = (k, r)"
  shows "\<exists>g. length g = length gap \<and>
     minify_string (out @ gap @ c # s @ 0 # t) (length out + length gap) (length out)
       = Some (out @ c # k @ g @ r @ 0 # t, length (out @ c # k @ g), length (out @ c # k))"
  using minify_string_loop_keeps [of s k r "shift gap c" "out @ [c]" t] assms
  by (auto simp: minify_string_def)

lemma after_line_c_string: "c_string s \<Longrightarrow> c_string (after_line s)"
  by (induction s) auto

lemma after_block_c_string: "c_string s \<Longrightarrow> c_string (after_block s)"
  by (induction s rule: after_block.induct) auto

definition minifies_to :: "bytes \<Rightarrow> bytes \<Rightarrow> bytes \<Rightarrow> bytes \<Rightarrow> bool" where
  \<comment> \<open>with \<open>s\<close> left to read, the loop appends \<open>x\<close> to the output, whatever the gap\<close>
  "minifies_to out t s x \<longleftrightarrow> (\<forall>gap. \<exists>g. length x + length g = length gap + length s \<and>
     minify_loop (out @ gap @ s @ 0 # t) (length out + length gap) (length out)
       = Some (out @ x @ g @ 0 # t, length out + length x))"

lemma minifies_to_skip:
  \<comment> \<open>a step that only moves the input pointer\<close>
  assumes "\<And>gap. minify_loop (out @ gap @ (l @ s) @ 0 # t) (length out + length gap) (length out) =
      minify_loop (out @ (gap @ l) @ s @ 0 # t) (length out + length (gap @ l)) (length out)"
    and "minifies_to out t s x"
  shows "minifies_to out t (l @ s) x"
  unfolding minifies_to_def
proof (intro allI)
  fix gap
  obtain g where "length x + length g = length (gap @ l) + length s"
      "minify_loop (out @ (gap @ l) @ s @ 0 # t) (length out + length (gap @ l)) (length out)
        = Some (out @ x @ g @ 0 # t, length out + length x)"
    using assms(2) unfolding minifies_to_def by blast
  then show "\<exists>g. length x + length g = length gap + length (l @ s) \<and>
      minify_loop (out @ gap @ (l @ s) @ 0 # t) (length out + length gap) (length out)
        = Some (out @ x @ g @ 0 # t, length out + length x)"
    using assms(1) [of gap] by (intro exI [of _ g]) auto
qed

lemma minify_loop_white:
  "c = 32 \<or> c = 9 \<or> c = 13 \<or> c = 10 \<Longrightarrow> minify_loop (out @ gap @ ([c] @ r)) (length out + length gap) (length out) =
   minify_loop (out @ (gap @ [c]) @ r) (length out + length (gap @ [c])) (length out)"
  by (subst minify_loop.simps) auto

lemma minify_loop_slash:
  "d \<noteq> 47 \<Longrightarrow> d \<noteq> 42 \<Longrightarrow> minify_loop (out @ gap @ ([47] @ d # r)) (length out + length gap) (length out) =
   minify_loop (out @ (gap @ [47]) @ d # r) (length out + length (gap @ [47])) (length out)"
  by (subst minify_loop.simps) auto

lemma minify_loop_line:
  assumes "c_string s"
  obtains l where "s = l @ after_line s"
    "\<And>gap. minify_loop (out @ gap @ ((47 # 47 # l) @ after_line s) @ 0 # t) (length out + length gap) (length out) =
     minify_loop (out @ (gap @ 47 # 47 # l) @ after_line s @ 0 # t) (length out + length (gap @ 47 # 47 # l)) (length out)"
proof -
  have ex: "\<exists>l. s = l @ after_line s \<and> oneline_loop (b @ s @ 0 # t) (length b) = Some (length (b @ l))" for b
    using oneline_loop_skips [OF assms] .
  obtain l where l: "s = l @ after_line s" using ex by blast
  have rest: "l @ after_line s @ 0 # t = s @ 0 # t" by (metis append_assoc l)
  have "oneline_loop ((out @ gap @ [47, 47]) @ s @ 0 # t) (length (out @ gap @ [47, 47])) = Some (length ((out @ gap @ [47, 47]) @ l))" for gap
    using ex [of "out @ gap @ [47, 47]"] l by (metis append_same_eq)
  then have "minify_loop (out @ gap @ ((47 # 47 # l) @ after_line s) @ 0 # t) (length out + length gap) (length out) =
     minify_loop (out @ (gap @ 47 # 47 # l) @ after_line s @ 0 # t) (length out + length (gap @ 47 # 47 # l)) (length out)" for gap
    by (subst minify_loop.simps) (simp add: skip_oneline_comment_def rest)
  with l show thesis by (rule that)
qed

lemma minify_loop_block:
  assumes "c_string s"
  obtains l where "s = l @ after_block s"
    "\<And>gap. minify_loop (out @ gap @ ((47 # 42 # l) @ after_block s) @ 0 # t) (length out + length gap) (length out) =
     minify_loop (out @ (gap @ 47 # 42 # l) @ after_block s @ 0 # t) (length out + length (gap @ 47 # 42 # l)) (length out)"
proof -
  have ex: "\<exists>l. s = l @ after_block s \<and> multiline_loop (b @ s @ 0 # t) (length b) = Some (length (b @ l))" for b
    using multiline_loop_skips [OF assms] .
  obtain l where l: "s = l @ after_block s" using ex by blast
  have rest: "l @ after_block s @ 0 # t = s @ 0 # t" by (metis append_assoc l)
  have "multiline_loop ((out @ gap @ [47, 42]) @ s @ 0 # t) (length (out @ gap @ [47, 42])) = Some (length ((out @ gap @ [47, 42]) @ l))" for gap
    using ex [of "out @ gap @ [47, 42]"] l by (metis append_same_eq)
  then have "minify_loop (out @ gap @ ((47 # 42 # l) @ after_block s) @ 0 # t) (length out + length gap) (length out) =
     minify_loop (out @ (gap @ 47 # 42 # l) @ after_block s @ 0 # t) (length out + length (gap @ 47 # 42 # l)) (length out)" for gap
    by (subst minify_loop.simps) (simp add: skip_multiline_comment_def rest)
  with l show thesis by (rule that)
qed

lemma minifies_to_minified: "c_string s \<Longrightarrow> minifies_to out t s (minified s)"
proof (induction s arbitrary: out rule: minified.induct)
  case 1
  show ?case unfolding minifies_to_def by (subst minify_loop.simps) (simp add: minified.simps)
next
  case (2 c s)
  note m = minified.simps(2) [of c s]
  have cs: "c \<noteq> 0" "c_string s" using 2(7) by auto
  consider (white) "c = 32 \<or> c = 9 \<or> c = 13 \<or> c = 10" | (slash) "c = 47" | (quote) "c = 34"
    | (other) "\<not> (c = 32 \<or> c = 9 \<or> c = 13 \<or> c = 10)" "c \<noteq> 47" "c \<noteq> 34" by auto
  then show ?case
  proof cases
    case white
    then show ?thesis using minifies_to_skip [of out "[c]" s t "minified s"] minify_loop_white [of c out _ "s @ 0 # t"] 2(1) cs
      by (auto simp: m)
  next
    case slash
    consider (line) s' where "s = 47 # s'" | (block) s' where "s = 42 # s'" | (lone) "s = [] \<or> hd s \<noteq> 47 \<and> hd s \<noteq> 42"
      by (metis list.collapse)
    then show ?thesis
    proof cases
      case line
      then obtain l where l: "s' = l @ after_line s'"
        "\<And>gap. minify_loop (out @ gap @ ((47 # 47 # l) @ after_line s') @ 0 # t) (length out + length gap) (length out) =
     minify_loop (out @ (gap @ 47 # 47 # l) @ after_line s' @ 0 # t) (length out + length (gap @ 47 # 47 # l)) (length out)"
        using minify_loop_line cs by (metis c_string_Cons)
      have "minifies_to out t (after_line s') (minified (after_line s'))"
        using 2(2) slash line cs after_line_c_string by auto
      from minifies_to_skip [OF l(2) this] show ?thesis using l(1) slash line by (simp add: minified.simps(2) [of 47 "47 # s'"])
    next
      case block
      then obtain l where l: "s' = l @ after_block s'"
        "\<And>gap. minify_loop (out @ gap @ ((47 # 42 # l) @ after_block s') @ 0 # t) (length out + length gap) (length out) =
     minify_loop (out @ (gap @ 47 # 42 # l) @ after_block s' @ 0 # t) (length out + length (gap @ 47 # 42 # l)) (length out)"
        using minify_loop_block cs by (metis c_string_Cons)
      have "minifies_to out t (after_block s') (minified (after_block s'))"
        using 2(3) slash block cs after_block_c_string by auto
      from minifies_to_skip [OF l(2) this] show ?thesis using l(1) slash block by (simp add: minified.simps(2) [of 47 "42 # s'"])
    next
      case lone
      then obtain d r where d: "s @ 0 # t = d # r" "d \<noteq> 47" "d \<noteq> 42" by (cases s) auto
      have "minifies_to out t s (minified s)"
        using 2(4) slash lone cs by (cases "s = []") (auto simp: minifies_to_def minified.simps minify_loop.simps)
      then have "minifies_to out t ([47] @ s) (minified s)"
        using minify_loop_slash [OF d(2,3)] d(1) by (intro minifies_to_skip) simp_all
      then show ?thesis using slash lone by (auto simp: minified.simps(1) minified.simps(2) [of 47])
    qed
  next
    case quote
    obtain k r where k: "string_part s = (k, r)" by fastforce
    then have s: "s = k @ r" by (rule string_part_append)
    have m34: "minified (34 # s) = 34 # k @ minified r" by (simp add: minified.simps(2) [of 34] k)
    have IH: "minifies_to (out @ c # k) t r (minified r)" using 2(5) k quote cs s by auto
    show ?thesis unfolding minifies_to_def
    proof (intro allI)
      fix gap
      obtain g where g: "length g = length gap" "minify_string (out @ gap @ c # s @ 0 # t) (length out + length gap) (length out)
         = Some (out @ c # k @ g @ r @ 0 # t, length (out @ c # k @ g), length (out @ c # k))"
        using minify_string_keeps [of c s k r gap out t] 2(7) k by auto
      moreover obtain g' where "length (minified r) + length g' = length g + length r"
          "minify_loop ((out @ c # k) @ g @ r @ 0 # t) (length (out @ c # k) + length g) (length (out @ c # k))
         = Some ((out @ c # k) @ minified r @ g' @ 0 # t, length (out @ c # k) + length (minified r))"
        using IH unfolding minifies_to_def by blast
      ultimately show "\<exists>g. length (minified (c # s)) + length g = length gap + length (c # s) \<and>
          minify_loop (out @ gap @ (c # s) @ 0 # t) (length out + length gap) (length out)
            = Some (out @ minified (c # s) @ g @ 0 # t, length out + length (minified (c # s)))"
        using quote s m34 by (intro exI [of _ g']) (subst minify_loop.simps, simp add: add.assoc)
    qed
  next
    case other
    have IH: "minifies_to (out @ [c]) t s (minified s)" using 2(6) other cs by auto
    show ?thesis unfolding minifies_to_def
    proof (intro allI)
      fix gap
      obtain g where "length (minified s) + length g = length (shift gap c) + length s"
          "minify_loop ((out @ [c]) @ shift gap c @ s @ 0 # t) (length (out @ [c]) + length (shift gap c)) (length (out @ [c]))
         = Some ((out @ [c]) @ minified s @ g @ 0 # t, length (out @ [c]) + length (minified s))"
        using IH unfolding minifies_to_def by blast
      then show "\<exists>g. length (minified (c # s)) + length g = length gap + length (c # s) \<and>
          minify_loop (out @ gap @ (c # s) @ 0 # t) (length out + length gap) (length out)
            = Some (out @ minified (c # s) @ g @ 0 # t, length out + length (minified (c # s)))"
        using other cs by (intro exI [of _ g]) (subst minify_loop.simps, simp add: m)
    qed
  qed
qed

subsection \<open>Minified texts\<close>

definition plain_char :: "u8 \<Rightarrow> bool" where
  \<comment> \<open>kept outside strings\<close>
  "plain_char c \<longleftrightarrow> c \<notin> {32, 9, 13, 10, 47, 34}"

definition white :: "u8 \<Rightarrow> bool" where
  "white c \<longleftrightarrow> c \<in> {32, 9, 13, 10}"

lemma minified_plain: "\<forall>c \<in> set x. plain_char c \<Longrightarrow> minified (x @ r) = x @ minified r"
  by (induction x) (auto simp: minified.simps plain_char_def)

lemma minified_white: "\<forall>c \<in> set x. white c \<Longrightarrow> minified (x @ r) = minified r"
  by (induction x) (auto simp: minified.simps white_def)

lemma minified_string: "string_part s = (k, r) \<Longrightarrow> minified (34 # s) = 34 # k @ minified r"
  by (simp add: minified.simps)

lemma string_part_plain: "c \<noteq> 34 \<Longrightarrow> c \<noteq> 92 \<Longrightarrow> string_part (c # s) = (case string_part s of (k, r) \<Rightarrow> (c # k, r))"
  by (cases s) auto

lemma string_part_plains:
  "\<forall>c \<in> set x. c \<noteq> 34 \<and> c \<noteq> 92 \<Longrightarrow> string_part (x @ s) = (case string_part s of (k, r) \<Rightarrow> (x @ k, r))"
  by (induction x) (auto simp: string_part_plain split: prod.splits)

lemma string_part_quote: "string_part (34 # s) = ([34], s)"
  by (cases s) auto

lemma string_part_head: "string_part (d # s) = (k, r) \<Longrightarrow> \<exists>k'. k = d # k'"
  by (cases s) (auto split: prod.splits if_splits)

lemma string_part_cut:
  "string_part s = (k, r) \<Longrightarrow> r \<noteq> [] \<or> y = [] \<Longrightarrow> string_part (k @ y) = (k, y)"
proof (induction s arbitrary: k r rule: string_part.induct)
  case (3 c d s)
  consider (quote) "c = 34" | (esc) "c = 92" "d = 34" | (char) "c \<noteq> 34" "c = 92 \<longrightarrow> d \<noteq> 34" by auto
  then show ?case
  proof cases
    case quote
    then show ?thesis using 3(3) string_part_quote by auto
  next
    case esc
    then show ?thesis using 3(1,3,4) by (auto split: prod.splits)
  next
    case char
    then obtain k' where k: "string_part (d # s) = (k', r)" "k = c # k'" using 3(3) by (auto split: prod.splits)
    obtain k'' where k'': "k' = d # k''" using string_part_head k(1) by blast
    have "string_part (k' @ y) = (k', y)" using 3(2) [of k' r] char k(1) 3(4) by auto
    then show ?thesis using char by (auto simp: k(2) k'' split: prod.splits)
  qed
qed (auto split: if_splits)

lemma string_part_closed:
  "string_part s = (k, r) \<Longrightarrow> r = [] \<Longrightarrow> string_part (k @ []) = (k, [])"
  using string_part_cut [of s k r "[]"] by simp

lemma minified_twice: "minified (minified s) = minified s"
proof (induction s rule: minified.induct)
  case (2 c s)
  consider (quote) "c = 34" | (slash) "c = 47" | (white) "white c"
    | (other) "plain_char c" by (auto simp: plain_char_def white_def)
  then show ?case
  proof cases
    case quote
    obtain k r where k: "string_part s = (k, r)" by fastforce
    have IH: "minified (minified r) = minified r" using 2(5) k quote by auto
    have "string_part (k @ minified r) = (k, minified r)"
      by (rule string_part_cut [OF k]) (auto simp: minified.simps)
    then show ?thesis using IH quote by (simp add: minified_string [OF k] minified_string)
  next
    case slash
    then show ?thesis using 2(2,3,4) by (auto simp: minified.simps(2) [of 47] minified.simps(1))
  next
    case white
    then show ?thesis using 2(1) minified_white [of "[c]" s] by (auto simp: white_def)
  next
    case other
    then show ?thesis using 2(6) minified_plain [of "[c]" s] minified_plain [of "[c]" "minified s"]
      by (auto simp: plain_char_def)
  qed
qed (simp add: minified.simps)

subsection \<open>Minifying what the printer printed\<close>

lemma string_part_pair:
  assumes "l = 92 \<longrightarrow> z \<noteq> [] \<and> hd z \<noteq> 34"
  shows "string_part (92 # l # z) = (case string_part z of (k, r) \<Rightarrow> (92 # l # k, r))"
proof (cases "l = 34")
  case False
  have "string_part (l # z) = (case string_part z of (k, r) \<Rightarrow> (l # k, r))"
  proof (cases "l = 92")
    case True
    then show ?thesis using assms by (cases z) auto
  next
    case False
    then show ?thesis using \<open>l \<noteq> 34\<close> by (rule string_part_plain [rotated])
  qed
  then show ?thesis using False by (simp split: prod.splits)
qed simp

definition tame_string :: "bytes \<Rightarrow> bool" where
  \<comment> \<open>does not end in a backslash\<close>
  "tame_string s \<longleftrightarrow> s = [] \<or> last s \<noteq> 92"

lemma escaped_head: "\<exists>c z. escape_byte y = c # z \<and> c \<noteq> 34"
  by (cases y rule: escape_byte_cases) auto

lemma string_part_escaped: "tame_string s \<Longrightarrow> string_part (escaped s @ 34 # r) = (escaped s @ [34], r)"
proof (induction s)
  case Nil
  then show ?case by (simp add: string_part_quote)
next
  case (Cons x s)
  have IH: "string_part (escaped s @ 34 # r) = (escaped s @ [34], r)"
    using Cons by (auto simp: tame_string_def split: if_splits)
  show ?case
  proof (cases x rule: escape_byte_cases)
    case plain
    then show ?thesis using IH by (simp add: string_part_plain)
  next
    case (letter l)
    have "escaped s @ 34 # r \<noteq> [] \<and> hd (escaped s @ 34 # r) \<noteq> 34" if "l = 92"
    proof -
      have "x = 92" using letter(2) that by (simp add: simple_escape_def split: if_splits)
      then obtain y s' where s: "s = y # s'" using Cons.prems by (cases s) (auto simp: tame_string_def)
      then show ?thesis using escaped_head [of y] by auto
    qed
    then show ?thesis using IH letter by (simp add: string_part_pair del: string_part.simps)
  next
    case hex
    then have "\<forall>c \<in> set [117, 48, 48, hex_lower (drop_bit 4 x), hex_lower (x AND 15)]. c \<noteq> 34 \<and> c \<noteq> 92"
      using small_hex [of x] by simp
    from string_part_plains [OF this, of "escaped s @ 34 # r"] show ?thesis using IH hex by simp
  qed
qed

definition tame_text :: "bytes option \<Rightarrow> bool" where
  "tame_text s \<longleftrightarrow> (case s of None \<Rightarrow> True | Some x \<Rightarrow> tame_string x)"

fun tame :: "cJSON \<Rightarrow> bool" where
  \<comment> \<open>no string or name ends in a backslash, and nothing is raw text\<close>
  "tame (CJ ty vs vi vd s c) \<longleftrightarrow> ty AND 0xFF \<noteq> cJSON_Raw \<and> tame_text vs \<and> tame_text s \<and> wf_double vd \<and> list_all tame c"

lemma minified_render_string: "tame_text s \<Longrightarrow> minified (render_string s @ r) = render_string s @ minified r"
  using minified_string [OF string_part_escaped, of "case s of None \<Rightarrow> [] | Some s \<Rightarrow> s" r]
  by (auto simp: render_string_def tame_text_def tame_string_def split: option.splits)

lemma number_text_plain: "number_text x \<Longrightarrow> c \<in> set x \<Longrightarrow> plain_char c"
  by (auto simp: number_text_def plain_char_def is_digit_def)

lemma number_text_of_plain:
  assumes "wf_double d"
  shows "\<forall>c \<in> set (number_text_of d). plain_char c"
proof (cases "is_nan_or_inf d")
  case True
  then show ?thesis by (simp add: number_text_of_def plain_char_def byte_of_def)
next
  case False
  have "number_text (number_text_of d)"
    using format_g_text(1) [OF assms False] False by (simp add: number_text_of_def Let_def split: prod.splits)
  then show ?thesis using number_text_plain by blast
qed

lemma minified_punctuation [simp]:
  "c \<in> {44, 58, 91, 93, 123, 125} \<Longrightarrow> minified (c # r) = c # minified r"
  "white c \<Longrightarrow> minified (c # r) = minified r"
  "minified (tabs n @ r) = minified r"
  using minified_plain [of "[c]" r] minified_white [of "[c]" r] minified_white [of "tabs n" r]
  by (auto simp: plain_char_def tabs_def white_def)

definition minifies :: "bytes option \<Rightarrow> bytes option \<Rightarrow> bool" where
  \<comment> \<open>the formatted and the compact text of the same thing\<close>
  "minifies X Y \<longleftrightarrow> (case X of None \<Rightarrow> Y = None | Some x \<Rightarrow> \<exists>y. Y = Some y \<and> (\<forall>r. minified (x @ r) = y @ minified r))"

lemma minifies_plain: "\<forall>c \<in> set x. plain_char c \<Longrightarrow> minifies (Some x) (Some x)"
  by (simp add: minifies_def minified_plain)

lemma render_minifies:
  "tame t \<Longrightarrow> minifies (render True d t) (render False d t)"
  "list_all tame ts \<Longrightarrow> minifies (render_elements True d ts) (render_elements False d ts)"
  "list_all tame ts \<Longrightarrow> minifies (render_members True d ts) (render_members False d ts)"
proof (induction True d t and True d ts and True d ts rule: render_render_elements_render_members.induct)
  case (1 d ty vs vi vd s child)
  have lits: "minifies (Some (cstr ''null'')) (Some (cstr ''null''))" "minifies (Some (cstr ''false'')) (Some (cstr ''false''))"
    "minifies (Some (cstr ''true'')) (Some (cstr ''true''))"
    by (rule minifies_plain, simp add: byte_of_def plain_char_def)+
  have num: "minifies (Some (number_text_of vd)) (Some (number_text_of vd))"
    using 1(3) by (intro minifies_plain number_text_of_plain) simp
  have str: "minifies (Some (render_string vs)) (Some (render_string vs))"
    using minified_render_string 1(3) by (simp add: minifies_def)
  have arr: "minifies (map_option (\<lambda>x. [91] @ x @ [93]) X) (map_option (\<lambda>x. [91] @ x @ [93]) Y)" if "minifies X Y" for X Y
    using that by (auto simp: minifies_def split: option.splits)
  have obj: "minifies (map_option (\<lambda>x. [123] @ [10] @ x @ tabs d @ [125]) X)
      (map_option (\<lambda>x. [123] @ [] @ x @ tabs 0 @ [125]) Y)" if "minifies X Y" for X Y
    using that by (auto simp: minifies_def white_def tabs_def [of 0] split: option.splits)
  have elems: "ty AND 0xFF = cJSON_Array \<Longrightarrow> minifies (render_elements True (Suc d) child) (render_elements False (Suc d) child)"
    and mems: "ty AND 0xFF = cJSON_Object \<Longrightarrow> minifies (render_members True (Suc d) child) (render_members False (Suc d) child)"
    using 1 by (simp_all add: cJSON_types)
  have none: "minifies None None" by (simp add: minifies_def)
  show ?case using 1(3) lits num str arr [OF elems] obj [OF mems] none by (simp add: Let_def)
next
  case (3 d t ts)
  show ?case using 3 by (auto simp: minifies_def white_def split: option.splits)
next
  case (5 d t ts)
  have "tame_text (jstring t)" using 5(3) by (cases t) simp
  then have name: "minified (render_string (jstring t) @ r) = render_string (jstring t) @ minified r" for r
    by (rule minified_render_string)
  show ?case using 5 by (auto simp: minifies_def white_def name render_members.simps tabs_def [of 0] split: option.splits)
qed (simp_all add: minifies_def)

lemma minify_result:
  assumes "c_string s"
  shows "\<exists>g. cJSON_Minify (s @ 0 # t) = Some (minified s @ 0 # g @ t) \<and> length (minified s) + length g = length s"
proof -
  obtain g where g: "length (minified s) + length g = length s"
      "minify_loop (s @ 0 # t) 0 0 = Some (minified s @ g @ 0 # t, length (minified s))"
    using minifies_to_minified [OF assms, of "[]" t] unfolding minifies_to_def
    by (metis append_Nil list.size(3) add_0)
  then have "cJSON_Minify (s @ 0 # t) = Some (minified s @ 0 # shift g 0 @ t)"
    using write_shift_Cons [of "minified s" g 0 t] by (simp add: cJSON_Minify_def)
  then show ?thesis using g(1) by (intro exI [of _ "shift g 0"]) simp
qed

subsection \<open>Properties\<close>

text \<open>
  C18: \<open>cJSON_Minify\<close> terminates on every C string, reads and writes only up to its NUL, and leaves
  \<open>minified\<close> of it in the same buffer, with a NUL: white space and comments outside strings gone,
  every other byte in order, and never more bytes than before.
\<close>

theorem cJSON_Minify_minifies:
  assumes "c_string s"
  shows "\<exists>g. cJSON_Minify (s @ 0 # t) = Some (minified s @ 0 # g @ t) \<and> length (minified s) + length g = length s"
  using minify_result [OF assms] .

theorem cJSON_Minify_minifies_witness:
  \<comment> \<open>\<open>[1, /**/ "a b"]\<close>\<close>
  "\<exists>g. cJSON_Minify ([91, 49, 44, 32, 47, 42, 42, 47, 32, 34, 97, 32, 98, 34, 93] @ 0 # [7])
     = Some ([91, 49, 44, 34, 97, 32, 98, 34, 93] @ 0 # g @ [7])"
  using cJSON_Minify_minifies [of "[91, 49, 44, 32, 47, 42, 42, 47, 32, 34, 97, 32, 98, 34, 93]" "[7]"]
  by (auto simp: minified.simps)

lemma set_after_line: "set (after_line s) \<subseteq> set s"
  by (induction s) auto

lemma set_after_block: "set (after_block s) \<subseteq> set s"
  by (induction s rule: after_block.induct) auto

lemma c_string_minified: "c_string s \<Longrightarrow> c_string (minified s)"
proof (induction s rule: minified.induct)
  case (2 c s)
  obtain k r where k: "string_part s = (k, r)" by fastforce
  then have "c_string k" "c_string r" using string_part_append [OF k] 2(7) by auto
  moreover have "c_string (after_line (tl s))" "c_string (after_block (tl s))"
    using 2(7) after_line_c_string [of "tl s"] after_block_c_string [of "tl s"] by (cases s; simp)+
  ultimately show ?case using 2 k by (simp add: minified.simps)
qed (simp add: minified.simps)

text \<open>
  Minifying is idempotent: a second call leaves the buffer byte for byte as the first left it.
\<close>

lemma cJSON_Minify_twice:
  assumes "c_string s"
  shows "\<exists>b. cJSON_Minify (s @ 0 # t) = Some b \<and> cJSON_Minify b = Some b"
proof -
  obtain g where "cJSON_Minify (s @ 0 # t) = Some (minified s @ 0 # g @ t)"
    using minify_result [OF assms] by blast
  moreover obtain g' where "cJSON_Minify (minified s @ 0 # g @ t) = Some (minified (minified s) @ 0 # g' @ g @ t)"
      "length (minified (minified s)) + length g' = length (minified s)"
    using minify_result [OF c_string_minified [OF assms]] by blast
  ultimately show ?thesis by (simp add: minified_twice)
qed

theorem cJSON_Minify_twice_witness:
  "\<exists>b. cJSON_Minify ([32, 47] @ 0 # []) = Some b \<and> cJSON_Minify b = Some b"
  by (rule cJSON_Minify_twice) simp


lemma sample_tame: "tame sample"
  by (simp add: sample_def tame_text_def tame_string_def d_zero_def cJSON_types)


definition two_strings :: "bytes \<Rightarrow> bytes \<Rightarrow> cJSON" where
  \<comment> \<open>an array of two strings\<close>
  "two_strings x y = CJ cJSON_Array None 0 d_zero None
     [CJ cJSON_String (Some x) 0 d_zero None [], CJ cJSON_String (Some y) 0 d_zero None []]"

definition ordinary :: "bytes \<Rightarrow> bool" where
  \<comment> \<open>characters the printer leaves alone, and no slash\<close>
  "ordinary s \<longleftrightarrow> (\<forall>c \<in> set s. 31 < c \<and> c \<noteq> 34 \<and> c \<noteq> 92 \<and> c \<noteq> 47)"

text \<open>
  \<open>minify_string\<close> takes the backslash that ends an escaped backslash for the start of an escaped
  quote.  After a string that ends in a backslash it is out of step with the strings that follow,
  and removes their spaces: the text is still JSON, but of another value.
\<close>

lemma minify_corrupts_strings:
  assumes "ordinary x" and "ordinary y" and "render False 0 (two_strings (x @ [92]) y) = Some w"
  shows "\<exists>w' g. render False 0 (two_strings (x @ [92]) (filter (\<lambda>c. c \<noteq> 32) y)) = Some w'
    \<and> cJSON_Minify (w @ [0]) = Some (w' @ 0 # g)"
proof -
  let ?y = "filter (\<lambda>c. c \<noteq> 32) y"
  have app: "escaped (a @ b) = escaped a @ escaped b" for a b by (induction a) auto
  have esc: "escaped s = s" if "ordinary s" for s
    using that by (induction s) (auto simp: ordinary_def escape_byte_def)
  have r: "render False 0 (two_strings (x @ [92]) z) = Some ([91, 34] @ x @ [92, 92, 34, 44, 34] @ z @ [34, 93])"
    if "ordinary z" for z
    using esc [OF assms(1)] esc [OF that]
    by (simp add: two_strings_def cJSON_types render_string_def app escape_byte_def escape_letter_def)
  have y: "ordinary ?y" using assms(2) by (auto simp: ordinary_def)
  have out: "minified (z @ r) = filter (\<lambda>c. c \<noteq> 32) z @ minified r" if "ordinary z" for z r
    using that
  proof (induction z)
    case (Cons c z)
    then have c: "31 < c" "c \<noteq> 34" "c \<noteq> 47" by (auto simp: ordinary_def)
    then have "c = 32 \<or> plain_char c" by (auto simp: plain_char_def)
    then have "minified (c # z @ r) = (if c = 32 then [] else [c]) @ minified (z @ r)"
      using minified_white [of "[c]" "z @ r"] minified_plain [of "[c]" "z @ r"] by (auto simp: white_def plain_char_def)
    then show ?case using Cons by (auto simp: ordinary_def)
  qed simp
  have "string_part (92 # 92 # 34 # 44 # 34 # y @ [34, 93]) = ([92, 92, 34, 44, 34], y @ [34, 93])"
    by (simp add: string_part_plain string_part_quote)
  then have k: "string_part (x @ 92 # 92 # 34 # 44 # 34 # y @ [34, 93]) = (x @ [92, 92, 34, 44, 34], y @ [34, 93])"
    using string_part_plains [of x "92 # 92 # 34 # 44 # 34 # y @ [34, 93]"] assms(1) by (auto simp: ordinary_def)
  have "minified (91 # 34 # x @ 92 # 92 # 34 # 44 # 34 # y @ [34, 93])
      = 91 # 34 # (x @ [92, 92, 34, 44, 34]) @ minified (y @ [34, 93])"
    using minified_string [OF k] by simp
  also have "minified (y @ [34, 93]) = ?y @ [34, 93]"
    using out [OF assms(2)] minified_string [of "[93]" "[93]" "[]"] by (simp add: minified.simps(1))
  finally have "minified ([91, 34] @ x @ [92, 92, 34, 44, 34] @ y @ [34, 93])
      = [91, 34] @ x @ [92, 92, 34, 44, 34] @ ?y @ [34, 93]" by simp
  moreover have "c_string z" if "ordinary z" for z using that by (induction z) (auto simp: ordinary_def)
  then have "c_string w" using assms r [OF assms(2)] by auto
  ultimately show ?thesis using minify_result [of w "[]"] assms(3) r [OF assms(2)] r [OF y] by auto
qed

theorem minify_corrupts_strings_witness:
  \<comment> \<open>\<open>["\\\\","b c"]\<close> becomes \<open>["\\\\","bc"]\<close>\<close>
  "\<exists>w g. render False 0 (two_strings [92] [98, 99]) = Some w
     \<and> cJSON_Minify ([91, 34, 92, 92, 34, 44, 34, 98, 32, 99, 34, 93] @ [0]) = Some (w @ 0 # g)"
  using minify_corrupts_strings [of "[]" "[98, 32, 99]"]
  by (simp add: ordinary_def two_strings_def cJSON_types render_string_def escape_byte_def escape_letter_def)

end
