(* ===== verification/JsonRoundtrip.thy ===== *)
theory JsonRoundtrip
  imports JsonPrintSafe
begin

text \<open>
  Parser and printer agree: the text the printer makes of an item, in either format, is read
  back by the parser as the same item.  \<open>canonical\<close> is the shape the parser itself builds,
  with numbers that are integers of at most 15 digits (others are printed rounded).
\<close>

unbundle bit_operations_syntax

subsection \<open>Canonical items\<close>

definition small_int :: "double \<Rightarrow> bool" where
  "small_int d \<longleftrightarrow> (let k = int_of_double d in \<bar>k\<bar> < 10 ^ 15 \<and> d = double_of_int k)"

fun canonical :: "cJSON \<Rightarrow> bool" where
  "canonical (CJ ty vs vi vd s c) \<longleftrightarrow>
     (case s of None \<Rightarrow> True | Some k \<Rightarrow> c_string k) \<and>
     (if ty = cJSON_Number then vs = None \<and> small_int vd \<and> vi = saturate vd \<and> c = []
      else vd = d_zero \<and>
        (if ty = cJSON_String then (case vs of None \<Rightarrow> False | Some x \<Rightarrow> c_string x) \<and> vi = 0 \<and> c = []
         else vs = None \<and>
           (if ty = cJSON_Array then vi = 0 \<and> list_all (\<lambda>t. canonical t \<and> jstring t = None) c
            else if ty = cJSON_Object then vi = 0 \<and> list_all (\<lambda>t. canonical t \<and> jstring t \<noteq> None) c
            else (ty = cJSON_True \<and> vi = 1 \<or> (ty = cJSON_False \<or> ty = cJSON_NULL) \<and> vi = 0) \<and> c = [])))"

definition blank :: "u32 \<Rightarrow> bytes option \<Rightarrow> cJSON" where
  \<comment> \<open>what \<open>parse_value\<close> is called with: a new item, possibly named\<close>
  "blank ty key = CJ ty None 0 d_zero key []"

lemma fresh_blank: "ty = 0 \<or> ty = cJSON_String \<Longrightarrow> (\<And>k. key = Some k \<Longrightarrow> c_string k) \<Longrightarrow> fresh (blank ty key)"
  by (cases key) (auto simp: fresh_def blank_def is_reference_def is_const_key_def cJSON_types)

subsection \<open>Texts in a buffer\<close>

definition all_ok :: "mem \<Rightarrow> bool" where
  "all_ok m \<longleftrightarrow> (\<forall>k. alloc_ok m k)"

definition space :: "bytes \<Rightarrow> bool" where
  "space w \<longleftrightarrow> (\<forall>c \<in> set w. c \<le> 32)"

lemma space_simps [simp]: "space []" "space (c # w) \<longleftrightarrow> c \<le> 32 \<and> space w" "space (v @ w) \<longleftrightarrow> space v \<and> space w"
  "space (tabs n)"
  by (auto simp: space_def tabs_def)

lemma ws_end_space:
  "space w \<Longrightarrow> \<not> c \<le> 32 \<Longrightarrow> length (pre @ w) < n \<Longrightarrow> ws_end (pre @ w @ c # post) n (length pre) = Some (length (pre @ w))"
proof (induction w arbitrary: pre)
  case Nil
  then show ?case by (subst ws_end.simps) simp
next
  case (Cons x w)
  have "ws_end (pre @ (x # w) @ c # post) n (length pre) = ws_end ((pre @ [x]) @ w @ c # post) n (length (pre @ [x]))"
    using Cons.prems by (subst ws_end.simps) simp
  also have "\<dots> = Some (length ((pre @ [x]) @ w))"
    using Cons.prems by (intro Cons.IH) auto
  finally show ?case by simp
qed

lemma skip_space:
  assumes "pb_content b = pre @ w @ c # post" and "pb_offset b = length pre" and "space w" and "\<not> c \<le> 32"
    and "length (pre @ w) < pb_length b"
  shows "buffer_skip_whitespace b = Some (b\<lparr>pb_offset := length (pre @ w)\<rparr>)"
  using ws_end_space [OF assms(3,4,5)] assms(1,2,5) by (simp add: buffer_skip_whitespace_def Let_def)

lemma at_char_text:
  "pb_content b = pre @ c # post \<Longrightarrow> pb_offset b = length pre \<Longrightarrow> length pre < pb_length b \<Longrightarrow> at_char b x = Some (c = x)"
  by (simp add: at_char_def can_access_at_index_def char_at_def)

lemma char_at_text:
  "pb_content b = pre @ c # post \<Longrightarrow> pb_offset b = length pre \<Longrightarrow> char_at b 0 = Some c"
  by (simp add: char_at_def)

lemma literal_other:
  assumes "pb_content b = pre @ c # post" and "pb_offset b = length pre" and "pb_length b \<le> length (pb_content b)"
    and "l = x # l'" and "c \<noteq> x"
  shows "literal b l = Some False"
  using assms by (auto simp: literal_def starts_with_def read_range_def can_read_def)

lemma literal_same:
  assumes "pb_content b = pre @ l @ post" and "pb_offset b = length pre" and "length pre + length l \<le> pb_length b"
    and "pb_length b \<le> length (pb_content b)"
  shows "literal b l = Some True"
  using assms by (simp add: literal_def starts_with_def read_range_def can_read_def)

subsection \<open>Numbers\<close>

lemma number_c_string_text:
  assumes "pb_content b = pre @ t @ c # post" and "pb_offset b = length pre" and "\<not> number_char c"
    and "length pre + length t < pb_length b"
  shows "i \<le> length t \<Longrightarrow> (\<forall>x \<in> set t. number_char x) \<Longrightarrow> length t - i \<le> k - 1 \<Longrightarrow> 0 < k \<Longrightarrow>
    number_c_string b i k = Some (drop i t)"
proof (induction k arbitrary: i)
  case (Suc k)
  have acc: "can_access_at_index b i" using assms Suc.prems(1) by (simp add: can_access_at_index_def)
  show ?case
  proof (cases "i < length t")
    case True
    then have "char_at b i = Some (t ! i)" using assms by (simp add: char_at_def read_at_def nth_append)
    moreover have "number_char (t ! i)" using True Suc.prems(2) by simp
    moreover have "number_c_string b (i + 1) k = Some (drop (i + 1) t)"
      using True Suc.prems by (intro Suc.IH) auto
    ultimately show ?thesis using acc True by (simp add: Cons_nth_drop_Suc)
  next
    case False
    then have "char_at b i = Some c" using assms Suc.prems(1) by (simp add: char_at_def read_at_def nth_append)
    then show ?thesis using acc assms(3) False by simp
  qed
qed simp

lemma int_text_chars: "x \<in> set (int_text k) \<Longrightarrow> x = 45 \<or> is_digit x"
  using dec_digits_are_digits by (auto simp: int_text_def split: if_splits)

lemma length_int_text:
  assumes "\<bar>k\<bar> < 10 ^ 15"
  shows "length (int_text k) \<le> 16"
proof (cases "k = 0")
  case True
  then show ?thesis by (simp add: int_text_def dec_digits_small)
next
  case False
  let ?n = "nat \<bar>k\<bar>"
  have "dec_length ?n \<le> 15"
  proof (rule ccontr)
    assume "\<not> dec_length ?n \<le> 15"
    then have "(10::nat) ^ 15 \<le> 10 ^ (dec_length ?n - 1)" by (intro power_increasing) auto
    also have "\<dots> \<le> ?n" using dec_length_ok [of ?n] False by (simp add: is_length_def)
    finally show False using assms by simp
  qed
  then have "length (dec_digits ?n) \<le> 15" using False by (simp add: length_dec_digits)
  then show ?thesis by (cases "k < 0") (simp_all add: int_text_def)
qed

lemma int_text_head: "\<exists>c r. int_text k = c # r \<and> (c = 45 \<or> 48 \<le> c \<and> c \<le> 57)"
proof -
  have "int_text k \<noteq> []" using dec_digits_not_Nil by (simp add: int_text_def)
  then obtain c r where "int_text k = c # r" by (cases "int_text k") auto
  then show ?thesis using int_text_chars [of c k] by (auto simp: is_digit_def)
qed

lemma number_text_small:
  assumes "small_int d"
  obtains k where "d = double_of_int k" "\<bar>k\<bar> < 10 ^ 15" "number_text_of d = int_text k"
proof -
  from assms obtain k where k: "d = double_of_int k" "\<bar>k\<bar> < 10 ^ 15" by (auto simp: small_int_def Let_def)
  have "\<not> is_nan_or_inf d"
  proof (cases "k = 0")
    case True
    then show ?thesis by (simp add: k double_of_int_def round_ratio_def is_nan_or_inf_def)
  next
    case False
    moreover have "\<bar>k\<bar> < 2 ^ 53" using k(2) by simp
    ultimately obtain j where "double_of_int k = DFin (k < 0) (nat \<bar>k\<bar> * 2 ^ j) (- int j)"
      using double_of_int_shape by blast
    then show ?thesis by (simp add: k(1) is_nan_or_inf_def)
  qed
  moreover have "length (int_text k) \<noteq> 0" using int_text_head [of k] by auto
  ultimately have "number_text_of d = int_text k"
    using compare_double_refl [of d] by (simp add: number_text_of_def Let_def k(1) format_g_int [OF k(2)] strtod_int_text)
  with k show thesis by (rule that)
qed

lemma wf_small_int: "small_int d \<Longrightarrow> wf_double d"
  unfolding small_int_def Let_def double_of_int_def using wf_round_ratio [of 1] by (metis zero_less_one)

subsection \<open>Cursors\<close>

definition at_text :: "parse_buffer \<Rightarrow> bytes \<Rightarrow> bytes \<Rightarrow> bytes \<Rightarrow> bool" where
  \<comment> \<open>the cursor stands before \<open>x\<close>, and something is left behind it\<close>
  "at_text b pre x post \<longleftrightarrow> pb_content b = pre @ x @ post \<and> pb_offset b = length pre \<and> wf_pb b
     \<and> length (pre @ x) < pb_length b"

definition move_to :: "parse_buffer \<Rightarrow> bytes \<Rightarrow> parse_buffer" where
  "move_to b p = b\<lparr>pb_offset := length p\<rparr>"

lemma move_to_simps [simp]: "pb_length (move_to b p) = pb_length b" "pb_depth (move_to b p) = pb_depth b"
  "pb_offset (move_to b p) = length p" "move_to (move_to b p) q = move_to b q" "pb_content (move_to b p) = pb_content b"
  "move_to (b\<lparr>pb_depth := k\<rparr>) p = (move_to b p)\<lparr>pb_depth := k\<rparr>"
  by (simp_all add: move_to_def)

lemma at_text_move: "at_text b pre (x @ y) post \<Longrightarrow> at_text (move_to b (pre @ x)) (pre @ x) y post"
  by (auto simp: at_text_def move_to_def wf_pb_def)

lemma at_text_unread: "at_text b (p @ [c]) x post \<Longrightarrow> at_text (move_to b p) p (c # x) post"
  by (auto simp: at_text_def move_to_def wf_pb_def)

lemma at_text_front: "at_text b pre (x @ y) post \<Longrightarrow> at_text b pre x (y @ post)"
  by (auto simp: at_text_def)

lemma at_text_depth [simp]: "at_text (b\<lparr>pb_depth := k\<rparr>) pre x post \<longleftrightarrow> at_text b pre x post"
  by (auto simp: at_text_def wf_pb_def)

lemma at_text_char: "at_text b pre (c # y) post \<Longrightarrow> at_char b x = Some (c = x)"
  by (rule at_char_text) (auto simp: at_text_def)

lemma at_text_char_at: "at_text b pre (c # y) post \<Longrightarrow> char_at b 0 = Some c"
  by (rule char_at_text) (auto simp: at_text_def)

lemma at_text_skip: "at_text b pre (w @ c # y) post \<Longrightarrow> space w \<Longrightarrow> 32 < c \<Longrightarrow>
    buffer_skip_whitespace b = Some (move_to b (pre @ w))"
  using skip_space [of b pre w c "y @ post"] by (auto simp: at_text_def move_to_def)

lemma at_text_stay: "at_text b pre (c # y) post \<Longrightarrow> move_to b pre = b"
  by (simp add: at_text_def move_to_def)

lemma at_text_advance: "at_text b pre (c # y) post \<Longrightarrow> advance 1 b = move_to b (pre @ [c])"
  by (simp add: at_text_def move_to_def advance_def)

lemma at_text_access: "at_text b pre x post \<Longrightarrow> can_access_at_index b 0"
  by (auto simp: at_text_def can_access_at_index_def)

subsection \<open>Leaves\<close>

definition ends :: "bytes \<Rightarrow> bool" where
  \<comment> \<open>a number stops here\<close>
  "ends z \<longleftrightarrow> z \<noteq> [] \<and> \<not> number_char (hd z)"

definition reads :: "nat \<Rightarrow> cJSON \<Rightarrow> bytes \<Rightarrow> bool" where
  \<comment> \<open>\<open>parse_value\<close> reads \<open>x\<close>, nested below depth \<open>d\<close>, as \<open>t\<close>\<close>
  "reads d t x \<longleftrightarrow> x \<noteq> [] \<and> 32 < hd x \<and> hd x \<notin> {93, 0xEF} \<and> (\<forall>n b m pre post ty.
     at_text b pre x post \<longrightarrow> ends post \<longrightarrow> 3 * (pb_length b - pb_offset b) \<le> n \<longrightarrow>
     pb_depth b = d \<longrightarrow> all_ok m \<longrightarrow> ty = 0 \<or> ty = cJSON_String \<longrightarrow>
     (\<exists>m'. parse_value n (blank ty (jstring t)) b m = Some (True, t, move_to b (pre @ x), m') \<and> all_ok m'))"

lemma readsI:
  assumes "x \<noteq> []" and "32 < hd x" and "hd x \<notin> {93, 0xEF}"
    and "\<And>n b m pre post ty. at_text b pre x post \<Longrightarrow> ends post \<Longrightarrow> 3 * (pb_length b - pb_offset b) \<le> Suc n \<Longrightarrow>
      pb_depth b = d \<Longrightarrow> all_ok m \<Longrightarrow> ty = 0 \<or> ty = cJSON_String \<Longrightarrow>
      \<exists>m'. parse_value (Suc n) (blank ty (jstring t)) b m = Some (True, t, move_to b (pre @ x), m') \<and> all_ok m'"
  shows "reads d t x"
  unfolding reads_def
proof (intro conjI allI impI assms(1,2,3))
  fix n b m pre post and ty :: u32
  assume a: "at_text b pre x post" "ends post" "3 * (pb_length b - pb_offset b) \<le> n" "pb_depth b = d" "all_ok m"
    "ty = 0 \<or> ty = cJSON_String"
  then have "n \<noteq> 0" by (auto simp: at_text_def)
  then obtain k where "n = Suc k" by (cases n) auto
  then show "\<exists>m'. parse_value n (blank ty (jstring t)) b m = Some (True, t, move_to b (pre @ x), m') \<and> all_ok m'"
    using assms(4) [OF a(1,2) _ a(4,5,6)] a(3) by simp
qed

lemma parse_value_other:
  \<comment> \<open>a value that starts with none of the letters of the literals\<close>
  assumes "at_text b pre (c # y) post" and "c \<noteq> 110" and "c \<noteq> 102" and "c \<noteq> 116"
  shows "parse_value (Suc n) item b m =
     (if c = 34 then parse_string item b m
      else if c = 45 \<or> 48 \<le> c \<and> c \<le> 57 then parse_number item b m
      else if c = 91 then parse_array n item b m
      else if c = 123 then parse_object n item b m
      else Some (False, item, b, m))"
proof -
  have "pb_content b = pre @ c # y @ post" "pb_offset b = length pre" "pb_length b \<le> length (pb_content b)"
    using assms(1) by (auto simp: at_text_def wf_pb_def)
  from literal_other [OF this] have "literal b (cstr ''null'') = Some False" "literal b (cstr ''false'') = Some False"
    "literal b (cstr ''true'') = Some False"
    using assms by (auto simp: byte_of_def)
  then show ?thesis
    unfolding parse_value.simps(2) using at_text_char_at [OF assms(1)] at_text_access [OF assms(1)] by simp
qed

lemma at_literal:
  assumes "at_text b pre x post" and "x = c # y"
  shows "literal b x = Some True" and "l = c' # l' \<Longrightarrow> c \<noteq> c' \<Longrightarrow> literal b l = Some False"
  using assms literal_same [of b pre x post] literal_other [of b pre c "y @ post" l c' l']
  by (auto simp: at_text_def wf_pb_def)

lemma parse_literals:
  "at_text b pre (cstr ''null'') post \<Longrightarrow>
     parse_value (Suc n) item b m = Some (True, set_type cJSON_NULL item, move_to b (pre @ cstr ''null''), m)"
  "at_text b pre (cstr ''false'') post \<Longrightarrow>
     parse_value (Suc n) item b m = Some (True, set_type cJSON_False item, move_to b (pre @ cstr ''false''), m)"
  "at_text b pre (cstr ''true'') post \<Longrightarrow>
     parse_value (Suc n) item b m = Some (True, set_valueint 1 (set_type cJSON_True item), move_to b (pre @ cstr ''true''), m)"
proof -
  have adv: "advance k b = move_to b (pre @ x)" if "at_text b pre x post" "k = length x" for x k
    using that by (simp add: at_text_def advance_def move_to_def)
  have cs: "cstr ''null'' = [110, 117, 108, 108]" "cstr ''false'' = [102, 97, 108, 115, 101]" "cstr ''true'' = [116, 114, 117, 101]"
    by (simp_all add: byte_of_def)
  {
    assume a: "at_text b pre (cstr ''null'') post"
    have "literal b (cstr ''null'') = Some True" using a at_literal(1) cs by blast
    then show "parse_value (Suc n) item b m = Some (True, set_type cJSON_NULL item, move_to b (pre @ cstr ''null''), m)"
      using adv [OF a, of 4] by (simp add: parse_value.simps(2) del: cstr_Cons)
  next
    assume a: "at_text b pre (cstr ''false'') post"
    have "literal b (cstr ''null'') = Some False" "literal b (cstr ''false'') = Some True"
      using at_literal(2) [OF a cs(2) cs(1)] at_literal(1) [OF a cs(2)] by simp_all
    then show "parse_value (Suc n) item b m = Some (True, set_type cJSON_False item, move_to b (pre @ cstr ''false''), m)"
      using adv [OF a, of 5] by (simp add: parse_value.simps(2) del: cstr_Cons)
  next
    assume a: "at_text b pre (cstr ''true'') post"
    have "literal b (cstr ''null'') = Some False" "literal b (cstr ''false'') = Some False" "literal b (cstr ''true'') = Some True"
      using at_literal(2) [OF a cs(3) cs(1)] at_literal(2) [OF a cs(3) cs(2)] at_literal(1) [OF a cs(3)] by simp_all
    then show "parse_value (Suc n) item b m = Some (True, set_valueint 1 (set_type cJSON_True item), move_to b (pre @ cstr ''true''), m)"
      using adv [OF a, of 4] by (simp add: parse_value.simps(2) del: cstr_Cons)
  }
qed

lemma reads_literals:
  "reads d (CJ cJSON_NULL None 0 d_zero s []) (cstr ''null'')"
  "reads d (CJ cJSON_False None 0 d_zero s []) (cstr ''false'')"
  "reads d (CJ cJSON_True None 1 d_zero s []) (cstr ''true'')"
proof -
  have cs: "cstr ''null'' = [110, 117, 108, 108]" "cstr ''false'' = [102, 97, 108, 115, 101]" "cstr ''true'' = [116, 114, 117, 101]"
    by (simp_all add: byte_of_def)
  show "reads d (CJ cJSON_NULL None 0 d_zero s []) (cstr ''null'')"
    by (rule readsI) (use cs in \<open>auto simp: parse_literals blank_def simp del: cstr_Cons parse_value.simps\<close>)
  show "reads d (CJ cJSON_False None 0 d_zero s []) (cstr ''false'')"
    by (rule readsI) (use cs in \<open>auto simp: parse_literals blank_def simp del: cstr_Cons parse_value.simps\<close>)
  show "reads d (CJ cJSON_True None 1 d_zero s []) (cstr ''true'')"
    by (rule readsI) (use cs in \<open>auto simp: parse_literals blank_def simp del: cstr_Cons parse_value.simps\<close>)
qed

lemma reads_number:
  assumes "small_int v"
  shows "reads d (CJ cJSON_Number None (saturate v) v s []) (number_text_of v)"
proof -
  obtain k where k: "v = double_of_int k" "\<bar>k\<bar> < 10 ^ 15" "number_text_of v = int_text k"
    using number_text_small [OF assms] .
  obtain c r where c: "int_text k = c # r" "c = 45 \<or> 48 \<le> c \<and> c \<le> 57" using int_text_head by blast
  have chars: "\<forall>x \<in> set (int_text k). number_char x"
    using int_text_chars by (auto simp: number_char_def is_digit_def)
  have head: "32 < c \<and> c \<noteq> 93 \<and> c \<noteq> 0xEF \<and> c \<noteq> 34 \<and> c \<noteq> 110 \<and> c \<noteq> 102 \<and> c \<noteq> 116"
    using c(2) by (auto simp: word_less_nat_alt word_le_nat_alt)
  show ?thesis unfolding k(3)
  proof (rule readsI)
    fix n b m pre post and ty :: u32
    assume a: "at_text b pre (int_text k) post" and e: "ends post" and m: "all_ok m"
    obtain z post' where post: "post = z # post'" "\<not> number_char z" using e by (cases post) (auto simp: ends_def)
    have "number_c_string b 0 63 = Some (drop 0 (int_text k))"
      using a post length_int_text [OF k(2)] chars
      by (intro number_c_string_text [of b pre "int_text k" z post']) (auto simp: at_text_def)
    then have "parse_number (blank ty s) b m = Some (True, CJ cJSON_Number None (saturate v) v s [], move_to b (pre @ int_text k), m)"
      using a c(1) by (simp add: parse_number_def strtod_int_text [of k, unfolded c(1)] blank_def k(1) advance_def move_to_def at_text_def)
    then show "\<exists>m'. parse_value (Suc n) (blank ty (jstring (CJ cJSON_Number None (saturate v) v s []))) b m =
        Some (True, CJ cJSON_Number None (saturate v) v s [], move_to b (pre @ int_text k), m') \<and> all_ok m'"
      using parse_value_other [of b pre c r post n] a c head m by simp
  qed (use head c(1) in auto)
qed

lemma reads_string:
  assumes "c_string x"
  shows "reads d (CJ cJSON_String (Some x) 0 d_zero s []) (render_string (Some x))"
proof (rule readsI)
  fix n b m pre post and ty :: u32
  let ?t = "CJ cJSON_String (Some x) 0 d_zero s []"
  assume a: "at_text b pre (render_string (Some x)) post" and m: "all_ok m"
  have "\<exists>m'. parse_string (blank ty s) b m = Some (True, set_valuestring (Some x) (set_type cJSON_String (blank ty s)),
      b\<lparr>pb_offset := length pre + length (escaped x) + 2\<rparr>, m') \<and> alloc_ok m' = alloc_ok m \<and> live m' = live m + 1 \<and> calls m' = Suc (calls m)"
    using a m assms by (intro parse_string_escaped [where post = post]) (auto simp: at_text_def render_string_def all_ok_def)
  then obtain m' where "parse_string (blank ty s) b m = Some (True, ?t, move_to b (pre @ render_string (Some x)), m')" "all_ok m'"
    using m by (auto simp: blank_def move_to_def render_string_def all_ok_def)
  then show "\<exists>m'. parse_value (Suc n) (blank ty (jstring ?t)) b m = Some (True, ?t, move_to b (pre @ render_string (Some x)), m') \<and> all_ok m'"
    using parse_value_other [of b pre 34 "escaped x @ [34]" post n] a by (simp add: render_string_def)
qed (auto simp: render_string_def)

subsection \<open>Arrays\<close>

lemma all_ok_New_Item: "all_ok m \<Longrightarrow> \<exists>m'. cJSON_New_Item m = (Some (blank 0 None), m') \<and> all_ok m'"
  by (auto simp: all_ok_def cJSON_New_Item_def c_allocate_def new_item_def blank_def)

lemma array_elements_read:
  assumes "at_text b pre (oc # w @ x @ [93]) post" and "space w" and "render_elements fmt dd ts = Some x" and "ts \<noteq> []"
    and "\<forall>t \<in> set ts. jstring t = None \<and> (\<forall>y. render fmt dd t = Some y \<longrightarrow> reads d t y)"
    and "3 * (pb_length b - pb_offset b) \<le> n + 2" and "pb_depth b = d" and "all_ok m"
  shows "\<exists>m'. array_elements n acc b m = Some (True, acc @ ts, move_to b (pre @ oc # w @ x), m') \<and> all_ok m'"
  using assms
proof (induction ts arbitrary: b pre oc w x n acc m)
  case (Cons t ts)
  note a = Cons.prems(1)
  obtain y x' where y: "render fmt dd t = Some y" "render_elements fmt dd ts = Some x'"
      and x: "x = y @ (if ts = [] then [] else if fmt then [44, 32] else [44]) @ x'"
    using Cons.prems(3) by (auto split: Option.bind_splits)
  let ?sep = "if ts = [] then [] else if fmt then [44, 32] else [44 :: u8]"
  have r: "reads d t y" "jstring t = None" using Cons.prems(5) y(1) by auto
  then obtain c y' where c: "y = c # y'" "32 < c" by (cases y) (auto simp: reads_def)
  obtain k where n: "n = Suc k" using Cons.prems(6) a by (cases n) (auto simp: at_text_def)
  obtain m1 where m1: "cJSON_New_Item m = (Some (blank 0 None), m1)" "all_ok m1" using all_ok_New_Item Cons.prems(8) by blast
  have adv: "advance 1 b = move_to b (pre @ [oc])" using at_text_advance a by blast
  have skip: "buffer_skip_whitespace (advance 1 b) = Some (move_to b (pre @ oc # w))"
    using at_text_skip [of "move_to b (pre @ [oc])" "pre @ [oc]" w c "y' @ ?sep @ x' @ [93]" post]
      at_text_move [of b pre "[oc]" "w @ y @ ?sep @ x' @ [93]" post] a Cons.prems(2) c adv x by simp
  let ?rest = "?sep @ x' @ [93]"
  have a2: "at_text (move_to b (pre @ oc # w)) (pre @ oc # w) (y @ ?rest) post"
    using at_text_move [of b pre "oc # w" "y @ ?rest" post] a x by simp
  obtain z rest where z: "?rest = z # rest" "32 < z" "\<not> number_char z" "z = (if ts = [] then 93 else 44)"
    using y(2) by (cases "ts = []"; cases fmt) (auto simp: number_char_def)
  have "ends (?rest @ post)" using z by (simp add: ends_def)
  moreover have "3 * (pb_length (move_to b (pre @ oc # w)) - pb_offset (move_to b (pre @ oc # w))) \<le> k"
    using Cons.prems(6) n a by (auto simp: at_text_def)
  ultimately obtain m2 where m2: "parse_value k (blank 0 None) (move_to b (pre @ oc # w)) m1
      = Some (True, t, move_to b (pre @ oc # w @ y), m2)" "all_ok m2"
    using r at_text_front [OF a2] Cons.prems(7) m1(2) unfolding reads_def by fastforce
  have a3: "at_text (move_to b (pre @ oc # w @ y)) (pre @ oc # w @ y) (z # rest) post"
    using at_text_move [OF a2] z(1) by simp
  have stay: "buffer_skip_whitespace (move_to b (pre @ oc # w @ y)) = Some (move_to b (pre @ oc # w @ y))"
    using at_text_skip [of _ _ "[]" z rest post] a3 z(2) by fastforce
  have step: "array_elements n acc b m =
      (if z = 44 then array_elements k (acc @ [t]) (move_to b (pre @ oc # w @ y)) m2
       else Some (z = 93, acc @ [t], move_to b (pre @ oc # w @ y), m2))"
    using m1(1) skip m2(1) stay at_text_char [OF a3] by (simp add: n array_elements.simps(2) Let_def)
  show ?case
  proof (cases "ts = []")
    case True
    then show ?thesis using step z(4) m2(2) x y(2) by simp
  next
    case False
    let ?w = "if fmt then [32] else []"
    have "\<exists>m'. array_elements k (acc @ [t]) (move_to b (pre @ oc # w @ y)) m2 =
        Some (True, (acc @ [t]) @ ts, move_to (move_to b (pre @ oc # w @ y)) ((pre @ oc # w @ y) @ 44 # ?w @ x'), m') \<and> all_ok m'"
    proof (rule Cons.IH)
      show "at_text (move_to b (pre @ oc # w @ y)) (pre @ oc # w @ y) (44 # ?w @ x' @ [93]) post"
        using a3 z(1) False by (cases fmt) simp_all
      show "3 * (pb_length (move_to b (pre @ oc # w @ y)) - pb_offset (move_to b (pre @ oc # w @ y))) \<le> k + 2"
        using Cons.prems(6) n a c(1) by (auto simp: at_text_def)
    qed (use Cons.prems(5,7) y(2) False m2(2) in auto)
    then show ?thesis using step z(4) False x by (cases fmt) auto
  qed
qed simp

lemma finish_list_at:
  "at_text b pre [c] post \<Longrightarrow> finish_list ty ts (blank ty' s) (b\<lparr>pb_depth := Suc d\<rparr>) m =
     Some (True, CJ ty None 0 d_zero s ts, (move_to b (pre @ [c]))\<lparr>pb_depth := d\<rparr>, m)"
  by (simp add: finish_list_def blank_def at_text_def move_to_def)

lemma move_to_depth: "pb_depth b = d \<Longrightarrow> (move_to b p)\<lparr>pb_depth := d\<rparr> = move_to b p"
  by (simp add: move_to_def)

lemma reads_array:
  assumes x: "render_elements fmt dd ts = Some x" and d: "d < CJSON_NESTING_LIMIT"
    and ts: "\<forall>t \<in> set ts. jstring t = None \<and> (\<forall>y. render fmt dd t = Some y \<longrightarrow> reads (Suc d) t y)"
  shows "reads d (CJ cJSON_Array None 0 d_zero s ts) ([91] @ x @ [93])"
proof (rule readsI)
  fix n b m pre post and ty :: u32
  let ?t = "CJ cJSON_Array None 0 d_zero s ts" and ?fin = "pre @ [91] @ x @ [93]"
  assume a: "at_text b pre ([91] @ x @ [93]) post" and n: "3 * (pb_length b - pb_offset b) \<le> Suc n"
    and b: "pb_depth b = d" and m: "all_ok m"
  define b1 where "b1 = b\<lparr>pb_depth := Suc d\<rparr>"
  have a1: "at_text b1 pre (91 # x @ [93]) post" using a by (simp add: b1_def)
  obtain k where k: "n = Suc k" using n a by (cases n) (auto simp: at_text_def)
  have adv: "advance 1 b1 = move_to b1 (pre @ [91])" using at_text_advance a1 by blast
  have a2: "at_text (move_to b1 (pre @ [91])) (pre @ [91]) (x @ [93]) post"
    using at_text_move [of b1 pre "[91]" "x @ [93]" post] a1 by simp
  obtain c rest where c: "x @ [93] = c # rest" "32 < c" "c = 93 \<longleftrightarrow> ts = []"
  proof (cases ts)
    case Nil
    then show ?thesis using x by (intro that [of 93 "[]"]) simp_all
  next
    case (Cons t ts')
    obtain y where "render fmt dd t = Some y" "\<exists>z. x = y @ z" using x by (auto simp: Cons split: Option.bind_splits)
    moreover have "reads (Suc d) t y" using ts Cons calculation by simp
    ultimately show ?thesis using Cons by (cases y) (auto simp: reads_def intro!: that)
  qed
  have skip: "buffer_skip_whitespace (advance 1 b1) = Some (move_to b1 (pre @ [91]))"
    using at_text_skip [of "move_to b1 (pre @ [91])" "pre @ [91]" "[]" c rest post] a2 c adv by simp
  have empty: "at_char (move_to b1 (pre @ [91])) 93 = Some (ts = [])"
    using at_text_char [of _ "pre @ [91]" c rest post 93] a2 c by simp
  have "\<exists>m'. parse_array n (blank ty s) b m = Some (True, ?t, move_to b ?fin, m') \<and> all_ok m'"
  proof (cases "ts = []")
    case True
    then have "x = []" using x by simp
    then have "parse_array n (blank ty s) b m = Some (True, ?t, move_to b ?fin, m)"
      using d b at_text_char_at [OF a1] skip empty True a2 finish_list_at [of "move_to b (pre @ [91])" "pre @ [91]" 93 post cJSON_Array "[]" ty s d m]
        move_to_depth [OF b]
      by (simp add: k parse_array.simps(2) Let_def b1_def)
    then show ?thesis using m by blast
  next
    case False
    have stepped: "step_back (move_to b1 (pre @ [91])) = Some b1"
      using a1 by (simp add: step_back_def move_to_def at_text_def)
    obtain m' where e: "array_elements k [] b1 m = Some (True, [] @ ts, move_to b1 (pre @ 91 # [] @ x), m')" "all_ok m'"
      using array_elements_read [of b1 pre 91 "[]" x post fmt dd ts "Suc d" k m "[]"] a1 x False ts n k b m
      by (auto simp: b1_def)
    have a3: "at_text (move_to b (pre @ 91 # x)) (pre @ 91 # x) [93] post"
      using at_text_move [of b pre "91 # x" "[93]" post] a by simp
    have "parse_array n (blank ty s) b m = Some (True, ?t, move_to b ?fin, m')"
      using d b at_text_char_at [OF a1] skip empty False at_text_access [OF a2] stepped e finish_list_at [OF a3, of cJSON_Array ts ty s d m']
        move_to_depth [OF b]
      by (simp add: k parse_array.simps(2) Let_def b1_def)
    then show ?thesis using e(2) by blast
  qed
  then show "\<exists>m'. parse_value (Suc n) (blank ty (jstring ?t)) b m = Some (True, ?t, move_to b ?fin, m') \<and> all_ok m'"
    using parse_value_other [of b pre 91 "x @ [93]" post n] a by simp
qed simp_all

subsection \<open>Objects\<close>

lemma space_not_number: "c \<le> 32 \<Longrightarrow> \<not> number_char c"
  by (auto simp: number_char_def word_le_nat_alt)

lemma parse_name:
  assumes "at_text b pre (render_string (Some k) @ y) post" and "y @ post \<noteq> []" and "c_string k" and "all_ok m"
  shows "\<exists>m'. parse_string (blank 0 None) b m =
      Some (True, CJ cJSON_String (Some k) 0 d_zero None [], move_to b (pre @ render_string (Some k)), m') \<and> all_ok m'"
proof -
  have "\<exists>m'. parse_string (blank 0 None) b m = Some (True, set_valuestring (Some k) (set_type cJSON_String (blank 0 None)),
      b\<lparr>pb_offset := length pre + length (escaped k) + 2\<rparr>, m') \<and> alloc_ok m' = alloc_ok m \<and> live m' = live m + 1 \<and> calls m' = Suc (calls m)"
    using assms by (intro parse_string_escaped [where post = "y @ post"]) (auto simp: at_text_def render_string_def all_ok_def)
  then show ?thesis using assms(4) by (auto simp: blank_def move_to_def render_string_def all_ok_def)
qed

lemma object_member_read:
  \<comment> \<open>one turn of the loop, up to the white space after the value\<close>
  assumes a: "at_text b pre (oc # w @ render_string (Some k) @ 58 # cw @ y @ v @ z # rest) post"
    and w: "space w" "space cw" "space v" "32 < z" "\<not> number_char z"
    and r: "reads d t y" "jstring t = Some k" "c_string k"
    and n: "3 * (pb_length b - pb_offset b) \<le> Suc n + 2" and d: "pb_depth b = d" and m: "all_ok m"
  shows "\<exists>m'. all_ok m' \<and> object_members (Suc n) acc b m =
    (if z = 44 then object_members n (acc @ [t]) (move_to b (pre @ oc # w @ render_string (Some k) @ 58 # cw @ y @ v)) m'
     else Some (z = 125, acc @ [t], move_to b (pre @ oc # w @ render_string (Some k) @ 58 # cw @ y @ v), m'))"
proof -
  let ?name = "render_string (Some k)"
  let ?p1 = "pre @ oc # w" let ?p2 = "?p1 @ ?name" let ?p3 = "?p2 @ 58 # cw" let ?p4 = "?p3 @ y"
  obtain c y' where c: "y = c # y'" "32 < c" using r(1) by (cases y) (auto simp: reads_def)
  obtain m1 where m1: "cJSON_New_Item m = (Some (blank 0 None), m1)" "all_ok m1" using all_ok_New_Item m by blast
  have adv: "advance 1 b = move_to b (pre @ [oc])" using at_text_advance a by blast
  have name: "?name = 34 # escaped k @ [34]" by (simp add: render_string_def)
  have a1: "at_text (move_to b (pre @ [oc])) (pre @ [oc]) (w @ ?name @ 58 # cw @ y @ v @ z # rest) post"
    using at_text_move [of b pre "[oc]"] a by simp
  have s1: "buffer_skip_whitespace (advance 1 b) = Some (move_to b ?p1)"
    using at_text_skip [of "move_to b (pre @ [oc])" "pre @ [oc]" w 34 "escaped k @ 34 # 58 # cw @ y @ v @ z # rest" post]
      a1 w adv by (simp add: name)
  have a2: "at_text (move_to b ?p1) ?p1 (?name @ 58 # cw @ y @ v @ z # rest) post"
    using at_text_move [OF a1] by simp
  obtain m2 where m2: "parse_string (blank 0 None) (move_to b ?p1) m1
      = Some (True, CJ cJSON_String (Some k) 0 d_zero None [], move_to b ?p2, m2)" "all_ok m2"
    using parse_name [OF a2 _ r(3) m1(2)] by auto
  have a3: "at_text (move_to b ?p2) ?p2 (58 # cw @ y @ v @ z # rest) post"
    using at_text_move [OF a2] by simp
  have s2: "buffer_skip_whitespace (move_to b ?p2) = Some (move_to b ?p2)"
    using at_text_skip [of _ _ "[]" 58 "cw @ y @ v @ z # rest" post] a3 by fastforce
  have swap: "swap_name (CJ cJSON_String (Some k) 0 d_zero None []) = blank cJSON_String (jstring t)"
    using r(2) by (simp add: swap_name_def blank_def)
  have adv3: "advance 1 (move_to b ?p2) = move_to b (?p2 @ [58])" using at_text_advance [OF a3] by simp
  have a4: "at_text (move_to b (?p2 @ [58])) (?p2 @ [58]) (cw @ c # y' @ v @ z # rest) post"
    using at_text_move [of "move_to b ?p2" ?p2 "[58]"] a3 c by simp
  have s3: "buffer_skip_whitespace (move_to b (?p2 @ [58])) = Some (move_to b ?p3)"
    using at_text_skip [OF a4 w(2) c(2)] by simp
  have a5: "at_text (move_to b ?p3) ?p3 (y @ v @ z # rest) post"
    using at_text_move [OF a4] c(1) by simp
  have "ends ((v @ z # rest) @ post)"
    using w by (cases v) (auto simp: ends_def space_not_number)
  moreover have "3 * (pb_length (move_to b ?p3) - pb_offset (move_to b ?p3)) \<le> n"
    using n a by (auto simp: at_text_def)
  ultimately obtain m3 where m3: "parse_value n (blank cJSON_String (jstring t)) (move_to b ?p3) m2 = Some (True, t, move_to b ?p4, m3)" "all_ok m3"
    using r(1) at_text_front [OF a5] d m2(2) unfolding reads_def by fastforce
  have a6: "at_text (move_to b ?p4) ?p4 (v @ z # rest) post" using at_text_move [OF a5] by simp
  have s4: "buffer_skip_whitespace (move_to b ?p4) = Some (move_to b (?p4 @ v))"
    using at_text_skip [OF a6 w(3,4)] by simp
  have a7: "at_text (move_to b (?p4 @ v)) (?p4 @ v) (z # rest) post" using at_text_move [OF a6] by simp
  have "object_members (Suc n) acc b m =
    (if z = 44 then object_members n (acc @ [t]) (move_to b (?p4 @ v)) m3
     else Some (z = 125, acc @ [t], move_to b (?p4 @ v), m3))"
    using m1(1) s1 m2(1) s2 swap at_text_char [OF a3] adv3 s3 m3(1) s4 at_text_char [OF a7]
    by (simp add: object_members.simps(2) Let_def)
  then show ?thesis using m3(2) by (intro exI [of _ m3]) simp
qed

definition strip :: "bytes \<Rightarrow> bytes" where
  \<comment> \<open>without the indentation\<close>
  "strip x = dropWhile (\<lambda>c. c = 9) x"

lemma strip_member [simp]: "strip (tabs n @ render_string k @ x) = render_string k @ x"
  by (induction n) (auto simp: strip_def tabs_def render_string_def)

lemma render_members_strip:
  assumes "render_members fmt dd ts = Some x" and "ts \<noteq> []"
  obtains z where "x = tabs (if fmt then dd else 0) @ 34 # z" and "strip x = 34 # z"
proof -
  obtain t ts' where t: "ts = t # ts'" using assms(2) by (cases ts) auto
  obtain y where "x = tabs (if fmt then dd else 0) @ render_string (jstring t) @ y"
    using assms(1) by (auto simp: t render_members.simps split: Option.bind_splits)
  then show thesis using strip_member [of "if fmt then dd else 0" "jstring t" y]
    by (intro that [of "escaped (case jstring t of None \<Rightarrow> [] | Some s \<Rightarrow> s) @ 34 # y"]) (simp_all add: render_string_def)
qed

lemma object_members_read:
  assumes "at_text b pre (oc # w @ strip x @ v @ [125]) post" and "space w" and "space v"
    and "render_members fmt dd ts = Some x" and "ts \<noteq> []"
    and "\<forall>t \<in> set ts. (\<exists>k. jstring t = Some k \<and> c_string k) \<and> (\<forall>y. render fmt dd t = Some y \<longrightarrow> reads d t y)"
    and "3 * (pb_length b - pb_offset b) \<le> n + 2" and "pb_depth b = d" and "all_ok m"
  shows "\<exists>m'. object_members n acc b m = Some (True, acc @ ts, move_to b (pre @ oc # w @ strip x @ v), m') \<and> all_ok m'"
  using assms
proof (induction ts arbitrary: b pre oc w x n acc m)
  case (Cons t ts)
  obtain k where k: "jstring t = Some k" "c_string k" using Cons.prems(6) by auto
  let ?tb = "tabs (if fmt then dd else 0)" and ?cw = "if fmt then [9] else [] :: bytes" and ?nl = "if fmt then [10] else [] :: bytes"
  obtain y x' where y: "render fmt dd t = Some y" "render_members fmt dd ts = Some x'"
      and xx: "x = ?tb @ render_string (Some k) @ 58 # ?cw @ y @ (if ts = [] then [] else [44]) @ ?nl @ x'"
    using Cons.prems(4) k(1) by (cases fmt) (auto simp: render_members.simps split: Option.bind_splits)
  then have x: "strip x = render_string (Some k) @ 58 # ?cw @ y @ (if ts = [] then [] else [44]) @ ?nl @ x'"
    by (simp del: append_assoc)
  have r: "reads d t y" using Cons.prems(6) y(1) by auto
  obtain n' where n: "n = Suc n'" using Cons.prems(1,7) by (cases n) (auto simp: at_text_def)
  have ws: "space ?cw" "space ?nl" by simp_all
  note turn = object_member_read [where oc = oc and w = w and k = k and cw = ?cw and y = y and pre = pre and b = b and
      post = post and d = d and t = t and n = n' and m = m and acc = acc]
  show ?case
  proof (cases "ts = []")
    case True
    obtain m' where "all_ok m'" "object_members (Suc n') acc b m = Some (True, acc @ [t],
        move_to b (pre @ oc # w @ render_string (Some k) @ 58 # ?cw @ y @ (?nl @ v)), m')"
      using turn [of "?nl @ v" 125 "[]"] ws Cons.prems r k True y(2) x n by (auto simp: number_char_def)
    then show ?thesis using x True y(2) n by simp
  next
    case False
    let ?b = "move_to b (pre @ oc # w @ render_string (Some k) @ 58 # ?cw @ y)"
    obtain z where z: "x' = ?tb @ 34 # z" "strip x' = 34 # z" using render_members_strip [OF y(2) False] .
    obtain m1 where m1: "all_ok m1" "object_members (Suc n') acc b m = object_members n' (acc @ [t]) ?b m1"
      using turn [of "[]" 44 "?nl @ x' @ v @ [125]"] ws Cons.prems r k False x n by (auto simp: number_char_def)
    have "\<exists>m'. object_members n' (acc @ [t]) ?b m1 = Some (True, (acc @ [t]) @ ts,
        move_to ?b ((pre @ oc # w @ render_string (Some k) @ 58 # ?cw @ y) @ 44 # (?nl @ ?tb) @ strip x' @ v), m') \<and> all_ok m'"
    proof (rule Cons.IH)
      show "at_text ?b (pre @ oc # w @ render_string (Some k) @ 58 # ?cw @ y) (44 # (?nl @ ?tb) @ strip x' @ v @ [125]) post"
        using at_text_move [of b pre "oc # w @ render_string (Some k) @ 58 # ?cw @ y" "44 # ?nl @ x' @ v @ [125]" post]
          Cons.prems(1) x z False by simp
      show "3 * (pb_length ?b - pb_offset ?b) \<le> n' + 2"
        using Cons.prems(1,7) n by (auto simp: at_text_def)
    qed (use Cons.prems y(2) False m1(1) in auto)
    then show ?thesis using m1(2) n False x z by simp
  qed
qed simp

lemma reads_object:
  assumes x: "render_members fmt dd ts = Some x" and d: "d < CJSON_NESTING_LIMIT"
    and ts: "\<forall>t \<in> set ts. (\<exists>k. jstring t = Some k \<and> c_string k) \<and> (\<forall>y. render fmt dd t = Some y \<longrightarrow> reads (Suc d) t y)"
    and u: "space u" and v: "space v"
  shows "reads d (CJ cJSON_Object None 0 d_zero s ts) ([123] @ u @ x @ v @ [125])"
proof (rule readsI)
  fix n b m pre post and ty :: u32
  let ?t = "CJ cJSON_Object None 0 d_zero s ts" and ?fin = "pre @ [123] @ u @ x @ v @ [125]"
  assume a: "at_text b pre ([123] @ u @ x @ v @ [125]) post" and n: "3 * (pb_length b - pb_offset b) \<le> Suc n"
    and b: "pb_depth b = d" and m: "all_ok m"
  define b1 where "b1 = b\<lparr>pb_depth := Suc d\<rparr>"
  have a1: "at_text b1 pre (123 # u @ x @ v @ [125]) post" using a by (simp add: b1_def)
  obtain k where k: "n = Suc k" using n a by (cases n) (auto simp: at_text_def)
  have adv: "advance 1 b1 = move_to b1 (pre @ [123])" using at_text_advance a1 by blast
  have brace: "at_char b1 123 = Some True" using at_text_char [OF a1] by simp
  have a2: "at_text (move_to b1 (pre @ [123])) (pre @ [123]) (u @ x @ v @ [125]) post"
    using at_text_move [of b1 pre "[123]" "u @ x @ v @ [125]" post] a1 by simp
  have skip: "buffer_skip_whitespace (advance 1 b1) = Some (move_to b1 (pre @ 123 # w)) \<and>
      at_text (move_to b1 (pre @ 123 # w)) (pre @ 123 # w) (c # rest) post"
    if "u @ x @ v @ [125] = w @ c # rest" "space w" "32 < c" for w c rest
    using at_text_skip [of "move_to b1 (pre @ [123])" "pre @ [123]" w c rest post]
      at_text_move [of "move_to b1 (pre @ [123])" "pre @ [123]" w "c # rest" post] a2 that adv by simp
  have a4: "at_text (move_to b (pre @ 123 # u @ x @ v)) (pre @ 123 # u @ x @ v) [125] post"
    using at_text_move [of b pre "123 # u @ x @ v" "[125]" post] a by simp
  have "\<exists>m'. parse_object n (blank ty s) b m = Some (True, ?t, move_to b ?fin, m') \<and> all_ok m'"
  proof (cases "ts = []")
    case True
    then have "x = []" using x by simp
    then have sk: "buffer_skip_whitespace (advance 1 b1) = Some (move_to b1 (pre @ 123 # u @ x @ v))"
      "at_char (move_to b1 (pre @ 123 # u @ x @ v)) 125 = Some True"
      using skip [of "u @ v" 125 "[]"] u v at_text_char by auto
    have "parse_object n (blank ty s) b m = Some (True, ?t, move_to b ?fin, m)"
      using d b brace sk True finish_list_at [OF a4, of cJSON_Object "[]" ty s d m] move_to_depth [OF b]
      by (simp add: k parse_object.simps(2) Let_def b1_def)
    then show ?thesis using m by blast
  next
    case False
    obtain z where z: "x = tabs (if fmt then dd else 0) @ 34 # z" "strip x = 34 # z" using render_members_strip [OF x False] .
    let ?w = "u @ tabs (if fmt then dd else 0)"
    have sk: "buffer_skip_whitespace (advance 1 b1) = Some (move_to b1 (pre @ 123 # ?w))"
        "at_text (move_to b1 (pre @ 123 # ?w)) (pre @ 123 # ?w) (34 # z @ v @ [125]) post"
      using skip [of ?w 34 "z @ v @ [125]"] u z by auto
    obtain p oc where p: "pre @ 123 # ?w = p @ [oc]" by (metis append_butlast_last_id list.distinct(1) append_is_Nil_conv)
    have a5: "at_text (move_to b1 p) p (oc # strip x @ v @ [125]) post"
      using at_text_unread [of "move_to b1 (pre @ 123 # ?w)" p oc] sk(2) unfolding p z(2) by simp
    have stepped: "step_back (move_to b1 (pre @ 123 # ?w)) = Some (move_to b1 p)"
      using p by (simp add: step_back_def move_to_def)
    have pos: "length pre \<le> length p" using arg_cong [OF p, of length] by simp
    have fuel: "3 * (pb_length (move_to b1 p) - pb_offset (move_to b1 p)) \<le> k + 2"
      using n k pos a by (simp add: b1_def at_text_def)
    obtain m' where e: "object_members k [] (move_to b1 p) m = Some (True, [] @ ts, move_to (move_to b1 p) (p @ oc # [] @ strip x @ v), m')" "all_ok m'"
      using object_members_read [of "move_to b1 p" p oc "[]" x v post fmt dd ts "Suc d" k m "[]"] a5 v x False ts fuel b m
      by (auto simp: b1_def)
    have p': "p @ oc # strip x @ v = pre @ 123 # u @ x @ v"
      using arg_cong [OF p, of "\<lambda>l. l @ strip x @ v"] z by simp
    have "parse_object n (blank ty s) b m = Some (True, ?t, move_to b ?fin, m')"
      using d b brace sk(1) at_text_char [OF sk(2), of 125] at_text_access [OF sk(2)] stepped e p'
        finish_list_at [OF a4, of cJSON_Object ts ty s d m'] move_to_depth [OF b] False
      by (simp add: k parse_object.simps(2) Let_def b1_def)
    then show ?thesis using e(2) by blast
  qed
  then show "\<exists>m'. parse_value (Suc n) (blank ty (jstring ?t)) b m = Some (True, ?t, move_to b ?fin, m') \<and> all_ok m'"
    using parse_value_other [of b pre 123 "u @ x @ v @ [125]" post n] a by simp
qed simp_all

subsection \<open>The round trip\<close>

lemma nesting_le: "t \<in> set ts \<Longrightarrow> nesting t \<le> nesting_list ts"
  using nesting_list_le [of ts "nesting_list ts"] by simp

lemma canonical_name: "canonical t \<Longrightarrow> jstring t = Some k \<Longrightarrow> c_string k"
  by (cases t) simp

lemma render_reads:
  "canonical t \<Longrightarrow> d + nesting t \<le> CJSON_NESTING_LIMIT \<Longrightarrow> render fmt dd t = Some x \<Longrightarrow> reads d t x"
proof (induction t arbitrary: d dd x)
  case (CJ ty vs vi vd s c)
  have kids: "reads (Suc d) u y"
    if "u \<in> set c" "canonical u" "ty = cJSON_Array \<or> ty = cJSON_Object" "render fmt k u = Some y" for u k y
    using that nesting_le [OF that(1)] CJ.prems(2) by (intro CJ.IH [OF that(1) that(2) _ that(4)]) auto
  have types: "ty = cJSON_Number \<or> ty = cJSON_String \<or> ty = cJSON_Array \<or> ty = cJSON_Object \<or> ty = cJSON_True
      \<or> ty = cJSON_False \<or> ty = cJSON_NULL"
    using CJ.prems(1) by (auto split: if_splits)
  then show ?case
  proof (elim disjE)
    assume ty: "ty = cJSON_Number"
    then show ?thesis using CJ.prems reads_number by (auto simp: cJSON_types Let_def)
  next
    assume ty: "ty = cJSON_String"
    then show ?thesis using CJ.prems reads_string by (auto simp: cJSON_types Let_def split: option.splits)
  next
    assume ty: "ty = cJSON_Array"
    then obtain y where y: "render_elements fmt (dd + 1) c = Some y" "x = [91] @ y @ [93]"
      using CJ.prems(3) by (auto simp: cJSON_types Let_def)
    have "reads d (CJ cJSON_Array None 0 d_zero s c) ([91] @ y @ [93])"
      using CJ.prems kids ty by (intro reads_array [OF y(1)]) (auto simp: cJSON_types list_all_iff)
    then show ?thesis using CJ.prems(1) ty y(2) by (simp add: cJSON_types)
  next
    assume ty: "ty = cJSON_Object"
    then obtain y where y: "render_members fmt (dd + 1) c = Some y"
        "x = [123] @ (if fmt then [10] else []) @ y @ tabs (if fmt then dd else 0) @ [125]"
      using CJ.prems(3) by (auto simp: cJSON_types Let_def)
    have "reads d (CJ cJSON_Object None 0 d_zero s c) x"
      unfolding y(2) using CJ.prems kids ty canonical_name
      by (intro reads_object [OF y(1)]) (auto simp: cJSON_types list_all_iff)
    then show ?thesis using CJ.prems(1) ty by (simp add: cJSON_types)
  next
    assume "ty = cJSON_True"
    then show ?thesis using CJ.prems reads_literals(3) by (auto simp: cJSON_types Let_def)
  next
    assume "ty = cJSON_False"
    then show ?thesis using CJ.prems reads_literals(2) by (auto simp: cJSON_types Let_def)
  next
    assume "ty = cJSON_NULL"
    then show ?thesis using CJ.prems reads_literals(1) by (auto simp: cJSON_types Let_def)
  qed
qed

lemma canonical_printable: "canonical t \<Longrightarrow> printable t"
proof (induction t)
  case (CJ ty vs vi vd s c)
  have "wf_double d_zero" by (simp add: d_zero_def)
  then show ?case using CJ wf_small_int [of vd] by (auto simp: list_all_iff cJSON_types split: if_splits option.splits)
qed

lemma parse_rendered:
  assumes "canonical t" and "nesting t \<le> CJSON_NESTING_LIMIT" and "jstring t = None"
    and "render fmt 0 t = Some x" and x: "c_string x" and m: "all_ok m"
  shows "\<exists>m'. cJSON_ParseWithOpts (Some (x @ [0])) strict m
      = Some (Some t, Some (length x), \<lparr>err_json = None, err_position = 0\<rparr>, m')"
proof -
  have r: "reads 0 t x" using render_reads assms by simp
  obtain c y where c: "x = c # y" "32 < c" "c \<noteq> 0xEF" using r by (cases x) (auto simp: reads_def)
  define b where "b = \<lparr>pb_content = x @ [0], pb_length = length x + 1, pb_offset = 0, pb_depth = 0\<rparr>"
  have a: "at_text b [] x [0]" by (simp add: b_def at_text_def wf_pb_def)
  have bom: "skip_utf8_bom b = Some b"
    using c by (auto simp: skip_utf8_bom_def b_def can_access_at_index_def starts_with_def read_range_def)
  have ws: "buffer_skip_whitespace b = Some b"
    using at_text_skip [of b "[]" "[]" c y "[0]"] at_text_stay [of b "[]" c y "[0]"] a c by simp
  obtain m1 where m1: "cJSON_New_Item m = (Some (blank 0 None), m1)" "all_ok m1" using all_ok_New_Item [OF m] by blast
  have "ends [0]" by (simp add: ends_def number_char_def)
  moreover have "3 * (pb_length b - pb_offset b) \<le> parse_fuel b" "pb_depth b = 0" by (simp_all add: parse_fuel_def b_def)
  ultimately obtain m2 where m2: "parse_value (parse_fuel b) (blank 0 None) b m1 = Some (True, t, move_to b x, m2)"
    using r a m1(2) assms(3) unfolding reads_def by (metis append_Nil)
  have "ws_end (x @ [0]) (length x + 1) (length x) = Some (length x + 1)"
    by (subst ws_end.simps, subst ws_end.simps) (simp add: buf_simps)
  then have ws2: "buffer_skip_whitespace (move_to b x) = Some (move_to b x)"
    by (simp add: buffer_skip_whitespace_def b_def move_to_def step_back_def)
  have zero: "char_at (move_to b x) 0 = Some 0" by (simp add: char_at_def b_def move_to_def buf_simps)
  have len: "c_strlen (x @ [0]) = Some (length x)" using c_strlen_append [OF x] by simp
  show ?thesis
    unfolding cJSON_ParseWithOpts_def Let_def option.case len bind.bind_lunit b_def [symmetric]
    using bom ws m1(1) m2 ws2 zero by (simp add: b_def)
qed

subsection \<open>Properties\<close>



end
