(* ===== verification/Pixel.thy ===== *)
theory Pixel
  imports CPrelude
begin

text \<open>
  The frame converters of \<open>Common.c\<close> that the thermal channel feeds its encoder with:
  \<open>rgb_to_yuv420p\<close> and \<open>encodeYUV420sp\<close>.  Their two loops are the same text, so they are one
  definition here, with the store of the chroma samples as a parameter.  \<open>int\<close> is exact: the
  intermediate values of a pixel are far below \<open>2 ^ 31\<close>, and \<open>>> 8\<close> of a negative \<open>int\<close> is the
  arithmetic shift of the compiler.
\<close>

subsection \<open>Loops\<close>

function for_loop :: "nat \<Rightarrow> nat \<Rightarrow> (nat \<Rightarrow> 's \<Rightarrow> 's option) \<Rightarrow> 's \<Rightarrow> 's option" where
  \<comment> \<open>\<open>for (; i < n; i++)\<close>\<close>
  "for_loop i n body s =
     (if i < n then (case body i s of None \<Rightarrow> None | Some s \<Rightarrow> for_loop (i + 1) n body s) else Some s)"
  by pat_completeness auto
termination by (relation "measure (\<lambda>(i, n, body, s). n - i)") auto

declare for_loop.simps [simp del]

lemma for_loop_rule:
  assumes "\<And>j s. i \<le> j \<Longrightarrow> j < n \<Longrightarrow> I j s \<Longrightarrow> \<exists>s'. body j s = Some s' \<and> I (Suc j) s'"
  shows "i \<le> n \<Longrightarrow> I i s \<Longrightarrow> \<exists>s'. for_loop i n body s = Some s' \<and> I n s'"
  using assms
proof (induction i n body s rule: for_loop.induct)
  case (1 i n body s)
  show ?case
  proof (cases "i < n")
    case True
    then obtain s' where s': "body i s = Some s'" "I (Suc i) s'" using 1 by blast
    then have "\<exists>s''. for_loop (i + 1) n body s' = Some s'' \<and> I n s''" using 1 True by (intro "1.IH") auto
    then show ?thesis using True s' by (subst for_loop.simps) simp
  next
    case False
    then show ?thesis using 1 by (subst for_loop.simps) simp
  qed
qed

lemma for_loop_partial:
  assumes "\<And>j s s'. i \<le> j \<Longrightarrow> j < n \<Longrightarrow> I j s \<Longrightarrow> body j s = Some s' \<Longrightarrow> I (Suc j) s'"
  shows "i \<le> n \<Longrightarrow> I i s \<Longrightarrow> for_loop i n body s = Some r \<Longrightarrow> I n r"
  using assms
proof (induction i n body s rule: for_loop.induct)
  case (1 i n body s)
  show ?case
  proof (cases "i < n")
    case True
    then obtain s' where s': "body i s = Some s'" "for_loop (i + 1) n body s' = Some r"
      using "1.prems"(3) by (subst (asm) for_loop.simps) (auto split: option.splits)
    then show ?thesis using 1 True by (intro "1.IH" [OF True s'(1)]) auto
  next
    case False
    then show ?thesis using 1 by (subst (asm) for_loop.simps) simp
  qed
qed

subsection \<open>One pixel\<close>

definition luma :: "int \<Rightarrow> int \<Rightarrow> int \<Rightarrow> int" where
  "luma R G B = drop_bit 8 (66 * R + 129 * G + 25 * B + 128) + 16"

definition chroma_u :: "int \<Rightarrow> int \<Rightarrow> int \<Rightarrow> int" where
  "chroma_u R G B = drop_bit 8 (-38 * R - 74 * G + 112 * B + 128) + 128"

definition chroma_v :: "int \<Rightarrow> int \<Rightarrow> int \<Rightarrow> int" where
  "chroma_v R G B = drop_bit 8 (112 * R - 94 * G - 18 * B + 128) + 128"

definition clamp :: "int \<Rightarrow> u8" where
  \<comment> \<open>\<open>(unsigned char) ((Y < 0) ? 0 : ((Y > 255) ? 255 : Y))\<close>\<close>
  "clamp Y = word_of_int (if Y < 0 then 0 else if Y > 255 then 255 else Y)"

definition pixel_at :: "bytes \<Rightarrow> nat \<Rightarrow> (int \<times> int \<times> int) option" where
  \<comment> \<open>\<open>R\<close>, \<open>G\<close>, \<open>B\<close> of the pixel at index \<open>p\<close>, stored in the order \<open>B\<close>, \<open>G\<close>, \<open>R\<close>\<close>
  "pixel_at rgb p = do {
     b \<leftarrow> read_at rgb (p * 3 + 0);
     g \<leftarrow> read_at rgb (p * 3 + 1);
     r \<leftarrow> read_at rgb (p * 3 + 2);
     Some (uint r, uint g, uint b) }"

subsection \<open>A frame\<close>

definition pixel_step ::
    "(u8 \<Rightarrow> u8 \<Rightarrow> bytes \<times> 'ix \<Rightarrow> (bytes \<times> 'ix) option) \<Rightarrow> bytes \<Rightarrow> nat \<Rightarrow> nat \<Rightarrow> nat
     \<Rightarrow> bytes \<times> nat \<times> 'ix \<Rightarrow> (bytes \<times> nat \<times> 'ix) option" where
  \<comment> \<open>the body of the inner loop; \<open>put u v\<close> stores a pair of chroma samples\<close>
  "pixel_step put rgb width i j = (\<lambda>(yuv, yIndex, ix). do {
     (R, G, B) \<leftarrow> pixel_at rgb (i * width + j);
     yuv \<leftarrow> write_at yuv yIndex [clamp (luma R G B)];
     if i mod 2 = 0 \<and> j mod 2 = 0
     then do { (yuv, ix) \<leftarrow> put (clamp (chroma_u R G B)) (clamp (chroma_v R G B)) (yuv, ix); Some (yuv, yIndex + 1, ix) }
     else Some (yuv, yIndex + 1, ix) })"

definition frame_loop ::
    "(u8 \<Rightarrow> u8 \<Rightarrow> bytes \<times> 'ix \<Rightarrow> (bytes \<times> 'ix) option) \<Rightarrow> 'ix \<Rightarrow> bytes \<Rightarrow> bytes \<Rightarrow> nat \<Rightarrow> nat \<Rightarrow> bytes option" where
  "frame_loop put start yuv rgb width height =
     map_option fst (for_loop 0 height (\<lambda>i. for_loop 0 width (pixel_step put rgb width i)) (yuv, 0, start))"

definition put_planar :: "u8 \<Rightarrow> u8 \<Rightarrow> bytes \<times> nat \<times> nat \<Rightarrow> (bytes \<times> nat \<times> nat) option" where
  "put_planar u v = (\<lambda>(yuv, uIndex, vIndex). do {
     yuv \<leftarrow> write_at yuv uIndex [u];
     yuv \<leftarrow> write_at yuv vIndex [v];
     Some (yuv, uIndex + 1, vIndex + 1) })"

definition rgb_to_yuv420p :: "bytes option \<Rightarrow> bytes option \<Rightarrow> nat \<Rightarrow> nat \<Rightarrow> bytes option option" where
  \<comment> \<open>the output buffer afterwards; the inner \<open>None\<close> is the \<open>NULL\<close> that was passed\<close>
  "rgb_to_yuv420p yuv420p rgb width height =
     (case (yuv420p, rgb) of
        (Some yuv, Some src) \<Rightarrow>
          let frameSize = width * height; chromaSize = frameSize div 4
          in map_option Some (frame_loop put_planar (frameSize, frameSize + chromaSize) yuv src width height)
      | _ \<Rightarrow> Some yuv420p)"

definition put_interleaved :: "u8 \<Rightarrow> u8 \<Rightarrow> bytes \<times> nat \<Rightarrow> (bytes \<times> nat) option" where
  "put_interleaved u v = (\<lambda>(yuv, uvIndex). do {
     yuv \<leftarrow> write_at yuv uvIndex [v];
     yuv \<leftarrow> write_at yuv (uvIndex + 1) [u];
     Some (yuv, uvIndex + 2) })"

definition encodeYUV420sp :: "bytes option \<Rightarrow> bytes option \<Rightarrow> nat \<Rightarrow> nat \<Rightarrow> bytes option option" where
  "encodeYUV420sp yuv420sp rgb width height =
     (case (yuv420sp, rgb) of
        (Some yuv, Some src) \<Rightarrow> map_option Some (frame_loop put_interleaved (width * height) yuv src width height)
      | _ \<Rightarrow> Some yuv420sp)"

subsection \<open>The frame that should come out\<close>

definition px :: "bytes \<Rightarrow> nat \<Rightarrow> int \<times> int \<times> int" where
  "px rgb p = (uint (rgb ! (p * 3 + 2)), uint (rgb ! (p * 3 + 1)), uint (rgb ! (p * 3)))"

definition y_sample :: "bytes \<Rightarrow> nat \<Rightarrow> u8" where
  "y_sample rgb p = (case px rgb p of (R, G, B) \<Rightarrow> clamp (luma R G B))"

definition u_sample :: "bytes \<Rightarrow> nat \<Rightarrow> u8" where
  "u_sample rgb p = (case px rgb p of (R, G, B) \<Rightarrow> clamp (chroma_u R G B))"

definition v_sample :: "bytes \<Rightarrow> nat \<Rightarrow> u8" where
  "v_sample rgb p = (case px rgb p of (R, G, B) \<Rightarrow> clamp (chroma_v R G B))"

definition half :: "nat \<Rightarrow> nat" where
  \<comment> \<open>rounded up\<close>
  "half n = (n + 1) div 2"

definition samples :: "nat \<Rightarrow> nat \<Rightarrow> nat \<Rightarrow> nat" where
  \<comment> \<open>the chroma pairs stored before pixel \<open>(i, j)\<close>\<close>
  "samples w i j = half i * half w + (if even i then half j else 0)"

definition top_left :: "nat \<Rightarrow> nat \<Rightarrow> nat" where
  \<comment> \<open>the pixel that the \<open>k\<close>-th chroma pair is taken from: the top left one of its block of four\<close>
  "top_left w k = 2 * (k div half w) * w + 2 * (k mod half w)"

lemma pixel_at_in: "(p + 1) * 3 \<le> length rgb \<Longrightarrow> pixel_at rgb p = Some (px rgb p)"
  by (simp add: pixel_at_def px_def read_at_def)

lemma samples_Suc: "samples w i (Suc j) = samples w i j + (if even i \<and> even j then 1 else 0)"
  by (auto simp: samples_def half_def elim!: evenE oddE)

lemma samples_row: "samples w i w = samples w (Suc i) 0"
  by (auto simp: samples_def half_def elim!: evenE oddE)

lemma samples_0 [simp]: "samples w 0 0 = 0"
  by (simp add: samples_def half_def)

lemma top_left_samples:
  assumes "even i" and "even j" and "j < w"
  shows "top_left w (samples w i j) = i * w + j"
proof -
  have "half j < half w" using assms by (auto simp: half_def elim!: evenE)
  then have "samples w i j div half w = half i" "samples w i j mod half w = half j"
    using assms(1) by (simp_all add: samples_def)
  then show ?thesis using assms by (auto simp: top_left_def half_def elim!: evenE)
qed

lemma write_at_1: "write_at b i [x] = (if i < length b then Some (b[i := x]) else None)"
  by (auto simp: write_at_def upd_conv_take_nth_drop)

lemma inside_frame: "i < h \<Longrightarrow> j < w \<Longrightarrow> i * w + j < w * (h :: nat)"
proof -
  assume "i < h" "j < w"
  then have "i * w + j < Suc i * w" by simp
  also have "\<dots> \<le> h * w" using \<open>i < h\<close> by (intro mult_le_mono1) simp
  finally show ?thesis by (simp add: mult.commute)
qed

lemma samples_few:
  assumes "i < h" and "j < w" and "even i" and "even j"
  shows "samples w i j < half h * half w"
proof -
  have "half i + 1 \<le> half h" "half j < half w" using assms by (auto simp: half_def elim!: evenE)
  then have "samples w i j < half i * half w + half w" "(half i + 1) * half w \<le> half h * half w"
    using assms by (simp_all add: samples_def mult_le_mono1 del: mult_Suc)
  then show ?thesis by simp
qed

text \<open>
  What a store for the chroma samples owes the loops: the \<open>k\<close>-th pair goes to two places above the
  luma plane of \<open>F\<close> bytes, and no two of the first \<open>F div 4\<close> pairs share a place.
\<close>

locale chroma_writer =
  fixes put :: "u8 \<Rightarrow> u8 \<Rightarrow> bytes \<times> 'ix \<Rightarrow> (bytes \<times> 'ix) option"
    and ix :: "nat \<Rightarrow> nat \<Rightarrow> 'ix"
    and u_at :: "nat \<Rightarrow> nat \<Rightarrow> nat"
    and v_at :: "nat \<Rightarrow> nat \<Rightarrow> nat"
  assumes put_in: "u_at F k < length b \<Longrightarrow> v_at F k < length b \<Longrightarrow>
      put u v (b, ix F k) = Some (b[u_at F k := u, v_at F k := v], ix F (Suc k))"
    and put_out: "\<not> (u_at F k < length b \<and> v_at F k < length b) \<Longrightarrow> put u v (b, ix F k) = None"
    and above: "F \<le> u_at F k" "F \<le> v_at F k"
    and apart: "j < F div 4 \<Longrightarrow> k < F div 4 \<Longrightarrow> u_at F j \<noteq> v_at F k"
      "u_at F j = u_at F k \<Longrightarrow> j = k" "v_at F j = v_at F k \<Longrightarrow> j = k"
begin

definition drawn :: "bytes \<Rightarrow> nat \<Rightarrow> nat \<Rightarrow> nat \<Rightarrow> nat \<Rightarrow> nat \<Rightarrow> bytes \<times> nat \<times> 'ix \<Rightarrow> bool" where
  \<comment> \<open>what the buffer holds before pixel \<open>(i, j)\<close>\<close>
  "drawn rgb n F w i j = (\<lambda>(b, yIndex, x). length b = n \<and> yIndex = i * w + j \<and> x = ix F (samples w i j)
     \<and> (\<forall>p < i * w + j. b ! p = y_sample rgb p)
     \<and> (\<forall>k < samples w i j. b ! u_at F k = u_sample rgb (top_left w k) \<and> b ! v_at F k = v_sample rgb (top_left w k)))"

lemma pixel_step_drawn:
  assumes "drawn rgb n F w i j s" and p: "i * w + j < F" "j < w" and rgb: "F * 3 \<le> length rgb"
    and n: "F \<le> n" "\<forall>k < F div 4. u_at F k < n \<and> v_at F k < n" and k: "even i \<Longrightarrow> even j \<Longrightarrow> samples w i j < F div 4"
  shows "\<exists>s'. pixel_step put rgb w i j s = Some s' \<and> drawn rgb n F w i (Suc j) s'"
proof -
  obtain b where s: "s = (b, i * w + j, ix F (samples w i j))" "length b = n"
      and y: "\<forall>p < i * w + j. b ! p = y_sample rgb p"
      and c: "\<forall>k < samples w i j. b ! u_at F k = u_sample rgb (top_left w k) \<and> b ! v_at F k = v_sample rgb (top_left w k)"
    using assms(1) by (auto simp: drawn_def)
  let ?p = "i * w + j" and ?k = "samples w i j"
  have px: "pixel_at rgb ?p = Some (px rgb ?p)" using p rgb by (intro pixel_at_in) auto
  obtain R G B where rgbp: "px rgb ?p = (R, G, B)" by (cases "px rgb ?p")
  define b1 where "b1 = b[?p := y_sample rgb ?p]"
  have w1: "write_at b ?p [clamp (luma R G B)] = Some b1"
    using p n s(2) rgbp by (simp add: b1_def write_at_1 y_sample_def)
  have far: "u_at F k \<noteq> ?p" "v_at F k \<noteq> ?p" for k using above [of F k] p by auto
  have y1: "\<forall>q < Suc ?p. b1 ! q = y_sample rgb q"
    using y p n s(2) by (auto simp: b1_def nth_list_update less_Suc_eq)
  have c1: "\<forall>k < ?k. b1 ! u_at F k = u_sample rgb (top_left w k) \<and> b1 ! v_at F k = v_sample rgb (top_left w k)"
    using c far [symmetric] by (simp add: b1_def)
  show ?thesis
  proof (cases "even i \<and> even j")
    case False
    then have "pixel_step put rgb w i j s = Some (b1, Suc ?p, ix F ?k)"
      using px rgbp w1 by (auto simp: pixel_step_def s(1) even_iff_mod_2_eq_zero)
    moreover have "drawn rgb n F w i (Suc j) (b1, Suc ?p, ix F ?k)"
      using False y1 c1 s(2) by (auto simp: drawn_def samples_Suc b1_def)
    ultimately show ?thesis by blast
  next
    case True
    have kF: "?k < F div 4" using k True by blast
    define b2 where "b2 = b1[u_at F ?k := u_sample rgb ?p, v_at F ?k := v_sample rgb ?p]"
    have len: "length b1 = n" "length b2 = n" using s(2) by (simp_all add: b1_def b2_def)
    have "put (clamp (chroma_u R G B)) (clamp (chroma_v R G B)) (b1, ix F ?k) = Some (b2, ix F (Suc ?k))"
      using put_in [of F ?k b1] n kF len rgbp by (simp add: b2_def u_sample_def v_sample_def)
    then have step: "pixel_step put rgb w i j s = Some (b2, Suc ?p, ix F (Suc ?k))"
      using px rgbp w1 True by (simp add: pixel_step_def s(1) even_iff_mod_2_eq_zero)
    have y2: "\<forall>q < Suc ?p. b2 ! q = y_sample rgb q"
      using y1 above [of F ?k] p by (auto simp: b2_def nth_list_update)
    have "b2 ! u_at F q = u_sample rgb (top_left w q) \<and> b2 ! v_at F q = v_sample rgb (top_left w q)" if "q < Suc ?k" for q
    proof -
      have ne: "u_at F q \<noteq> v_at F ?k" "u_at F ?k \<noteq> v_at F q" using apart(1) that kF by auto
      have tl: "top_left w ?k = ?p" using top_left_samples True p(2) by blast
      show ?thesis
      proof (cases "q = ?k")
        case True
        then show ?thesis using ne tl n kF len by (simp add: b2_def)
      next
        case False
        then have "u_at F ?k \<noteq> u_at F q" "v_at F ?k \<noteq> v_at F q" "q < ?k"
          using apart(2) [of F ?k q] apart(3) [of F ?k q] that by auto
        then show ?thesis using ne [symmetric] ne c1 by (simp add: b2_def)
      qed
    qed
    then have "drawn rgb n F w i (Suc j) (b2, Suc ?p, ix F (Suc ?k))"
      using True y2 len by (simp add: drawn_def samples_Suc)
    then show ?thesis using step by blast
  qed
qed

lemma frame_drawn:
  assumes "even w" and "even h" and rgb: "w * h * 3 \<le> length rgb" and n: "w * h \<le> length yuv"
    and room: "\<forall>k < w * h div 4. u_at (w * h) k < length yuv \<and> v_at (w * h) k < length yuv"
  shows "\<exists>b. frame_loop put (ix (w * h) 0) yuv rgb w h = Some b \<and> length b = length yuv
    \<and> (\<forall>p < w * h. b ! p = y_sample rgb p)
    \<and> (\<forall>k < w * h div 4. b ! u_at (w * h) k = u_sample rgb (top_left w k) \<and> b ! v_at (w * h) k = v_sample rgb (top_left w k))"
proof -
  let ?F = "w * h" and ?I = "drawn rgb (length yuv) (w * h) w"
  have quarter: "half h * half w = ?F div 4" using assms by (auto simp: half_def elim!: evenE)
  then have total: "samples w h 0 = ?F div 4" by (simp add: samples_def half_def)
  have few: "samples w i j < ?F div 4" if "i < h" "j < w" "even i" "even j" for i j
    using samples_few that quarter by metis
  have row: "\<exists>s'. for_loop 0 w (pixel_step put rgb w i) s = Some s' \<and> ?I (Suc i) 0 s'" if "i < h" "?I i 0 s" for i s
  proof -
    have "\<exists>s'. for_loop 0 w (pixel_step put rgb w i) s = Some s' \<and> ?I i w s'"
      using that few inside_frame rgb n room
      by (intro for_loop_rule [where I = "?I i"] pixel_step_drawn) auto
    then show ?thesis by (auto simp: drawn_def samples_row)
  qed
  have "\<exists>s'. for_loop 0 h (\<lambda>i. for_loop 0 w (pixel_step put rgb w i)) (yuv, 0, ix ?F 0) = Some s' \<and> ?I h 0 s'"
    by (rule for_loop_rule) (use row in \<open>auto simp: drawn_def\<close>)
  then show ?thesis using total by (auto simp: frame_loop_def drawn_def mult.commute)
qed

definition counted :: "nat \<Rightarrow> nat \<Rightarrow> nat \<Rightarrow> nat \<Rightarrow> nat \<Rightarrow> bytes \<times> nat \<times> 'ix \<Rightarrow> bool" where
  \<comment> \<open>only the positions, before pixel \<open>(i, j)\<close>\<close>
  "counted n F w i j = (\<lambda>(b, yIndex, x). length b = n \<and> yIndex = i * w + j \<and> x = ix F (samples w i j))"

definition fits :: "nat \<Rightarrow> nat \<Rightarrow> nat \<Rightarrow> bool" where
  "fits n F k \<longleftrightarrow> u_at F k < n \<and> v_at F k < n"

lemma pixel_step_counted:
  assumes "counted n F w i j s" and "(i * w + j + 1) * 3 \<le> length rgb"
  shows "pixel_step put rgb w i j s \<noteq> None \<longleftrightarrow> i * w + j < n \<and> (even i \<and> even j \<longrightarrow> fits n F (samples w i j))"
    and "pixel_step put rgb w i j s = Some s' \<Longrightarrow> counted n F w i (Suc j) s'"
proof -
  obtain b where s: "s = (b, i * w + j, ix F (samples w i j))" "length b = n" using assms(1) by (auto simp: counted_def)
  have px: "pixel_at rgb (i * w + j) = Some (px rgb (i * w + j))" using assms(2) by (intro pixel_at_in) simp
  obtain R G B where rgbp: "px rgb (i * w + j) = (R, G, B)" by (cases "px rgb (i * w + j)")
  let ?b1 = "b[i * w + j := clamp (luma R G B)]" and ?k = "samples w i j"
  have put: "put u v (?b1, ix F ?k) = (if fits n F ?k then Some (?b1[u_at F ?k := u, v_at F ?k := v], ix F (Suc ?k)) else None)" for u v
    using put_in [of F ?k ?b1 u v] put_out [of F ?k ?b1 u v] s(2) by (auto simp: fits_def)
  show "pixel_step put rgb w i j s \<noteq> None \<longleftrightarrow> i * w + j < n \<and> (even i \<and> even j \<longrightarrow> fits n F ?k)"
    using px rgbp put s(2) by (auto simp: pixel_step_def s(1) write_at_1 even_iff_mod_2_eq_zero)
  show "pixel_step put rgb w i j s = Some s' \<Longrightarrow> counted n F w i (Suc j) s'"
    using px rgbp put s(2)
    by (auto simp: pixel_step_def s(1) write_at_1 even_iff_mod_2_eq_zero counted_def samples_Suc split: if_splits)
qed

lemma frame_fits:
  assumes rgb: "w * h * 3 \<le> length rgb"
  shows "frame_loop put (ix (w * h) 0) yuv rgb w h \<noteq> None \<longleftrightarrow>
    w * h \<le> length yuv \<and> (\<forall>k < half h * half w. fits (length yuv) (w * h) k)"
proof -
  let ?F = "w * h" and ?n = "length yuv"
  let ?I = "counted ?n ?F w"
  let ?J = "\<lambda>i j s. ?I i j s \<and> i * w + j \<le> ?n \<and> (\<forall>k < samples w i j. fits ?n ?F k)"
  have inside: "i * w + j < ?F" if "i < h" "j < w" for i j
    using inside_frame that .
  have enough: "(i * w + j + 1) * 3 \<le> length rgb" if "i < h" "j < w" for i j
    using inside [OF that] rgb by simp
  have total: "samples w h 0 = half h * half w" by (simp add: samples_def half_def)
  have few: "samples w i j < half h * half w" if "i < h" "j < w" "even i" "even j" for i j
    using samples_few that .
  have start: "?I 0 0 (yuv, 0, ix ?F 0)" by (simp add: counted_def)
  show ?thesis
  proof (intro iffI)
    assume "frame_loop put (ix ?F 0) yuv rgb w h \<noteq> None"
    then obtain r where r: "for_loop 0 h (\<lambda>i. for_loop 0 w (pixel_step put rgb w i)) (yuv, 0, ix ?F 0) = Some r"
      by (auto simp: frame_loop_def)
    have step: "?J i (Suc j) s'" if "?J i j s" "i < h" "j < w" "pixel_step put rgb w i j s = Some s'" for i j s s'
    proof -
      have c: "?I i j s" using that by blast
      have "i * w + j < ?n \<and> (even i \<and> even j \<longrightarrow> fits ?n ?F (samples w i j))"
        using pixel_step_counted(1) [OF c enough [OF that(2,3)]] that(4) by auto
      moreover have "?I i (Suc j) s'" using pixel_step_counted(2) [OF c enough [OF that(2,3)] that(4)] .
      ultimately show ?thesis using that(1) by (auto simp: samples_Suc less_Suc_eq)
    qed
    have row: "?J (Suc i) 0 s'" if "?J i 0 s" "i < h" "for_loop 0 w (pixel_step put rgb w i) s = Some s'" for i s s'
    proof -
      have "?J i w s'"
      proof (rule for_loop_partial [where I = "?J i" and i = 0])
        show "?J i 0 s" "for_loop 0 w (pixel_step put rgb w i) s = Some s'" using that by blast+
        show "\<And>j t t'. 0 \<le> j \<Longrightarrow> j < w \<Longrightarrow> ?J i j t \<Longrightarrow> pixel_step put rgb w i j t = Some t' \<Longrightarrow> ?J i (Suc j) t'"
          using step [OF _ that(2)] by blast
      qed simp
      then show ?thesis by (auto simp: counted_def samples_row add.commute)
    qed
    have "?J h 0 r"
      by (rule for_loop_partial [OF _ _ _ r]) (use row start in auto)
    then show "?F \<le> ?n \<and> (\<forall>k < half h * half w. fits ?n ?F k)" using total by (simp add: mult.commute)
  next
    assume f: "?F \<le> ?n \<and> (\<forall>k < half h * half w. fits ?n ?F k)"
    have step: "\<exists>s'. pixel_step put rgb w i j s = Some s' \<and> ?I i (Suc j) s'" if "?I i j s" "i < h" "j < w" for i j s
      using pixel_step_counted [OF that(1) enough [OF that(2,3)]] inside [OF that(2,3)] few [OF that(2,3)] f by fastforce
    have row: "\<exists>s'. for_loop 0 w (pixel_step put rgb w i) s = Some s' \<and> ?I (Suc i) 0 s'" if "?I i 0 s" "i < h" for i s
    proof -
      have "\<exists>s'. for_loop 0 w (pixel_step put rgb w i) s = Some s' \<and> ?I i w s'"
        by (rule for_loop_rule) (use step that in auto)
      then show ?thesis by (auto simp: counted_def samples_row add.commute)
    qed
    have "\<exists>r. for_loop 0 h (\<lambda>i. for_loop 0 w (pixel_step put rgb w i)) (yuv, 0, ix ?F 0) = Some r \<and> ?I h 0 r"
      by (rule for_loop_rule) (use row start in auto)
    then show "frame_loop put (ix ?F 0) yuv rgb w h \<noteq> None" by (auto simp: frame_loop_def)
  qed
qed

end

interpretation planar: chroma_writer put_planar "\<lambda>F k. (F + k, F + F div 4 + k)" "\<lambda>F k. F + k" "\<lambda>F k. F + F div 4 + k"
  by unfold_locales (auto simp: put_planar_def write_at_1)

interpretation interleaved: chroma_writer put_interleaved "\<lambda>F k. F + 2 * k" "\<lambda>F k. F + 2 * k + 1" "\<lambda>F k. F + 2 * k"
  by unfold_locales (auto simp: put_interleaved_def write_at_1 list_update_swap, presburger)

subsection \<open>Properties\<close>

text \<open>
  C21: on a frame with even sides \<open>encodeYUV420sp\<close> stays inside the two buffers and leaves an NV21
  frame: the luma of every pixel in order, then for every block of four pixels the \<open>V\<close> and the
  \<open>U\<close> of its top left one.  (The thermal channel calls it with 320 by 240.)
\<close>

theorem encodeYUV420sp_frame:
  assumes "even w" and "even h" and "w * h * 3 \<le> length rgb" and "w * h * 3 div 2 \<le> length yuv"
  shows "\<exists>b. encodeYUV420sp (Some yuv) (Some rgb) w h = Some (Some b) \<and> length b = length yuv
    \<and> (\<forall>p < w * h. b ! p = y_sample rgb p)
    \<and> (\<forall>k < w * h div 4. b ! (w * h + 2 * k) = v_sample rgb (top_left w k)
         \<and> b ! (w * h + 2 * k + 1) = u_sample rgb (top_left w k))"
proof -
  have "w * h \<le> length yuv" "\<forall>k < w * h div 4. w * h + 2 * k + 1 < length yuv \<and> w * h + 2 * k < length yuv"
    using assms(4) by auto
  from interleaved.frame_drawn [OF assms(1-3) this] show ?thesis by (auto simp: encodeYUV420sp_def)
qed

theorem encodeYUV420sp_frame_witness:
  \<comment> \<open>two by two black pixels\<close>
  "\<exists>b. encodeYUV420sp (Some (replicate 6 0)) (Some (replicate 12 0)) 2 2 = Some (Some b) \<and> length b = 6
    \<and> b ! 0 = 16 \<and> b ! 4 = 128"
proof -
  have "y_sample (replicate 12 0) 0 = 16" "v_sample (replicate 12 0) 0 = 128" "top_left 2 0 = 0"
    by (simp_all add: y_sample_def v_sample_def px_def luma_def chroma_v_def clamp_def top_left_def)
  then show ?thesis using encodeYUV420sp_frame [of 2 2 "replicate 12 0" "replicate 6 0"] by fastforce
qed

text \<open>
  C22: what \<open>rgb_to_yuv420p\<close> needs of its output buffer, exactly: it stores outside it unless there is
  room for the luma plane, a quarter of it, and one sample per block of four pixels, with the blocks
  at an odd edge counted.  Even sides need the usual one and a half bytes per pixel; an odd side needs
  more, and its two chroma planes overlap.
\<close>

theorem rgb_to_yuv420p_room:
  assumes "0 < w" and "0 < h" and "w * h * 3 \<le> length rgb"
  shows "rgb_to_yuv420p (Some yuv) (Some rgb) w h \<noteq> None \<longleftrightarrow>
    w * h + w * h div 4 + ((w + 1) div 2) * ((h + 1) div 2) \<le> length yuv"
proof -
  let ?n = "length yuv" and ?F = "w * h"
  have pos: "0 < half h * half w" using assms by (simp add: half_def)
  have fits: "planar.fits ?n ?F k \<longleftrightarrow> ?F + ?F div 4 + k < ?n" for k by (auto simp: planar.fits_def)
  have "(\<forall>k < half h * half w. planar.fits ?n ?F k) \<longleftrightarrow> ?F + ?F div 4 + half h * half w \<le> ?n"
  proof
    assume "\<forall>k < half h * half w. planar.fits ?n ?F k"
    then have "planar.fits ?n ?F (half h * half w - 1)" using pos by simp
    then show "?F + ?F div 4 + half h * half w \<le> ?n" using pos fits by auto
  next
    assume "?F + ?F div 4 + half h * half w \<le> ?n"
    then show "\<forall>k < half h * half w. planar.fits ?n ?F k" using fits by auto
  qed
  then show ?thesis using planar.frame_fits [OF assms(3), of yuv]
    by (auto simp: rgb_to_yuv420p_def Let_def half_def mult.commute)
qed

theorem rgb_to_yuv420p_room_witness:
  \<comment> \<open>one pixel does not fit into \<open>1 * 1 * 3 / 2\<close> bytes\<close>
  "rgb_to_yuv420p (Some [0]) (Some [0, 0, 0]) 1 1 = None"
  using rgb_to_yuv420p_room [of 1 1 "[0, 0, 0]" "[0]"] by auto

lemma div_range: "l * 256 \<le> x \<Longrightarrow> x < u * 256 + 256 \<Longrightarrow> l \<le> x div 256 \<and> x div 256 \<le> (u :: int)"
  using div_mult_mod_eq [of x 256] pos_mod_bound [of 256 x] pos_mod_sign [of 256 x] by (simp; linarith)

lemma colour_range:
  assumes "0 \<le> R" "R \<le> 255" and "0 \<le> G" "G \<le> 255" and "0 \<le> B" "B \<le> 255"
  shows "luma R G B \<in> {16..235} \<and> chroma_u R G B \<in> {16..240} \<and> chroma_v R G B \<in> {16..240}"
proof -
  have "0 \<le> (66 * R + 129 * G + 25 * B + 128) div 256 \<and> (66 * R + 129 * G + 25 * B + 128) div 256 \<le> 219"
    by (rule div_range) (use assms in linarith)+
  moreover have "- 112 \<le> (- 38 * R - 74 * G + 112 * B + 128) div 256 \<and> (- 38 * R - 74 * G + 112 * B + 128) div 256 \<le> 112"
    by (rule div_range) (use assms in linarith)+
  moreover have "- 112 \<le> (112 * R - 94 * G - 18 * B + 128) div 256 \<and> (112 * R - 94 * G - 18 * B + 128) div 256 \<le> 112"
    by (rule div_range) (use assms in linarith)+
  ultimately show ?thesis by (simp add: luma_def chroma_u_def chroma_v_def drop_bit_eq_div)
qed

text \<open>
  For every colour the samples are in the range of studio video, so the limits the converters
  apply never change a value.
\<close>

lemma samples_in_range:
  "let R = uint (r :: u8); G = uint (g :: u8); B = uint (b :: u8)
   in luma R G B \<in> {16..235} \<and> chroma_u R G B \<in> {16..240} \<and> chroma_v R G B \<in> {16..240}
     \<and> uint (clamp (luma R G B)) = luma R G B \<and> uint (clamp (chroma_u R G B)) = chroma_u R G B
     \<and> uint (clamp (chroma_v R G B)) = chroma_v R G B"
proof -
  have "0 \<le> uint x" "uint x \<le> 255" for x :: u8
    using uint_ge_0 [of x] uint_bounded [of x] by simp_all
  from colour_range [OF this this this, of r g b]
  have "luma (uint r) (uint g) (uint b) \<in> {16..235} \<and> chroma_u (uint r) (uint g) (uint b) \<in> {16..240}
      \<and> chroma_v (uint r) (uint g) (uint b) \<in> {16..240}" .
  moreover have "uint (clamp z) = z" if "0 \<le> z" "z \<le> 255" for z
    using that by (simp add: clamp_def uint_word_of_int)
  ultimately show ?thesis by (simp add: Let_def)
qed

end
