(* ===== verification/Transition.thy ===== *)
theory Transition
  imports CPrelude
begin

text \<open>
  What the concurrent components share: an invariant of a step relation holds in every state a run
  reaches, and a sum over the threads changes with one thread only by that thread's term.
\<close>

locale invariant_of =
  fixes start :: "'s \<Rightarrow> bool" and step :: "'s \<Rightarrow> 's \<Rightarrow> bool" and inv :: "'s \<Rightarrow> bool"
  assumes holds_first: "start s \<Longrightarrow> inv s"
    and preserved: "step s s' \<Longrightarrow> inv s \<Longrightarrow> inv s'"
begin

lemma holds_along: "step\<^sup>*\<^sup>* s s' \<Longrightarrow> inv s \<Longrightarrow> inv s'"
  by (induction rule: rtranclp_induct) (auto intro: preserved)

lemma reachable: "start s0 \<Longrightarrow> step\<^sup>*\<^sup>* s0 s \<Longrightarrow> inv s"
  using holds_along holds_first by blast

end

lemma sum_thread:
  \<comment> \<open>one thread changes its program counter\<close>
  fixes n :: nat
  assumes "t < n"
  shows "(\<Sum>i<n. f ((g(t := p)) i)) + f (g t) = (\<Sum>i<n. f (g i)) + (f p :: nat)"
proof -
  have "(\<Sum>i<n. f ((g(t := p)) i)) = f p + (\<Sum>i \<in> {..<n} - {t}. f ((g(t := p)) i))"
    using assms by (subst sum.remove [of _ t]) auto
  also have "(\<Sum>i \<in> {..<n} - {t}. f ((g(t := p)) i)) = (\<Sum>i \<in> {..<n} - {t}. f (g i))"
    by (intro sum.cong) auto
  finally show ?thesis using assms by (subst (2) sum.remove [of _ t]) auto
qed

lemma sum_thread_pos: "t < (n :: nat) \<Longrightarrow> f (g t) \<le> (\<Sum>i<n. (f (g i) :: nat))"
  by (rule member_le_sum) auto

end
