(* ===== verification/BlockQueue.thy ===== *)
theory BlockQueue
  imports Transition
begin

text \<open>
  The bounded queue of \<open>PCM/pcm.h\<close> through which the MQTT callback hands messages to the consumer
  thread: \<open>PushData\<close> and \<open>PopData\<close> of class \<open>BlockQueue\<close> as steps of any number of threads, with
  the mutex and the two condition variables.  \<open>pthread_cond_signal\<close> wakes a waiting thread, if there
  is one; any thread may also wake up for no reason, as POSIX allows.  Two fields are not in the
  code: \<open>pushed\<close> and \<open>popped\<close> record what went through the queue.
\<close>

subsection \<open>State\<close>

datatype operation = is_Push: Push u32 | Pop

datatype pc =
    Outside
  | Locking operation     \<comment> \<open>before \<open>LockQueue\<close> returns\<close>
  | Testing operation     \<comment> \<open>at the condition of the \<open>while\<close> loop, with the mutex\<close>
  | Waiting operation     \<comment> \<open>in \<open>pthread_cond_wait\<close>\<close>
  | Woken operation       \<comment> \<open>in \<open>pthread_cond_wait\<close>, signalled, without the mutex\<close>
  | Signalling operation  \<comment> \<open>the queue is changed, the other side not told yet\<close>
  | Unlocking operation

record queue =
  q :: "u32 list"
  cap :: nat
  mutex :: "nat option"
  pcs :: "nat \<Rightarrow> pc"
  threads :: nat
  pushed :: "u32 list"
  popped :: "u32 list"

definition NUM :: nat where "NUM = 8"

definition BlockQueue_init :: "nat \<Rightarrow> nat \<Rightarrow> queue" where
  "BlockQueue_init c n = \<lparr>q = [], cap = c, mutex = None, pcs = (\<lambda>_. Outside), threads = n, pushed = [], popped = []\<rparr>"

definition IsEmpty :: "queue \<Rightarrow> bool" where
  "IsEmpty s \<longleftrightarrow> length (q s) = 0"

definition IsFull :: "queue \<Rightarrow> bool" where
  "IsFull s \<longleftrightarrow> length (q s) = cap s"

subsection \<open>Steps\<close>

inductive signalled :: "operation \<Rightarrow> (nat \<Rightarrow> pc) \<Rightarrow> (nat \<Rightarrow> pc) \<Rightarrow> bool" where
  \<comment> \<open>the condition variable of the other side than \<open>op\<close>\<close>
  wakes: "p t = Waiting op' \<Longrightarrow> is_Push op' \<noteq> is_Push op \<Longrightarrow> signalled op p (p(t := Woken op'))"
| nobody: "\<forall>t op'. p t = Waiting op' \<longrightarrow> is_Push op' = is_Push op \<Longrightarrow> signalled op p p"

definition blocked :: "queue \<Rightarrow> operation \<Rightarrow> bool" where
  "blocked s op \<longleftrightarrow> (case op of Push _ \<Rightarrow> IsFull s | Pop \<Rightarrow> IsEmpty s)"

inductive run_step :: "queue \<Rightarrow> queue \<Rightarrow> bool" where
  lock: "pcs s t = Locking op \<Longrightarrow> mutex s = None \<Longrightarrow>
    run_step s (s\<lparr>mutex := Some t, pcs := (pcs s)(t := Testing op)\<rparr>)"
| wait: "pcs s t = Testing op \<Longrightarrow> blocked s op \<Longrightarrow> signalled op (pcs s) p \<Longrightarrow>
    run_step s (s\<lparr>mutex := None, pcs := p(t := Waiting op)\<rparr>)"
| awake: "pcs s t = Woken op \<Longrightarrow> mutex s = None \<Longrightarrow>
    run_step s (s\<lparr>mutex := Some t, pcs := (pcs s)(t := Testing op)\<rparr>)"
| push: "pcs s t = Testing (Push d) \<Longrightarrow> \<not> IsFull s \<Longrightarrow>
    run_step s (s\<lparr>q := q s @ [d], pcs := (pcs s)(t := Signalling (Push d)), pushed := pushed s @ [d]\<rparr>)"
| pop: "pcs s t = Testing Pop \<Longrightarrow> \<not> IsEmpty s \<Longrightarrow>
    run_step s (s\<lparr>q := tl (q s), pcs := (pcs s)(t := Signalling Pop), popped := popped s @ [hd (q s)]\<rparr>)"
| signal: "pcs s t = Signalling op \<Longrightarrow> signalled op (pcs s) p \<Longrightarrow>
    run_step s (s\<lparr>pcs := p(t := Unlocking op)\<rparr>)"
| unlock: "pcs s t = Unlocking op \<Longrightarrow>
    run_step s (s\<lparr>mutex := None, pcs := (pcs s)(t := Outside)\<rparr>)"

inductive queue_step :: "queue \<Rightarrow> queue \<Rightarrow> bool" where
  run: "run_step s s' \<Longrightarrow> queue_step s s'"
| call: "t < threads s \<Longrightarrow> pcs s t = Outside \<Longrightarrow> queue_step s (s\<lparr>pcs := (pcs s)(t := Locking op)\<rparr>)"
| spurious: "pcs s t = Waiting op \<Longrightarrow> queue_step s (s\<lparr>pcs := (pcs s)(t := Woken op)\<rparr>)"

subsection \<open>Invariant\<close>

definition holds_mutex :: "pc \<Rightarrow> bool" where
  "holds_mutex p \<longleftrightarrow> (case p of Testing _ \<Rightarrow> True | Signalling _ \<Rightarrow> True | Unlocking _ \<Rightarrow> True | _ \<Rightarrow> False)"

definition pending :: "bool \<Rightarrow> pc \<Rightarrow> nat" where
  \<comment> \<open>1 for a thread that will look at the queue for side \<open>b\<close>, or will wake one that does\<close>
  "pending b p = (case p of Locking op \<Rightarrow> of_bool (is_Push op = b) | Testing op \<Rightarrow> of_bool (is_Push op = b)
     | Woken op \<Rightarrow> of_bool (is_Push op = b) | Signalling op \<Rightarrow> of_bool (is_Push op \<noteq> b) | _ \<Rightarrow> 0)"

definition room :: "bool \<Rightarrow> queue \<Rightarrow> nat" where
  \<comment> \<open>how many operations of side \<open>b\<close> the queue can take\<close>
  "room b s = (if b then cap s - length (q s) else length (q s))"

definition waiting :: "bool \<Rightarrow> (nat \<Rightarrow> pc) \<Rightarrow> bool" where
  "waiting b p \<longleftrightarrow> (\<exists>t op. p t = Waiting op \<and> is_Push op = b)"

definition pendings :: "bool \<Rightarrow> queue \<Rightarrow> nat" where
  "pendings b s = (\<Sum>t < threads s. pending b (pcs s t))"

definition queue_ok :: "queue \<Rightarrow> bool" where
  "queue_ok s \<longleftrightarrow> length (q s) \<le> cap s \<and> pushed s = popped s @ q s
     \<and> (\<forall>t. pcs s t \<noteq> Outside \<longrightarrow> t < threads s) \<and> (\<forall>t. holds_mutex (pcs s t) \<longleftrightarrow> mutex s = Some t)
     \<and> (\<forall>b. waiting b (pcs s) \<longrightarrow> room b s \<le> pendings b s)"

lemma pending_simps [simp]:
  "pending b Outside = 0" "pending b (Waiting op) = 0" "pending b (Unlocking op) = 0"
  "pending b (Locking op) = of_bool (is_Push op = b)" "pending b (Testing op) = of_bool (is_Push op = b)"
  "pending b (Woken op) = of_bool (is_Push op = b)" "pending b (Signalling op) = of_bool (is_Push op \<noteq> b)"
  by (simp_all add: pending_def)

lemma holds_mutex_simps [simp]:
  "\<not> holds_mutex Outside" "\<not> holds_mutex (Waiting op)" "\<not> holds_mutex (Locking op)" "\<not> holds_mutex (Woken op)"
  "holds_mutex (Testing op)" "holds_mutex (Unlocking op)" "holds_mutex (Signalling op)"
  by (simp_all add: holds_mutex_def)

lemma waiting_update:
  "waiting b (p(t := c)) \<Longrightarrow> waiting b p \<or> (\<exists>op. c = Waiting op \<and> is_Push op = b)"
  by (auto simp: waiting_def split: if_splits)

lemma pendings_update:
  assumes "t < threads s" and "pcs s' = (pcs s)(t := c)" and "threads s' = threads s"
  shows "pendings b s' + pending b (pcs s t) = pendings b s + pending b c"
  using sum_thread [OF assms(1), of "pending b" "pcs s" c] assms(2,3) by (simp add: pendings_def)

lemma queue_ok_kept:
  assumes "queue_ok s" and "length (q s') \<le> cap s'" and "pushed s' = popped s' @ q s'"
    and "\<And>t. pcs s' t \<noteq> Outside \<Longrightarrow> t < threads s'" and "\<And>t. holds_mutex (pcs s' t) \<longleftrightarrow> mutex s' = Some t"
    and "\<And>b. waiting b (pcs s') \<Longrightarrow> room b s' = 0 \<or> waiting b (pcs s) \<and> room b s' + pendings b s \<le> room b s + pendings b s'"
  shows "queue_ok s'"
proof -
  have "room b s' \<le> pendings b s'" if "waiting b (pcs s')" for b
    using assms(6) [OF that] assms(1) by (auto simp: queue_ok_def)
  then show ?thesis using assms(2-5) by (simp add: queue_ok_def)
qed

lemma queue_ok_alone: "queue_ok s \<Longrightarrow> holds_mutex (pcs s t) \<Longrightarrow> holds_mutex (pcs s t') \<Longrightarrow> t = t'"
  by (simp add: queue_ok_def)

lemma blocked_room: "queue_ok s \<Longrightarrow> blocked s op \<longleftrightarrow> room (is_Push op) s = 0"
  by (cases op) (auto simp: blocked_def IsFull_def IsEmpty_def room_def queue_ok_def)

lemma signalled_woken:
  \<comment> \<open>a signal wakes at most one thread, of the other side, and then one more thread is pending there\<close>
  assumes "signalled op (pcs s) p" and "queue_ok s"
  shows "\<exists>s1. pcs s1 = p \<and> threads s1 = threads s \<and> (\<forall>u. (\<forall>op. pcs s u \<noteq> Waiting op) \<longrightarrow> p u = pcs s u)
    \<and> (\<forall>u. holds_mutex (p u) \<longleftrightarrow> holds_mutex (pcs s u)) \<and> (\<forall>u. p u \<noteq> Outside \<longleftrightarrow> pcs s u \<noteq> Outside)
    \<and> (\<forall>b. waiting b p \<longrightarrow> waiting b (pcs s))
    \<and> (\<forall>b. pendings b s \<le> pendings b s1) \<and> (waiting (\<not> is_Push op) (pcs s) \<longrightarrow> pendings (\<not> is_Push op) s1 = Suc (pendings (\<not> is_Push op) s))"
  using assms(1)
proof cases
  case (wakes t op')
  let ?s1 = "s\<lparr>pcs := p\<rparr>"
  have t: "t < threads s" using assms(2) wakes by (auto simp: queue_ok_def)
  have n: "pendings b ?s1 = pendings b s + of_bool (is_Push op' = b)" for b
    using pendings_update [OF t, of ?s1 "Woken op'" b] wakes by simp
  show ?thesis
    by (rule exI [of _ ?s1]) (use wakes n in \<open>auto simp: waiting_def split: if_splits\<close>)
next
  case nobody
  then show ?thesis by (intro exI [of _ s]) (auto simp: waiting_def)
qed

lemma run_step_ok:
  assumes "run_step s s'" and ok: "queue_ok s"
  shows "queue_ok s'"
  using assms(1)
proof cases
  case (lock t op)
  then have t: "t < threads s" using ok by (auto simp: queue_ok_def)
  show ?thesis
    by (rule queue_ok_kept [OF ok]) (use lock ok pendings_update [OF t, of s' "Testing op"] in
      \<open>auto simp: queue_ok_def room_def dest!: waiting_update split: if_splits\<close>)
next
  case (wait t op p)
  then have t: "t < threads s" using ok by (auto simp: queue_ok_def)
  have none: "room (is_Push op) s = 0" using blocked_room [OF ok] wait by simp
  obtain s1 where s1: "pcs s1 = p" "threads s1 = threads s" "\<forall>u. (\<forall>op. pcs s u \<noteq> Waiting op) \<longrightarrow> p u = pcs s u"
      "\<forall>u. holds_mutex (p u) \<longleftrightarrow> holds_mutex (pcs s u)" "\<forall>u. p u \<noteq> Outside \<longleftrightarrow> pcs s u \<noteq> Outside"
      "\<forall>b. waiting b p \<longrightarrow> waiting b (pcs s)" "\<forall>b. pendings b s \<le> pendings b s1"
      "waiting (\<not> is_Push op) (pcs s) \<longrightarrow> pendings (\<not> is_Push op) s1 = Suc (pendings (\<not> is_Push op) s)"
    using signalled_woken [OF wait(4) ok] by blast
  have mx: "mutex s = Some t" "\<forall>u. holds_mutex (pcs s u) \<longleftrightarrow> u = t" using wait(2) ok by (auto simp: queue_ok_def)
  have pt: "p t = Testing op" using s1(3) wait(2) by auto
  have n: "pendings b s' + pending b (Testing op) = pendings b s1" for b
    using pendings_update [of t s1 s' "Waiting op" b] t s1(1,2) pt wait(1) by simp
  show ?thesis
  proof (rule queue_ok_kept [OF ok])
    show "length (q s') \<le> cap s'" "pushed s' = popped s' @ q s'" using wait(1) ok by (auto simp: queue_ok_def)
    show "\<And>u. pcs s' u \<noteq> Outside \<Longrightarrow> u < threads s'" using wait(1) t s1(5) ok by (auto simp: queue_ok_def split: if_splits)
    show "\<And>u. holds_mutex (pcs s' u) \<longleftrightarrow> mutex s' = Some u" using wait(1) s1(4) mx by auto
    show "room b s' = 0 \<or> waiting b (pcs s) \<and> room b s' + pendings b s \<le> room b s + pendings b s'"
      if "waiting b (pcs s')" for b
    proof (cases "b = is_Push op")
      case True
      moreover have "room b s' = room b s" using wait(1) by (simp add: room_def)
      ultimately show ?thesis using none by simp
    next
      case False
      then have "waiting b p" using that wait(1) by (auto dest!: waiting_update)
      moreover have "pendings b s \<le> pendings b s'" using n [of b] s1(7) False by auto
      ultimately show ?thesis using s1(6) wait(1) by (auto simp: room_def)
    qed
  qed
next
  case (awake t op)
  then have t: "t < threads s" using ok by (auto simp: queue_ok_def)
  show ?thesis
    by (rule queue_ok_kept [OF ok]) (use awake ok pendings_update [OF t, of s' "Testing op"] in
      \<open>auto simp: queue_ok_def room_def dest!: waiting_update split: if_splits\<close>)
next
  case (push t d)
  then have t: "t < threads s" using ok by (auto simp: queue_ok_def)
  have n: "pendings b s' + of_bool b = pendings b s + of_bool (\<not> b)" for b
    using pendings_update [OF t, of s' "Signalling (Push d)" b] push by simp
  have w: "waiting b (pcs s') \<Longrightarrow> waiting b (pcs s)" for b using push by (auto dest!: waiting_update)
  have r: "room b s' + of_bool b = room b s + of_bool (\<not> b)" for b
    using push ok by (auto simp: room_def IsFull_def queue_ok_def)
  have "room b s' + pendings b s \<le> room b s + pendings b s'" for b using n [of b] r [of b] by (cases b) auto
  then show ?thesis
    by (intro queue_ok_kept [OF ok]) (use push ok w in \<open>auto simp: queue_ok_def IsFull_def split: if_splits\<close>)
next
  case (pop t)
  then have t: "t < threads s" using ok by (auto simp: queue_ok_def)
  have n: "pendings b s' + of_bool (\<not> b) = pendings b s + of_bool b" for b
    using pendings_update [OF t, of s' "Signalling Pop" b] pop by simp
  have w: "waiting b (pcs s') \<Longrightarrow> waiting b (pcs s)" for b using pop by (auto dest!: waiting_update)
  obtain d r where qs: "q s = d # r" using pop(3) by (cases "q s") (auto simp: IsEmpty_def)
  have r: "room b s' + of_bool (\<not> b) = room b s + of_bool b" for b
    using pop qs ok by (auto simp: room_def queue_ok_def)
  have "room b s' + pendings b s \<le> room b s + pendings b s'" for b using n [of b] r [of b] by (cases b) auto
  then show ?thesis
    by (intro queue_ok_kept [OF ok]) (use pop qs ok w in \<open>auto simp: queue_ok_def split: if_splits\<close>)
next
  case (signal t op p)
  then have t: "t < threads s" using ok by (auto simp: queue_ok_def)
  obtain s1 where s1: "pcs s1 = p" "threads s1 = threads s" "\<forall>u. (\<forall>op. pcs s u \<noteq> Waiting op) \<longrightarrow> p u = pcs s u"
      "\<forall>u. holds_mutex (p u) \<longleftrightarrow> holds_mutex (pcs s u)" "\<forall>u. p u \<noteq> Outside \<longleftrightarrow> pcs s u \<noteq> Outside"
      "\<forall>b. waiting b p \<longrightarrow> waiting b (pcs s)" "\<forall>b. pendings b s \<le> pendings b s1"
      "waiting (\<not> is_Push op) (pcs s) \<longrightarrow> pendings (\<not> is_Push op) s1 = Suc (pendings (\<not> is_Push op) s)"
    using signalled_woken [OF signal(3) ok] by blast
  have mx: "mutex s = Some t" "\<forall>u. holds_mutex (pcs s u) \<longleftrightarrow> u = t" using signal(2) ok by (auto simp: queue_ok_def)
  have pt: "p t = Signalling op" using s1(3) signal(2) by auto
  have n: "pendings b s' + of_bool (b \<noteq> is_Push op) = pendings b s1" for b
    using pendings_update [of t s1 s' "Unlocking op" b] t s1(1,2) pt signal(1) by (auto split: if_splits)
  show ?thesis
  proof (rule queue_ok_kept [OF ok])
    show "length (q s') \<le> cap s'" "pushed s' = popped s' @ q s'" using signal(1) ok by (auto simp: queue_ok_def)
    show "\<And>u. pcs s' u \<noteq> Outside \<Longrightarrow> u < threads s'" using signal(1) t s1(5) ok by (auto simp: queue_ok_def split: if_splits)
    show "\<And>u. holds_mutex (pcs s' u) \<longleftrightarrow> mutex s' = Some u" using signal(1) s1(4) mx by auto
    show "room b s' = 0 \<or> waiting b (pcs s) \<and> room b s' + pendings b s \<le> room b s + pendings b s'"
      if "waiting b (pcs s')" for b
    proof -
      have w: "waiting b (pcs s)" using that signal(1) s1(6) by (auto dest!: waiting_update)
      then have "pendings b s \<le> pendings b s'" using n [of b] s1(7,8) by (cases "b = is_Push op") auto
      moreover have "room b s' = room b s" using signal(1) by (simp add: room_def)
      ultimately show ?thesis using w by simp
    qed
  qed
next
  case (unlock t op)
  then have t: "t < threads s" using ok by (auto simp: queue_ok_def)
  show ?thesis
    by (rule queue_ok_kept [OF ok]) (use unlock ok pendings_update [OF t, of s' Outside] in
      \<open>auto simp: queue_ok_def room_def dest!: waiting_update split: if_splits\<close>)
qed

lemma queue_step_ok: "queue_step s s' \<Longrightarrow> queue_ok s \<Longrightarrow> queue_ok s'"
proof (induction rule: queue_step.induct)
  case (run s s')
  then show ?case using run_step_ok by blast
next
  case (call t s op)
  have free: "mutex s \<noteq> Some t" using call(2,3) holds_mutex_simps(1) unfolding queue_ok_def by metis
  show ?case
    by (rule queue_ok_kept [OF call(3)]) (use free call pendings_update [OF call(1), of "s\<lparr>pcs := (pcs s)(t := Locking op)\<rparr>" "Locking op"] in
      \<open>auto simp: queue_ok_def room_def dest!: waiting_update split: if_splits\<close>)
next
  case (spurious s t op)
  then have t: "t < threads s" by (auto simp: queue_ok_def)
  have free: "mutex s \<noteq> Some t" using spurious holds_mutex_simps(2) unfolding queue_ok_def by metis
  show ?case
    by (rule queue_ok_kept [OF spurious(2)]) (use free spurious pendings_update [OF t, of "s\<lparr>pcs := (pcs s)(t := Woken op)\<rparr>" "Woken op"] in
      \<open>auto simp: queue_ok_def room_def dest!: waiting_update split: if_splits\<close>)
qed

interpretation queue: invariant_of "\<lambda>s. \<exists>c n. s = BlockQueue_init c n" queue_step queue_ok
proof unfold_locales
  show "\<exists>c n. s = BlockQueue_init c n \<Longrightarrow> queue_ok s" for s
    by (auto simp: queue_ok_def BlockQueue_init_def waiting_def)
qed (rule queue_step_ok)

definition used :: "nat \<Rightarrow> nat \<Rightarrow> queue \<Rightarrow> bool" where
  \<comment> \<open>a queue for \<open>c\<close> messages, after any history of \<open>n\<close> threads\<close>
  "used c n s \<longleftrightarrow> queue_step\<^sup>*\<^sup>* (BlockQueue_init c n) s"

lemma used_ok: "used c n s \<Longrightarrow> queue_ok s"
  unfolding used_def by (rule queue.reachable) auto

lemma used_params: "used c n s \<Longrightarrow> cap s = c \<and> threads s = n"
  unfolding used_def
proof (induction rule: rtranclp_induct)
  case base
  then show ?case by (simp add: BlockQueue_init_def)
next
  case (step s s')
  then show ?case by (auto elim!: queue_step.cases run_step.cases)
qed

lemma signalled_ex: "\<exists>p'. signalled op p p'"
  by (cases "\<exists>t op'. p t = Waiting op' \<and> is_Push op' \<noteq> is_Push op") (auto intro: signalled.intros)

lemma holder_moves:
  \<comment> \<open>a thread that has the mutex is never stuck\<close>
  assumes "holds_mutex (pcs s t)"
  shows "\<exists>s'. run_step s s'"
proof (cases "pcs s t")
  case (Testing op)
  show ?thesis
  proof (cases "blocked s op")
    case True
    then show ?thesis using signalled_ex wait [OF Testing] by blast
  next
    case False
    then show ?thesis using Testing push [of s t] pop [of s t] by (cases op) (simp_all add: blocked_def, blast+)
  qed
next
  case (Signalling op)
  then show ?thesis using signalled_ex signal by blast
next
  case (Unlocking op)
  then show ?thesis using unlock by blast
qed (use assms in auto)

lemma stuck_waits:
  \<comment> \<open>no thread can move on: everyone in a call waits, and has a reason to\<close>
  assumes ok: "queue_ok s" and stuck: "\<not> (\<exists>s'. run_step s s')" and "pcs s t \<noteq> Outside"
  shows "\<exists>op. pcs s t = Waiting op \<and> blocked s op"
proof -
  have "\<not> holds_mutex (pcs s u)" for u using holder_moves stuck by blast
  then have "mutex s = None" using ok by (cases "mutex s") (auto simp: queue_ok_def)
  then have calm: "pcs s u = Outside \<or> (\<exists>op. pcs s u = Waiting op)" for u
    using stuck holder_moves [of s u] lock [of s u] awake [of s u] by (cases "pcs s u") auto
  have "pending b (pcs s u) = 0" for b u using calm [of u] by auto
  then have "pendings b s = 0" for b by (simp add: pendings_def)
  then have none: "waiting b (pcs s) \<Longrightarrow> room b s = 0" for b using ok by (auto simp: queue_ok_def)
  obtain op where op: "pcs s t = Waiting op" using calm [of t] assms(3) by auto
  then have "room (is_Push op) s = 0" by (intro none) (auto simp: waiting_def)
  then show ?thesis using op blocked_room [OF ok] by blast
qed

subsection \<open>Properties\<close>

text \<open>
  C23: whatever any number of threads do, the queue never holds more than its capacity, two threads
  never work on it at the same time, and what was popped is exactly the first part of what was
  pushed, in order: no message is lost, doubled or overtaken.
\<close>

theorem BlockQueue_fifo:
  assumes "used c n s"
  shows "length (q s) \<le> c \<and> pushed s = popped s @ q s
    \<and> {t. holds_mutex (pcs s t)} = set_option (mutex s)"
  using used_ok [OF assms] used_params [OF assms] by (auto simp: queue_ok_def)

definition demo_run :: "queue list" where
  \<comment> \<open>a queue for one message: thread 0 pushes 7 and thread 1, with 8, finds the queue full\<close>
  "demo_run =
     (let s0 = BlockQueue_init 1 2;
          s1 = s0\<lparr>pcs := (pcs s0)(0 := Locking (Push 7))\<rparr>;
          s2 = s1\<lparr>mutex := Some 0, pcs := (pcs s1)(0 := Testing (Push 7))\<rparr>;
          s3 = s2\<lparr>q := [7], pcs := (pcs s2)(0 := Signalling (Push 7)), pushed := [7]\<rparr>;
          s4 = s3\<lparr>pcs := (pcs s3)(0 := Unlocking (Push 7))\<rparr>;
          s5 = s4\<lparr>mutex := None, pcs := (pcs s4)(0 := Outside)\<rparr>;
          s6 = s5\<lparr>pcs := (pcs s5)(1 := Locking (Push 8))\<rparr>;
          s7 = s6\<lparr>mutex := Some 1, pcs := (pcs s6)(1 := Testing (Push 8))\<rparr>;
          s8 = s7\<lparr>mutex := None, pcs := (pcs s7)(1 := Waiting (Push 8))\<rparr>
      in [s0, s1, s2, s3, s4, s5, s6, s7, s8])"

lemma demo_steps: "i < 8 \<Longrightarrow> queue_step (demo_run ! i) (demo_run ! Suc i)"
proof -
  have quiet: "signalled op p p" if "\<forall>t op'. p t \<noteq> Waiting op'" for op p using that by (auto intro: nobody)
  assume "i < 8"
  then consider "i = 0" | "i = 1" | "i = 2" | "i = 3" | "i = 4" | "i = 5" | "i = 6" | "i = 7" by linarith
  then show ?thesis
  proof cases
    case 1
    then show ?thesis using call [of 0 "demo_run ! 0" "Push 7"] by (simp add: demo_run_def Let_def BlockQueue_init_def)
  next
    case 2
    then show ?thesis using queue_step.run [OF lock [of "demo_run ! 1" 0 "Push 7"]] by (simp add: demo_run_def Let_def BlockQueue_init_def)
  next
    case 3
    then show ?thesis using queue_step.run [OF push [of "demo_run ! 2" 0 7]]
      by (simp add: demo_run_def Let_def BlockQueue_init_def IsFull_def)
  next
    case 4
    then show ?thesis using queue_step.run [OF signal [of "demo_run ! 3" 0 "Push 7" "pcs (demo_run ! 3)"]] quiet
      by (simp add: demo_run_def Let_def BlockQueue_init_def)
  next
    case 5
    then show ?thesis using queue_step.run [OF unlock [of "demo_run ! 4" 0 "Push 7"]] by (simp add: demo_run_def Let_def BlockQueue_init_def)
  next
    case 6
    then show ?thesis using call [of 1 "demo_run ! 5" "Push 8"] by (simp add: demo_run_def Let_def BlockQueue_init_def)
  next
    case 7
    then show ?thesis using queue_step.run [OF lock [of "demo_run ! 6" 1 "Push 8"]] by (simp add: demo_run_def Let_def BlockQueue_init_def)
  next
    case 8
    then show ?thesis using queue_step.run [OF wait [of "demo_run ! 7" 1 "Push 8" "pcs (demo_run ! 7)"]] quiet
      by (simp add: demo_run_def Let_def BlockQueue_init_def blocked_def IsFull_def)
  qed
qed

lemma demo_used: "i \<le> 8 \<Longrightarrow> used 1 2 (demo_run ! i)"
proof (induction i)
  case 0
  then show ?case by (simp add: used_def demo_run_def Let_def)
next
  case (Suc i)
  then show ?case using demo_steps [of i] unfolding used_def by (auto intro: rtranclp.rtrancl_into_rtrancl)
qed

text \<open>
  C24: no wake-up is lost and no deadlock is possible: as long as the queue has room for at least one
  message, either some thread inside a call can move on, or everyone inside waits for the same thing
  and with reason, in \<open>PushData\<close> for a full queue or in \<open>PopData\<close> for an empty one.
\<close>

theorem BlockQueue_progress:
  assumes "used c n s" and "0 < c"
  shows "(\<exists>s'. run_step s s')
    \<or> (\<forall>t. pcs s t = Outside \<or> (\<exists>d. pcs s t = Waiting (Push d)) \<and> IsFull s)
    \<or> (\<forall>t. pcs s t = Outside \<or> pcs s t = Waiting Pop \<and> IsEmpty s)"
proof (cases "\<exists>s'. run_step s s'")
  case False
  have w: "pcs s t = Outside \<or> (\<exists>op. pcs s t = Waiting op \<and> blocked s op)" for t
    using stuck_waits [OF used_ok [OF assms(1)] False] by blast
  have "\<not> (IsFull s \<and> IsEmpty s)" using used_params [OF assms(1)] assms(2) by (auto simp: IsFull_def IsEmpty_def)
  then have v: "pcs s t = Outside \<or> (\<exists>d. pcs s t = Waiting (Push d)) \<and> IsFull s \<or> pcs s t = Waiting Pop \<and> IsEmpty s \<and> \<not> IsFull s" for t
  proof (cases "pcs s t = Outside")
    case False
    then obtain op where "pcs s t = Waiting op" "blocked s op" using w by blast
    then show ?thesis using \<open>\<not> (IsFull s \<and> IsEmpty s)\<close> by (cases op) (auto simp: blocked_def)
  qed simp
  show ?thesis
  proof (cases "IsFull s")
    case True
    then show ?thesis using v by blast
  next
    case False
    then show ?thesis using v by blast
  qed
qed simp

theorem BlockQueue_fifo_witness:
  "length (q (demo_run ! 8)) \<le> 1 \<and> pushed (demo_run ! 8) = popped (demo_run ! 8) @ q (demo_run ! 8)
    \<and> {t. holds_mutex (pcs (demo_run ! 8) t)} = set_option (mutex (demo_run ! 8))"
  by (rule BlockQueue_fifo [OF demo_used]) simp

theorem BlockQueue_progress_witness:
  \<comment> \<open>at the end of the run thread 1 waits for room\<close>
  "(\<exists>s'. run_step (demo_run ! 8) s')
    \<or> (\<forall>t. pcs (demo_run ! 8) t = Outside \<or> (\<exists>d. pcs (demo_run ! 8) t = Waiting (Push d)) \<and> IsFull (demo_run ! 8))
    \<or> (\<forall>t. pcs (demo_run ! 8) t = Outside \<or> pcs (demo_run ! 8) t = Waiting Pop \<and> IsEmpty (demo_run ! 8))"
  by (rule BlockQueue_progress [OF demo_used]) simp_all

end
