(* ===== verification/JsonObject.thy ===== *)
theory JsonObject
  imports JsonCompare
begin

text \<open>
  Objects built member by member, as JSON values: the locale \<open>json_maker\<close> extends the contract of a
  constructor with what can be read afterwards, and its lemmas say which value an object has after a
  \<open>cJSON_Add..ToObject\<close> call, also when the object is itself a member.
\<close>

unbundle bit_operations_syntax

subsection \<open>Frames\<close>

lemma viewed_frame:
  assumes "\<And>q. c_text h q \<noteq> None \<Longrightarrow> texts h' q = texts h q"
  shows "viewed h t \<Longrightarrow> (\<And>p. p \<in> set (tree_items t) \<Longrightarrow> load h' p = load h p) \<Longrightarrow> viewed h' t \<and> shape h' t = shape h t"
proof (induction t)
  case (Tree p n ts)
  have kid: "viewed h' t \<and> shape h' t = shape h t" if "t \<in> set ts" for t
    using Tree that by (intro Tree.IH) auto
  have same: "c_text h' q = c_text h q" "text_at h' q = text_at h q" if "q \<in> {valuestring_ptr n, string_ptr n}" "q \<noteq> NULL" for q
    using Tree.prems(1) that assms [of q] by (auto simp: c_text_def text_at_def)
  have "text_at h' q = text_at h q" if "q \<in> {valuestring_ptr n, string_ptr n}" for q
    using same [OF that] by (cases "q = NULL") simp_all
  then show ?case using Tree.prems kid same by auto
qed

lemma c_text_below: "wf_heap h \<Longrightarrow> c_text h q \<noteq> None \<Longrightarrow> q < brk h"
  by (rule ccontr) (simp add: wf_heap_def c_text_def)

lemma load_below: "wf_heap h \<Longrightarrow> load h p \<noteq> None \<Longrightarrow> p < brk h"
  by (rule ccontr) (simp add: wf_heap_def load_def)

lemma wf_heap_NULL: "wf_heap h \<Longrightarrow> items h NULL = None"
  by (simp add: wf_heap_def)

lemma viewed_below: "wf_heap h \<Longrightarrow> viewed h t \<Longrightarrow> p \<in> set (tree_items t) \<Longrightarrow> p < brk h"
  by (induction t) (auto dest: load_below)

subsection \<open>Owned objects\<close>

lemma c_text_texts: "c_text h q \<noteq> None \<Longrightarrow> texts h q \<noteq> None"
  by (cases "texts h q") (auto simp: c_text_def)

fun unflagged :: "tree \<Rightarrow> bool" where
  \<comment> \<open>neither references nor constant names\<close>
  "unflagged (Tree p n ts) \<longleftrightarrow> \<not> n_reference n \<and> \<not> n_const_key n \<and> (\<forall>t \<in> set ts. unflagged t)"

lemma stored_viewed: "viewed h t \<Longrightarrow> unflagged t \<Longrightarrow> stored h t"
proof (induction t)
  case (Tree p n ts)
  have "texts h q \<noteq> None" if "q \<in> set (own_texts n)" for q
    using Tree.prems(1) that by (intro c_text_texts) (auto simp: own_texts_def split: if_splits)
  then show ?case using Tree by auto
qed

definition owns :: "heap \<Rightarrow> tree \<Rightarrow> bool" where
  "owns h t \<longleftrightarrow> viewed h t \<and> unflagged t \<and> separate t \<and> children h (root t) (map root (kids t)) \<and> next_ptr (tnode t) = NULL"

lemma tree_texts_below: "wf_heap h \<Longrightarrow> viewed h t \<Longrightarrow> q \<in> set (tree_texts t) \<Longrightarrow> q < brk h \<and> q \<noteq> NULL"
  by (induction t) (auto simp: own_texts_def split: if_splits dest: c_text_below)

lemma h_delete_owned:
  "owns h t \<Longrightarrow> h_delete (root t) h = Some (erase (set (tree_items t)) (set (tree_texts t)) h)"
  by (intro h_delete_tree stored_viewed) (simp_all add: owns_def)

fun add_child :: "cJSON \<Rightarrow> cJSON \<Rightarrow> cJSON" where
  "add_child (CJ ty vs vi vd s c) u = CJ ty vs vi vd s (c @ [u])"

definition reroot :: "heap \<Rightarrow> tree \<Rightarrow> tree" where
  \<comment> \<open>the tree with its root as it is stored now\<close>
  "reroot h t = Tree (root t) (the (load h (root t))) (kids t)"

lemma reroot_sel [simp]: "root (reroot h t) = root t" "kids (reroot h t) = kids t" "tnode (reroot h t) = the (load h (root t))"
  by (simp_all add: reroot_def)

lemma in_chain_dseg: "dseg h e (map root ts) NULL \<Longrightarrow> \<forall>t \<in> set ts. load h (root t) = Some (tnode t) \<Longrightarrow> in_chain ts"
proof (induction ts arbitrary: e)
  case (Cons t ts)
  then show ?case by auto
qed simp

lemma distinct_concat_once:
  "distinct (concat (map f xs)) \<Longrightarrow> x \<in> set xs \<Longrightarrow> y \<in> set xs \<Longrightarrow> p \<in> set (f x) \<Longrightarrow> p \<in> set (f y) \<Longrightarrow> x = y"
  by (induction xs) auto

lemma unlinked_eq:
  assumes "unlinked n' = unlinked n"
  shows "own_texts n' = own_texts n" "n_reference n' = n_reference n" "n_const_key n' = n_const_key n"
    "child_ptr n' = child_ptr n" "ntype n' = ntype n" "valuestring_ptr n' = valuestring_ptr n"
    "string_ptr n' = string_ptr n" "nvalueint n' = nvalueint n" "nvaluedouble n' = nvaluedouble n"
proof -
  have eq: "f (unlinked n') = f (unlinked n)" for f :: "node \<Rightarrow> 'x" using assms by simp
  show "own_texts n' = own_texts n" "child_ptr n' = child_ptr n" "n_reference n' = n_reference n"
    using eq [of own_texts] eq [of child_ptr] eq [of n_reference] by simp_all
  show "n_const_key n' = n_const_key n" "ntype n' = ntype n" "valuestring_ptr n' = valuestring_ptr n"
    "string_ptr n' = string_ptr n" "nvalueint n' = nvalueint n" "nvaluedouble n' = nvaluedouble n"
    using eq [of n_const_key] eq [of ntype] eq [of valuestring_ptr] eq [of string_ptr] eq [of nvalueint] eq [of nvaluedouble]
    by (simp_all add: unlinked_def n_const_key_def)
qed

lemma relinked_kid:
  \<comment> \<open>a member of the object, or the item that is added to it, after the list has been relinked\<close>
  assumes r: "relinks h h' a A" and v: "viewed h u" and off: "root u \<noteq> a" "set (all_items (kids u)) \<inter> insert a A = {}"
  shows "viewed h' (reroot h' u)" "shape h' (reroot h' u) = shape h u" "load h' (root u) = Some (tnode (reroot h' u))"
    "unflagged (reroot h' u) = unflagged u" "tree_items (reroot h' u) = tree_items u" "tree_texts (reroot h' u) = tree_texts u"
proof -
  obtain q n cs where u: "u = Tree q n cs" by (cases u)
  have l: "load h q = Some n" using v u by simp
  then obtain n' where n': "load h' q = Some n'" "unlinked n' = unlinked n"
    using relinks_load(1) [OF r, of q] off(1) u by (cases "load h' q") auto
  note eq = unlinked_eq [OF n'(2)]
  have tx: "texts h' = texts h" by (rule relinks_same(1) [OF r])
  then have ta: "text_at h' = text_at h" "c_text h' = c_text h" by (simp_all add: fun_eq_iff text_at_def c_text_def)
  have kid: "viewed h' c \<and> shape h' c = shape h c" if c: "c \<in> set cs" for c
  proof (rule viewed_frame)
    show "viewed h c" using v u c by auto
    show "load h' p = load h p" if "p \<in> set (tree_items c)" for p
    proof (rule relinks_load(2) [OF r])
      show "p \<noteq> a" "p \<notin> A" using off(2) that c u by auto
    qed
  qed (simp add: tx)
  show "viewed h' (reroot h' u)" using v u n' eq kid ta by (auto simp: reroot_def)
  show "shape h' (reroot h' u) = shape h u" using u n' eq kid ta by (auto simp: reroot_def)
  show "load h' (root u) = Some (tnode (reroot h' u))" using u n' by simp
  show "unflagged (reroot h' u) = unflagged u" "tree_items (reroot h' u) = tree_items u" "tree_texts (reroot h' u) = tree_texts u"
    using u n' eq by (auto simp: reroot_def)
qed

lemma owns_link:
  \<comment> \<open>adding an item with all it owns to an object\<close>
  assumes t: "owns h t" and u: "owns h u" and d: "set (tree_items t) \<inter> set (tree_items u) = {}"
    "set (tree_texts t) \<inter> set (tree_texts u) = {}"
  shows "\<exists>h' t'. add_item_to_array (root t) (root u) h = Some (True, h') \<and> owns h' t' \<and> root t' = root t
    \<and> shape h' t' = add_child (shape h t) (shape h u)
    \<and> set (tree_items t') = set (tree_items t) \<union> set (tree_items u)
    \<and> set (tree_texts t') = set (tree_texts t) \<union> set (tree_texts u)
    \<and> kids t' = map (reroot h') (kids t @ [u])
    \<and> relinks h h' (root t) (insert (root u) (set (map root (kids t))))"
proof -
  obtain a n ts where a: "t = Tree a n ts" by (cases t)
  let ?A = "insert (root u) (set (map root ts))"
  have ch: "children h a (map root ts)" "next_ptr n = NULL" "viewed h t" "separate t" "unflagged t" using t a by (auto simp: owns_def)
  have uu: "viewed h u" "separate u" "unflagged u" "next_ptr (tnode u) = NULL" using u by (auto simp: owns_def)
  have ru: "root u \<notin> insert a (set (map root ts))"
  proof -
    have "insert a (set (map root ts)) \<subseteq> set (tree_items t)" using a root_in_items by fastforce
    then show ?thesis using d(1) root_in_items [of u] by blast
  qed
  have "loose h a (map root ts) (root u)" using ru uu viewed_load(1) [OF uu(1)] by (auto simp: loose_def)
  from add_item_children [OF ch(1) this] obtain h' where
    h': "add_item_to_array a (root u) h = Some (True, h')" "children h' a (map root ts @ [root u])"
      "relinks h h' a (insert (root u) (set (map root ts)))" by blast
  have dist: "distinct (a # all_items ts)" using ch(4) a by (simp add: separate_def)
  have split: "x = y" if "x \<in> set ts" "y \<in> set ts" "p \<in> set (tree_items x)" "p \<in> set (tree_items y)" for x y p
    using distinct_concat_once [of tree_items ts] dist that by simp
  have dk: "distinct (map root ts)" using ch(1) by (auto simp: children_def spelled_def)
  have off: "set (all_items (kids v)) \<inter> insert a ?A = {}" "root v \<noteq> a" if v: "v \<in> set (ts @ [u])" for v
  proof -
    have sep: "distinct (tree_items v)" using v dist uu(2) by (auto simp: separate_def distinct_concat_iff)
    have own: "root v \<notin> set (all_items (kids v))" using sep by (cases v) auto
    have sub: "set (all_items (kids v)) \<subseteq> set (tree_items v)" by (cases v) auto
    have "w = v" if "w \<in> set (ts @ [u])" "root w \<in> set (tree_items v)" for w
    proof (cases "w = u \<or> v = u")
      case True
      then show ?thesis using that v d(1) a root_in_items [of w] by fastforce
    next
      case False
      then show ?thesis using that v split [of w v "root w"] root_in_items [of w] by auto
    qed
    moreover have "a \<notin> set (tree_items v)" using v dist d(1) a by auto
    ultimately show "set (all_items (kids v)) \<inter> insert a ?A = {}" using own sub by fastforce
    show "root v \<noteq> a" using \<open>a \<notin> set (tree_items v)\<close> root_in_items [of v] by metis
  qed
  let ?ts = "map (reroot h') (ts @ [u])"
  have kv: "viewed h v" "unflagged v" if "v \<in> set (ts @ [u])" for v using that a ch(3,5) uu by auto
  note kid = relinked_kid [OF h'(3) kv(1) off(2) off(1)]
  obtain n' where n': "load h' a = Some n'" "set_kid NULL n' = set_kid NULL n"
    using relinks_array [OF h'(3)] ch(3) a by (cases "load h' a") auto
  then have eq: "own_texts n' = own_texts n" "n_reference n' = n_reference n" "n_const_key n' = n_const_key n" "ntype n' = ntype n"
    "valuestring_ptr n' = valuestring_ptr n" "string_ptr n' = string_ptr n" "nvalueint n' = nvalueint n" "nvaluedouble n' = nvaluedouble n"
    "next_ptr n' = next_ptr n"
    by (cases n; cases n'; simp add: set_kid_def own_texts_def n_reference_def n_const_key_def)+
  let ?t = "Tree a n' ?ts"
  have roots: "map root ?ts = map root ts @ [root u]" by (simp add: comp_def)
  have tx: "texts h' = texts h" by (rule relinks_same(1) [OF h'(3)])
  then have ta: "text_at h' = text_at h" "c_text h' = c_text h" by (simp_all add: fun_eq_iff text_at_def c_text_def)
  have "in_chain ?ts"
  proof -
    obtain e where "dseg h' e (map root ts @ [root u]) NULL" using h'(2) unfolding children_def spelled_def by blast
    then have "dseg h' e (map root ?ts) NULL" unfolding roots .
    moreover have "\<forall>v \<in> set ?ts. load h' (root v) = Some (tnode v)" using kid(3) by auto
    ultimately show ?thesis by (rule in_chain_dseg)
  qed
  moreover have "child_ptr n' = first_or NULL (map root ?ts)"
    unfolding roots using h'(2) n'(1) unfolding children_def spelled_def by auto
  moreover have "\<forall>v \<in> set ?ts. viewed h' v" using kid(1) by auto
  ultimately have view: "viewed h' ?t" using n'(1) eq ch(3) a ta by auto
  have items: "tree_items ?t = tree_items t @ tree_items u"
  proof -
    have all: "map tree_items ?ts = map tree_items (ts @ [u])" using kid(5) by simp
    show ?thesis unfolding a tree_items.simps all by simp
  qed
  have txs: "tree_texts ?t = tree_texts t @ tree_texts u"
  proof -
    have all: "map tree_texts ?ts = map tree_texts (ts @ [u])" using kid(6) by simp
    show ?thesis unfolding a tree_texts.simps all eq by simp
  qed
  have uf: "unflagged ?t" using kid(4) kv(2) eq ch(5) a by auto
  have sep: "separate ?t" unfolding separate_def items txs using ch(4) uu(2) d by (auto simp: separate_def)
  have shp: "shape h' ?t = add_child (shape h t) (shape h u)"
  proof -
    have all: "map (shape h') ?ts = map (shape h) (ts @ [u])" using kid(2) by simp
    show ?thesis unfolding a shape.simps all add_child.simps eq ta by simp
  qed
  have "children h' (root ?t) (map root (kids ?t))" unfolding tree.sel roots by (rule h'(2))
  then have "owns h' ?t" unfolding owns_def using view uf sep ch(2) eq(9) by (intro conjI) simp_all
  moreover have "set (tree_items ?t) = set (tree_items t) \<union> set (tree_items u)"
    "set (tree_texts ?t) = set (tree_texts t) \<union> set (tree_texts u)" unfolding items txs by simp_all
  ultimately show ?thesis using h'(1,3) shp a by (intro exI [of _ h'] exI [of _ ?t]) simp
qed

lemma relinks_grown:
  assumes "relinks h h' a A"
  shows "wf_heap h' \<longleftrightarrow> wf_heap h" and "h_ok h' = h_ok h"
proof -
  have o: "outline a A h' = outline a A h" using assms by (simp add: relinks_def)
  have "items h' p = None \<longleftrightarrow> items h p = None" for p
    using arg_cong [OF o, of "\<lambda>h. items h p = None"] by simp
  then show "wf_heap h' \<longleftrightarrow> wf_heap h" using relinks_same [OF assms] by (simp add: wf_heap_def)
  show "h_ok h' = h_ok h" using arg_cong [OF o, of h_ok] by (simp add: outline_def)
qed

lemma owns_frame:
  assumes "owns h t" and "\<And>p. p \<in> set (tree_items t) \<Longrightarrow> load h' p = load h p"
    and "\<And>q. c_text h q \<noteq> None \<Longrightarrow> texts h' q = texts h q"
  shows "owns h' t" "shape h' t = shape h t"
proof -
  have v: "viewed h' t" "shape h' t = shape h t" using viewed_frame [OF assms(3) _ assms(2)] assms(1) by (auto simp: owns_def)
  have "insert (root t) (set (map root (kids t))) \<subseteq> set (tree_items t)"
    using root_in_items by (cases t) fastforce
  then have "children h' (root t) (map root (kids t)) = children h (root t) (map root (kids t))"
    using assms(2) by (intro children_cong) auto
  then show "owns h' t" "shape h' t = shape h t" using assms(1) v by (simp_all add: owns_def)
qed

definition kept :: "heap \<Rightarrow> heap \<Rightarrow> ptr set \<Rightarrow> bool" where
  \<comment> \<open>of what \<open>h\<close> holds, only the items \<open>I\<close> may have changed\<close>
  "kept h h' I \<longleftrightarrow> grown h h' \<and> (\<forall>p. p < brk h \<longrightarrow> p \<notin> I \<longrightarrow> items h' p = items h p) \<and> (\<forall>q. q < brk h \<longrightarrow> texts h' q = texts h q)"

definition changed :: "heap \<Rightarrow> heap \<Rightarrow> ptr set \<Rightarrow> ptr set \<Rightarrow> bool" where
  \<comment> \<open>nothing but the items \<open>I\<close> and the character blocks \<open>T\<close> is new or different\<close>
  "changed h h' I T \<longleftrightarrow> (\<forall>p. p \<notin> I \<longrightarrow> items h' p = items h p) \<and> (\<forall>q. q \<notin> T \<longrightarrow> texts h' q = texts h q)"

lemma changed_trans:
  "changed h h1 I T \<Longrightarrow> changed h1 h2 J U \<Longrightarrow> I \<subseteq> J \<Longrightarrow> T \<subseteq> U \<Longrightarrow> changed h h2 J U"
  unfolding changed_def by (metis subsetD)

lemma changed_mono: "changed h h' I T \<Longrightarrow> I \<subseteq> J \<Longrightarrow> T \<subseteq> U \<Longrightarrow> changed h h' J U"
  by (auto simp: changed_def)

lemma kept_load: "kept h h' I \<Longrightarrow> p < brk h \<Longrightarrow> p \<notin> I \<Longrightarrow> load h' p = load h p"
  by (simp add: kept_def load_def)

lemma kept_texts: "wf_heap h \<Longrightarrow> kept h h' I \<Longrightarrow> c_text h q \<noteq> None \<Longrightarrow> texts h' q = texts h q"
  using c_text_below by (simp add: kept_def)

lemma kept_c_text: "wf_heap h \<Longrightarrow> kept h h' I \<Longrightarrow> c_text h q \<noteq> None \<Longrightarrow> c_text h' q = c_text h q"
  using kept_texts by (simp add: c_text_def)

lemma kept_trans: "kept h h1 I \<Longrightarrow> kept h1 h2 J \<Longrightarrow> (\<And>p. p \<in> J \<Longrightarrow> p < brk h \<Longrightarrow> p \<in> I) \<Longrightarrow> kept h h2 I"
  unfolding kept_def grown_def by (metis order.strict_trans2 order.trans)

lemma kept_mono: "kept h h' I \<Longrightarrow> I \<subseteq> J \<Longrightarrow> kept h h' J"
  by (auto simp: kept_def)

lemma kept_owns:
  assumes "wf_heap h" and "kept h h' I" and "owns h t" and "set (tree_items t) \<inter> I = {}"
  shows "owns h' t" "shape h' t = shape h t"
proof -
  have "load h' p = load h p" if "p \<in> set (tree_items t)" for p
    using kept_load [OF assms(2)] viewed_below [OF assms(1) _ that] assms(3,4) that by (auto simp: owns_def)
  then show "owns h' t" "shape h' t = shape h t"
    using owns_frame [OF assms(3) _ kept_texts [OF assms(1,2)]] by blast+
qed

subsection \<open>Adding a member\<close>

lemma plain_type: "(ty :: u32) AND b = 0 \<Longrightarrow> ty AND NOT b = ty"
proof (rule bit_word_eqI)
  assume z: "ty AND b = 0"
  fix k assume "k < LENGTH(32)"
  then show "bit (ty AND NOT b) k \<longleftrightarrow> bit ty k"
    using arg_cong [OF z, of "\<lambda>w. bit w k"] by (auto simp: bit_simps)
qed

lemma owns_name:
  assumes w: "wf_heap h" and t: "owns h t" and u: "owns h u" and d: "set (tree_items t) \<inter> set (tree_items u) = {}"
    "set (tree_texts t) \<inter> set (tree_texts u) = {}"
    and sn: "string_ptr (tnode u) = NULL" and name: "makes_string h name" and ok: "\<forall>k. h_ok h k"
  shows "\<exists>h' t'. add_item_to_object (root t) name (root u) False h = Some (True, h') \<and> owns h' t' \<and> root t' = root t
    \<and> shape h' t' = add_child (shape h t) (set_string (c_text h name) (shape h u))
    \<and> set (tree_items t') = set (tree_items t) \<union> set (tree_items u)
    \<and> set (tree_texts t') = insert (brk h) (set (tree_texts t) \<union> set (tree_texts u))
    \<and> (\<exists>v. kids t' = map (reroot h') (kids t) @ [v] \<and> root v = root u \<and> kids v = kids u)
    \<and> kept h h' (set (tree_items t) \<union> set (tree_items u)) \<and> changed h h' (set (tree_items t')) (set (tree_texts t'))
    \<and> brk h' = Suc (brk h)"
proof -
  obtain s where s: "c_text h name = Some s" "name \<noteq> NULL" using name by (auto simp: makes_string_def)
  obtain p n cs where p: "u = Tree p n cs" by (cases u)
  have ld: "load h p = Some n" and nn: "string_ptr n = NULL" "\<not> n_const_key n" "\<not> n_reference n"
    using u p sn by (auto simp: owns_def)
  have nz: "root t \<noteq> NULL" using t viewed_load(2) by (auto simp: owns_def)
  show ?thesis
  proof (cases rule: strdup_cases [OF w s(2,1)])
    case (1 h')
    then show ?thesis using ok by simp
  next
    case (2 h2)
    let ?f = "fresh_key_node (brk h) (ntype n AND NOT cJSON_StringIsConst)"
    let ?h3 = "upd p ?f h2"
    have ld2: "load h2 q = load h q" for q using 2(3) load_items_cong by metis
    have pt: "p \<notin> set (tree_items t)" using d(1) p by auto
    have tx: "texts ?h3 q = texts h q" if "q < brk h" for q using 2(4) that by simp
    have k3: "kept h ?h3 {p}" unfolding kept_def
      using 2(3,4,6) by (auto simp: grown_def upd_def wf_heap_def)
    have t3: "owns ?h3 t" "shape ?h3 t = shape h t" using kept_owns [OF w k3 t] pt by simp_all
    have ty: "ntype n AND NOT cJSON_StringIsConst = ntype n" using nn(2) by (intro plain_type) (simp add: n_const_key_def)
    let ?u = "Tree p (?f n) cs"
    have sep: "distinct (tree_items u)" "distinct (tree_texts u)" using u by (auto simp: owns_def separate_def)
    have uv: "viewed h u" "unflagged u" "children h p (map root cs)" "next_ptr n = NULL" using u p by (auto simp: owns_def)
    have cs: "viewed ?h3 c \<and> shape ?h3 c = shape h c" if c: "c \<in> set cs" for c
    proof (rule viewed_frame [OF kept_texts [OF w k3]])
      show "viewed h c" using uv(1) p c by auto
      show "load ?h3 q = load h q" if "q \<in> set (tree_items c)" for q
        using sep(1) that c p ld2 by auto
    qed
    have b: "c_text ?h3 (brk h) = Some s" "text_at ?h3 (brk h) = Some s"
    proof -
      have "c_string s" using s(1) by (rule c_text_c_string)
      then show "c_text ?h3 (brk h) = Some s" using 2(4) by (simp add: c_text_def c_strlen_append)
      then show "text_at ?h3 (brk h) = Some s" using 2(2) text_at_c_text by simp
    qed
    have fs: "next_ptr (?f n) = NULL" "child_ptr (?f n) = child_ptr n" "ntype (?f n) = ntype n" "string_ptr (?f n) = brk h"
      "valuestring_ptr (?f n) = valuestring_ptr n" "nvalueint (?f n) = nvalueint n" "nvaluedouble (?f n) = nvaluedouble n"
      "n_reference (?f n) = n_reference n" "n_const_key (?f n) = n_const_key n"
      using uv(4) ty by (simp_all add: fresh_key_node_def n_reference_def n_const_key_def)
    have vt: "c_text ?h3 q = c_text h q \<and> text_at ?h3 q = text_at h q" if "q = valuestring_ptr n" "q \<noteq> NULL" for q
    proof -
      have "c_text h q \<noteq> None" using uv(1) p that by auto
      from kept_texts [OF w k3 this] show ?thesis by (simp add: c_text_def text_at_def)
    qed
    have vs: "text_at ?h3 (valuestring_ptr n) = text_at h (valuestring_ptr n)"
      using vt by (cases "valuestring_ptr n = NULL") auto
    have u3v: "viewed ?h3 ?u" using uv(1) p cs b vt fs ld ld2 by auto
    have own: "own_texts (?f n) = own_texts n @ [brk h]"
      using nn fs 2(2) by (simp add: own_texts_def)
    have below: "\<forall>q \<in> set (tree_texts u) \<union> set (tree_texts t). q < brk h"
      using tree_texts_below [OF w uv(1)] tree_texts_below [OF w, of t] t by (auto simp: owns_def)
    have "separate ?u" using sep below p own by (auto simp: separate_def)
    moreover have "unflagged ?u" using uv(2) p fs by simp
    moreover have "children ?h3 p (map root cs)"
    proof -
      have "load ?h3 q = load h q" if "q \<in> set (map root cs)" for q
        using that sep(1) p ld2 root_in_items by fastforce
      then have "dseg ?h3 e (map root cs) NULL = dseg h e (map root cs) NULL" for e by (intro dseg_cong)
      then show ?thesis using uv(3) ld ld2 fs by (auto simp: children_def spelled_def)
    qed
    ultimately have u3: "owns ?h3 ?u" using u3v fs by (simp add: owns_def)
    have i: "tree_items ?u = tree_items u" "set (tree_texts ?u) = insert (brk h) (set (tree_texts u))" using p own by auto
    have shp: "shape ?h3 ?u = set_string (Some s) (shape h u)" using p cs b vs fs by simp
    have dd: "set (tree_items t) \<inter> set (tree_items ?u) = {}" using d(1) i(1) by simp
    have "set (tree_texts t) \<inter> set (tree_texts ?u) = {}" using d(2) i below by auto
    from owns_link [OF t3(1) u3 dd this] obtain h' t' where
      r: "add_item_to_array (root t) (root ?u) ?h3 = Some (True, h')" "owns h' t'" "root t' = root t"
        "shape h' t' = add_child (shape ?h3 t) (shape ?h3 ?u)" "set (tree_items t') = set (tree_items t) \<union> set (tree_items ?u)"
        "set (tree_texts t') = set (tree_texts t) \<union> set (tree_texts ?u)"
        "kids t' = map (reroot h') (kids t @ [?u])" "relinks ?h3 h' (root t) (insert (root ?u) (set (map root (kids t))))" by blast
    have same: "items h' q = items ?h3 q" if "q \<notin> set (tree_items t) \<union> set (tree_items u)" for q
    proof -
      have "insert (root t) (insert (root ?u) (set (map root (kids t)))) \<subseteq> set (tree_items t) \<union> set (tree_items u)"
        using root_in_items p by (cases t) fastforce
      then have "load h' q = load ?h3 q" using relinks_load(2) [OF r(8), of q] that by auto
      moreover have "items h' NULL = items ?h3 NULL"
        using wf_heap_NULL [of ?h3] wf_heap_NULL [of h'] relinks_grown(1) [OF r(8)] k3 unfolding kept_def grown_def by metis
      ultimately show ?thesis unfolding load_def by metis
    qed
    have k: "kept ?h3 h' (set (tree_items t) \<union> set (tree_items u))"
      using same relinks_same(1,2) [OF r(8)] relinks_grown [OF r(8)] k3 by (auto simp: kept_def grown_def)
    have "changed h h' (set (tree_items t')) (set (tree_texts t'))"
    proof -
      have "items h' q = items h q" if "q \<notin> set (tree_items t')" for q
        using same [of q] that p unfolding r(5) i(1) by (simp add: upd_def 2(3))
      moreover have "texts h' q = texts h q" if "q \<notin> set (tree_texts t')" for q
        using relinks_same(1) [OF r(8)] that unfolding r(6) i(2) by (simp add: 2(4))
      ultimately show ?thesis by (simp add: changed_def)
    qed
    moreover have "kept h h' (set (tree_items t) \<union> set (tree_items u))"
      using p by (intro kept_trans [OF kept_mono [OF k3] k]) auto
    moreover have "add_item_to_object (root t) name p False h = Some (True, h')"
      using add_to_object_new [OF ld nn(1) s(2) nz 2(1)] ld ld2 2(2) r(1) by simp
    moreover have "brk h' = Suc (brk h)" using relinks_same(2) [OF r(8)] 2(5) by simp
    moreover have "set (tree_items t') = set (tree_items t) \<union> set (tree_items u)"
      "set (tree_texts t') = insert (brk h) (set (tree_texts t) \<union> set (tree_texts u))"
      unfolding r(5,6) i by auto
    moreover have "shape h' t' = add_child (shape h t) (set_string (c_text h name) (shape h u))" using r(4) t3(2) shp s(1) by simp
    moreover have "kids t' = map (reroot h') (kids t) @ [reroot h' ?u] \<and> root (reroot h' ?u) = root u \<and> kids (reroot h' ?u) = kids u"
      using r(7) p by simp
    moreover have "root u = p" using p by simp
    ultimately show ?thesis using r(2,3) by metis
  qed
qed

subsection \<open>Constructors\<close>

locale json_maker = item_maker +
  assumes readable: "wf_heap h \<Longrightarrow> fit h x \<Longrightarrow> create x h = Some (p, h') \<Longrightarrow> p \<noteq> NULL \<Longrightarrow>
    viewed h' (leaf h' p) \<and> unflagged (leaf h' p)"

context json_maker begin

lemma owns_new:
  assumes w: "wf_heap h" and x: "fit h x" and ok: "\<forall>k. h_ok h k"
  shows "\<exists>p h'. create x h = Some (p, h') \<and> p \<noteq> NULL \<and> brk h \<le> p \<and> owns h' (leaf h' p) \<and> shape h' (leaf h' p) = val h x
    \<and> (\<forall>q \<in> set (tree_texts (leaf h' p)). brk h \<le> q) \<and> string_ptr (the (load h' p)) = NULL \<and> kept h h' {}
    \<and> changed h h' (set (tree_items (leaf h' p))) (set (tree_texts (leaf h' p)))"
proof -
  obtain p h' n where c: "create x h = Some (p, h')" "grown h h'" "p \<noteq> NULL" and m: "made h h' p n" "shape h' (Tree p n []) = val h x"
    using creates [OF w x] ok by (auto split: if_splits)
  have l: "load h' p = Some n" using load_made [OF m(1) w] by simp
  note r = readable [OF w x c(1,3)]
  have "owns h' (leaf h' p)"
    using r l m(1) by (auto simp: owns_def separate_def made_def children_def spelled_def)
  moreover have "kept h h' {}"
  proof -
    have "texts h' q = texts h q" if "q < brk h" for q using made_old [OF m(1) that] .
    then show ?thesis using c(2) m(1) by (simp add: kept_def made_def)
  qed
  moreover have "changed h h' (set (tree_items (leaf h' p))) (set (tree_texts (leaf h' p)))"
    using m(1) l by (simp add: changed_def made_def)
  ultimately show ?thesis using c m l by (intro exI [of _ p] exI [of _ h']) (auto simp: made_def)
qed

lemma owns_add:
  \<comment> \<open>the object gets a member with the given name and the value of the constructor\<close>
  assumes w: "wf_heap h" and t: "owns h t" and x: "fit h x" and name: "makes_string h name" and ok: "\<forall>k. h_ok h k"
  shows "\<exists>p h' t'. do { r \<leftarrow> create x h; add_or_delete (root t) name r } = Some (p, h') \<and> owns h' t' \<and> root t' = root t
    \<and> shape h' t' = add_child (shape h t) (set_string (c_text h name) (val h x))
    \<and> set (tree_items t) \<subseteq> set (tree_items t') \<and> (\<forall>p \<in> set (tree_items t'). p \<in> set (tree_items t) \<or> brk h \<le> p)
    \<and> set (tree_texts t) \<subseteq> set (tree_texts t') \<and> (\<forall>q \<in> set (tree_texts t'). q \<in> set (tree_texts t) \<or> brk h \<le> q)
    \<and> kept h h' (set (tree_items t)) \<and> changed h h' (set (tree_items t')) (set (tree_texts t'))"
proof -
  obtain p h1 where c: "create x h = Some (p, h1)" "p \<noteq> NULL" "brk h \<le> p" "owns h1 (leaf h1 p)" "shape h1 (leaf h1 p) = val h x"
    "\<forall>q \<in> set (tree_texts (leaf h1 p)). brk h \<le> q" "string_ptr (the (load h1 p)) = NULL" "kept h h1 {}"
    "changed h h1 (set (tree_items (leaf h1 p))) (set (tree_texts (leaf h1 p)))"
    using owns_new [OF w x ok] by blast
  have w1: "wf_heap h1" "brk h \<le> brk h1" "\<forall>k. h_ok h1 k" using c(8) ok by (auto simp: kept_def grown_def)
  have t1: "owns h1 t" "shape h1 t = shape h t" using kept_owns [OF w c(8) t] by simp_all
  have tv: "viewed h t" using t by (simp add: owns_def)
  have n1: "makes_string h1 name" "c_text h1 name = c_text h name"
    using name kept_c_text [OF w c(8)] by (auto simp: makes_string_def)
  have "set (tree_items t) \<inter> set (tree_items (leaf h1 p)) = {}" using viewed_below [OF w tv] c(3) by fastforce
  moreover have "set (tree_texts t) \<inter> set (tree_texts (leaf h1 p)) = {}" using tree_texts_below [OF w tv] c(6) by fastforce
  ultimately obtain h' t' where r: "add_item_to_object (root t) name p False h1 = Some (True, h')" "owns h' t'" "root t' = root t"
      "shape h' t' = add_child (shape h1 t) (set_string (c_text h1 name) (shape h1 (leaf h1 p)))"
      "set (tree_items t') = set (tree_items t) \<union> set (tree_items (leaf h1 p))"
      "set (tree_texts t') = insert (brk h1) (set (tree_texts t) \<union> set (tree_texts (leaf h1 p)))"
      "kept h1 h' (set (tree_items t) \<union> set (tree_items (leaf h1 p)))"
      "changed h1 h' (set (tree_items t')) (set (tree_texts t'))"
    using owns_name [OF w1(1) t1(1) c(4) _ _ _ n1(1) w1(3)] c(7) by auto
  have "kept h h' (set (tree_items t))"
    using c(3) by (intro kept_trans [OF kept_mono [OF c(8)] r(7)]) auto
  moreover have "do { r \<leftarrow> create x h; add_or_delete (root t) name r } = Some (p, h')"
    using c(1) r(1) by (simp add: add_or_delete_def)
  moreover have "shape h' t' = add_child (shape h t) (set_string (c_text h name) (val h x))"
    using r(4) unfolding t1(2) n1(2) c(5) .
  moreover have "changed h h' (set (tree_items t')) (set (tree_texts t'))"
    using c(9) r(8) by (rule changed_trans) (use r(5,6) in auto)
  ultimately show ?thesis using r(2,3,5,6) c(3,6) w1(2)
    by (intro exI [of _ p] exI [of _ h'] exI [of _ t']) auto
qed

end

lemma CreateNumber_readable:
  assumes "wf_heap h" and "cJSON_CreateNumber d h = (p, h')" and "p \<noteq> NULL"
  shows "viewed h' (leaf h' p) \<and> unflagged (leaf h' p)"
proof (cases rule: create_item_cases [OF assms(1), of "\<lambda>n. n\<lparr>ntype := cJSON_Number, nvaluedouble := d, nvalueint := saturate d\<rparr>"])
  case (1 h2)
  then show ?thesis using assms(2,3) by (simp add: cJSON_CreateNumber_def)
next
  case (2 h2)
  then show ?thesis using assms(2)
    by (simp add: cJSON_CreateNumber_def load_def zero_node_def n_reference_def n_const_key_def cJSON_types)
qed

lemma CreateString_readable:
  assumes w: "wf_heap h" and x: "makes_string h x" and c: "cJSON_CreateString x h = Some (p, h')" "p \<noteq> NULL"
  shows "viewed h' (leaf h' p) \<and> unflagged (leaf h' p)"
proof -
  let ?f = "\<lambda>n. n\<lparr>ntype := cJSON_String\<rparr>"
  obtain s where s: "c_text h x = Some s" "x \<noteq> NULL" using x by (auto simp: makes_string_def)
  have cs: "c_string s" using s(1) by (rule c_text_c_string)
  show ?thesis
  proof (cases rule: create_item_cases [OF w, of ?f])
    case (1 h1)
    then show ?thesis using c by (simp add: cJSON_CreateString_def create_text_def)
  next
    case (2 h1)
    note i1 = 2
    have w1: "wf_heap h1" using 2(7) by (simp add: grown_def)
    have s1: "c_text h1 x = Some s" using s(1) 2(4) by (simp add: c_text_def)
    have ld: "load h1 (brk h) = Some (?f zero_node)" using 2(2,3) by (simp add: load_def)
    show ?thesis
    proof (cases rule: strdup_cases [OF w1 s(2) s1])
      case (1 h2)
      then have "load h2 (brk h) = load h1 (brk h)" by (intro load_items_cong) (simp add: same_objects_def)
      then have "load h2 (brk h) \<noteq> None" using ld by simp
      then show ?thesis using c 1(1) i1(1,2)
        by (auto simp: cJSON_CreateString_def create_text_def store_def split: bind_splits)
    next
      case (2 h2)
      have ld2: "load h2 (brk h) = Some (?f zero_node)" using ld 2(3) unfolding load_def by metis
      then have "p = brk h" "h' = upd (brk h) (\<lambda>n. n\<lparr>valuestring_ptr := brk h1\<rparr>) h2"
        using c i1(1,2) 2(1,2) by (auto simp: cJSON_CreateString_def create_text_def store_def)
      moreover have "c_text (upd (brk h) (\<lambda>n. n\<lparr>valuestring_ptr := brk h1\<rparr>) h2) (brk h1) = Some s"
        using 2(4) cs by (simp add: c_text_def c_strlen_append)
      ultimately show ?thesis using ld2
        by (simp add: zero_node_def n_reference_def n_const_key_def cJSON_types)
    qed
  qed
qed

interpretation number_member: json_maker "\<lambda>k h. Some (cJSON_CreateNumber (f k) h)" "\<lambda>h k. True" "\<lambda>h k. number_item (f k)" for f :: "'a \<Rightarrow> double"
  by unfold_locales (use CreateNumber_readable in auto)

interpretation string_member: json_maker cJSON_CreateString makes_string "\<lambda>h x. string_item (the (c_text h x))"
  by unfold_locales (use CreateString_readable in blast)

definition empty_object :: cJSON where
  "empty_object = CJ cJSON_Object None 0 d_zero None []"

lemma CreateObject_owns:
  assumes w: "wf_heap h" and ok: "\<forall>k. h_ok h k"
  shows "\<exists>h'. cJSON_CreateObject h = (brk h, h') \<and> brk h \<noteq> NULL \<and> owns h' (leaf h' (brk h)) \<and> kept h h' {} \<and> brk h' = Suc (brk h)
    \<and> shape h' (leaf h' (brk h)) = empty_object \<and> tree_texts (leaf h' (brk h)) = [] \<and> string_ptr (the (load h' (brk h))) = NULL
    \<and> changed h h' {brk h} {}"
proof (cases rule: create_item_cases [OF w, of "\<lambda>n. n\<lparr>ntype := cJSON_Object\<rparr>"])
  case (1 h2)
  then show ?thesis using ok by simp
next
  case (2 h2)
  then show ?thesis
    by (intro exI [of _ h2]) (auto simp: cJSON_CreateObject_def kept_def changed_def owns_def load_def zero_node_def n_reference_def n_const_key_def
      cJSON_types separate_def own_texts_def children_def spelled_def empty_object_def)
qed

subsection \<open>Objects in objects\<close>

definition whole :: "heap \<Rightarrow> tree \<Rightarrow> bool" where
  \<comment> \<open>an item that can be printed and deleted\<close>
  "whole h t \<longleftrightarrow> viewed h t \<and> unflagged t \<and> separate t \<and> next_ptr (tnode t) = NULL"

lemma owns_whole: "owns h t \<Longrightarrow> whole h t"
  by (simp add: owns_def whole_def)

lemma h_delete_whole:
  "whole h t \<Longrightarrow> h_delete (root t) h = Some (erase (set (tree_items t)) (set (tree_texts t)) h)"
  by (intro h_delete_tree stored_viewed) (simp_all add: whole_def)

lemma in_chain_end: "in_chain (ts @ [v]) \<Longrightarrow> next_ptr (tnode v) = NULL"
  by (induction ts) auto

lemma in_chain_last: "in_chain (ts @ [v]) \<longleftrightarrow> in_chain (ts @ [u]) \<and> next_ptr (tnode v) = NULL"
  if "root v = root u" and "next_ptr (tnode u) = NULL"
  using that by (induction ts) (auto simp: map_append [symmetric] simp del: map_append, (simp add: that)+)

lemma owns_last:
  assumes "owns h t" and "kids t = ts @ [v]" and "kids v = []"
  shows "owns h v"
proof -
  obtain a n where t: "t = Tree a n (ts @ [v])" using assms(2) by (cases t) auto
  obtain p m where v: "v = Tree p m []" using assms(3) by (cases v) auto
  have "next_ptr m = NULL" using assms(1) t v in_chain_end [of ts v] by (simp add: owns_def)
  then show ?thesis using assms(1) t v by (auto simp: owns_def separate_def children_def spelled_def)
qed

lemma whole_last:
  \<comment> \<open>after the last member has grown\<close>
  assumes w: "wf_heap h" and t: "owns h (Tree a n (ts @ [v]))" and d: "owns h' d" "root d = root v"
    and i: "\<forall>p \<in> set (tree_items d). p \<in> set (tree_items v) \<or> brk h \<le> p"
    and x: "\<forall>q \<in> set (tree_texts d). q \<in> set (tree_texts v) \<or> brk h \<le> q"
    and k: "kept h h' (set (tree_items v))"
  shows "whole h' (Tree a n (ts @ [d])) \<and> shape h' (Tree a n (ts @ [d])) =
    (case shape h (Tree a n ts) of CJ ty vs vi vd s c \<Rightarrow> CJ ty vs vi vd s (c @ [shape h' d]))"
proof -
  let ?t = "Tree a n (ts @ [v])"
  have tv: "viewed h ?t" "unflagged ?t" "separate ?t" "next_ptr n = NULL" using t by (simp_all add: owns_def)
  have sep: "distinct (a # all_items ts @ tree_items v)" "distinct (own_texts n @ all_texts ts @ tree_texts v)"
    using tv(3) by (simp_all add: separate_def)
  have bi: "p < brk h" if "p \<in> insert a (set (all_items ts))" for p
    using viewed_below [OF w tv(1), of p] that by auto
  have bx: "q < brk h" if "q \<in> set (own_texts n @ all_texts ts)" for q
    using tree_texts_below [OF w tv(1), of q] that by auto
  have la: "load h' a = Some n"
    using kept_load [OF k, of a] bi [of a] sep(1) tv(1) by auto
  have kid: "viewed h' c \<and> shape h' c = shape h c" if c: "c \<in> set ts" for c
  proof (rule viewed_frame [OF kept_texts [OF w k]])
    show "viewed h c" using tv(1) c by auto
    show "load h' p = load h p" if "p \<in> set (tree_items c)" for p
      using kept_load [OF k, of p] bi [of p] sep(1) c that by auto
  qed
  have tx: "c_text h' q = c_text h q \<and> text_at h' q = text_at h q" if "q \<in> {valuestring_ptr n, string_ptr n}" "q \<noteq> NULL" for q
  proof -
    have "c_text h q \<noteq> None" using tv(1) that by auto
    from kept_texts [OF w k this] show ?thesis by (simp add: c_text_def text_at_def)
  qed
  have ta: "text_at h' q = text_at h q" if "q \<in> {valuestring_ptr n, string_ptr n}" for q
    using tx [OF that] by (cases "q = NULL") simp_all
  have dn: "next_ptr (tnode d) = NULL" "viewed h' d" "unflagged d" "separate d" using d by (auto simp: owns_def)
  have vn: "next_ptr (tnode v) = NULL" using tv(1) by (intro in_chain_end [of ts]) simp
  have "in_chain (ts @ [d])" using in_chain_last [OF d(2) vn] dn(1) tv(1) by simp
  then have "viewed h' (Tree a n (ts @ [d]))" using tv(1) la kid tx dn(2) d(2) by auto
  moreover have "unflagged (Tree a n (ts @ [d]))" using tv(2) dn(3) by auto
  moreover have "separate (Tree a n (ts @ [d]))"
  proof -
    have "set (a # all_items ts) \<inter> set (tree_items d) = {}" using i bi sep(1) by fastforce
    moreover have "set (own_texts n @ all_texts ts) \<inter> set (tree_texts d) = {}" using x bx sep(2) by fastforce
    ultimately show ?thesis using sep dn(4) by (auto simp: separate_def)
  qed
  moreover have "map (shape h') ts = map (shape h) ts" using kid by simp
  ultimately show ?thesis using tv(4) ta by (simp add: whole_def)
qed

end
