(* ===== verification/JsonPlace.thy ===== *)
theory JsonPlace
  imports JsonObject JsonPrintSafe
begin

text \<open>
  The parser and the printer on the store: \<open>cJSON_Print\<close> of the item at a pointer, read through its
  pointers, and \<open>cJSON_Parse\<close> with the parsed item put at fresh addresses, linked the way the parser
  links it.
\<close>

subsection \<open>Reading an item off the store\<close>

definition text_field :: "heap \<Rightarrow> ptr \<Rightarrow> bytes option option" where
  "text_field h q = (if q = NULL then Some None else map_option Some (c_text h q))"

partial_function (option) chain_at :: "heap \<Rightarrow> ptr \<Rightarrow> cJSON list option" where
  \<comment> \<open>the items of a list, read through its pointers\<close>
  "chain_at h p =
     (if p = NULL then Some []
      else do {
        n \<leftarrow> load h p;
        vs \<leftarrow> text_field h (valuestring_ptr n);
        s \<leftarrow> text_field h (string_ptr n);
        c \<leftarrow> chain_at h (child_ptr n);
        rest \<leftarrow> chain_at h (next_ptr n);
        Some (CJ (ntype n) vs (nvalueint n) (nvaluedouble n) s c # rest) })"

definition item_at :: "heap \<Rightarrow> ptr \<Rightarrow> cJSON option" where
  "item_at h p = do {
     n \<leftarrow> load h p;
     vs \<leftarrow> text_field h (valuestring_ptr n);
     s \<leftarrow> text_field h (string_ptr n);
     c \<leftarrow> chain_at h (child_ptr n);
     Some (CJ (ntype n) vs (nvalueint n) (nvaluedouble n) s c) }"

lemma text_field_viewed:
  "viewed h (Tree p n ts) \<Longrightarrow> q \<in> {valuestring_ptr n, string_ptr n} \<Longrightarrow> text_field h q = Some (text_at h q)"
  using text_at_text [of q h] by (auto simp: text_field_def)

lemma chain_at_viewed:
  "in_chain ts \<Longrightarrow> \<forall>t \<in> set ts. viewed h t \<Longrightarrow> chain_at h (first_or NULL (map root ts)) = Some (map (shape h) ts)"
proof (induction ts rule: measure_induct_rule [of "size_list size"])
  case (less ts)
  show ?case
  proof (cases ts)
    case Nil
    then show ?thesis by (subst chain_at.simps) simp
  next
    case (Cons t rest)
    obtain p n cs where t: "t = Tree p n cs" by (cases t)
    have v: "viewed h t" using less.prems Cons by simp
    have "chain_at h (first_or NULL (map root cs)) = Some (map (shape h) cs)"
      using v t by (intro less.IH) (auto simp: Cons)
    moreover have "chain_at h (first_or NULL (map root rest)) = Some (map (shape h) rest)"
      using less.prems by (intro less.IH) (auto simp: Cons)
    ultimately show ?thesis
      using v less.prems(1) text_field_viewed [OF v [unfolded t]] load_neq_NULL unfolding Cons t
      by (subst chain_at.simps) auto
  qed
qed

lemma item_at_viewed:
  assumes "viewed h t"
  shows "item_at h (root t) = Some (shape h t)"
proof -
  obtain p n cs where t: "t = Tree p n cs" by (cases t)
  have "chain_at h (child_ptr n) = Some (map (shape h) cs)" using assms chain_at_viewed [of cs h] t by simp
  then show ?thesis using assms text_field_viewed [OF assms [unfolded t]] by (simp add: item_at_def t)
qed

subsection \<open>Putting a parsed item into the store\<close>

definition put_text :: "bytes option \<Rightarrow> heap \<Rightarrow> ptr \<times> heap" where
  "put_text s h =
     (case s of None \<Rightarrow> (NULL, h)
      | Some x \<Rightarrow> (brk h, h\<lparr>texts := (texts h)(brk h \<mapsto> x @ [0]), brk := Suc (brk h)\<rparr>))"

fun place_chain :: "cJSON list \<Rightarrow> ptr \<Rightarrow> heap \<Rightarrow> ptr \<times> heap" where
  \<comment> \<open>a list of items behind \<open>prev\<close>; its first address\<close>
  "place_chain [] prev h = (NULL, h)"
| "place_chain (CJ ty vs vi vd s c # ts) prev h =
     (let p = brk h
      in case put_text vs (h\<lparr>brk := Suc (brk h)\<rparr>) of (v, h) \<Rightarrow>
         case put_text s h of (k, h) \<Rightarrow>
         case place_chain c NULL h of (child, h) \<Rightarrow>
         case place_chain ts p h of (nxt, h) \<Rightarrow>
           (p, h\<lparr>items := (items h)(p \<mapsto> \<lparr>next_ptr = nxt, prev_ptr = prev, child_ptr = child, ntype = ty,
                valuestring_ptr = v, nvalueint = vi, nvaluedouble = vd, string_ptr = k\<rparr>)\<rparr>))"

definition placed :: "heap \<Rightarrow> heap \<Rightarrow> ptr set \<Rightarrow> ptr set \<Rightarrow> bool" where
  \<comment> \<open>\<open>h'\<close> is \<open>h\<close> with new items \<open>I\<close> and new character blocks \<open>T\<close>\<close>
  "placed h h' I T \<longleftrightarrow> grown h h' \<and> (\<forall>p. p \<notin> I \<longrightarrow> items h' p = items h p) \<and> (\<forall>q. q \<notin> T \<longrightarrow> texts h' q = texts h q)
     \<and> (\<forall>p \<in> I \<union> T. brk h \<le> p \<and> p < brk h')"

lemma placed_refl: "wf_heap h \<Longrightarrow> placed h h {} {}"
  by (simp add: placed_def grown_def)

lemma placed_trans:
  assumes "placed h h1 I T" and "placed h1 h2 J U"
  shows "placed h h2 (I \<union> J) (T \<union> U)"
proof -
  have b: "brk h \<le> brk h1" "brk h1 \<le> brk h2" using assms by (auto simp: placed_def grown_def)
  have "brk h \<le> p \<and> p < brk h2" if "p \<in> (I \<union> J) \<union> (T \<union> U)" for p
  proof (cases "p \<in> I \<union> T")
    case True
    then have "brk h \<le> p" "p < brk h1" using assms(1) by (auto simp: placed_def)
    then show ?thesis using b by simp
  next
    case False
    then have "brk h1 \<le> p" "p < brk h2" using that assms(2) by (auto simp: placed_def)
    then show ?thesis using b by simp
  qed
  moreover have "grown h h2" using assms b by (simp add: placed_def grown_def)
  ultimately show ?thesis using assms by (simp add: placed_def)
qed

lemma put_text_placed:
  assumes "wf_heap h" and "case s of None \<Rightarrow> True | Some x \<Rightarrow> c_string x"
  shows "\<exists>q h'. put_text s h = (q, h') \<and> placed h h' {} (if q = NULL then {} else {q}) \<and> text_at h' q = s
    \<and> (q \<noteq> NULL \<longrightarrow> c_text h' q \<noteq> None)"
proof (cases s)
  case None
  then show ?thesis using placed_refl [OF assms(1)] by (simp add: put_text_def)
next
  case (Some x)
  let ?h = "h\<lparr>texts := (texts h)(brk h \<mapsto> x @ [0]), brk := Suc (brk h)\<rparr>"
  have nz: "brk h \<noteq> NULL" using assms(1) by (simp add: wf_heap_def)
  have "c_text ?h (brk h) = Some x" using assms(2) Some by (simp add: c_text_def c_strlen_append)
  then have "text_at ?h (brk h) = Some x" "c_text ?h (brk h) \<noteq> None" using text_at_c_text [OF _ nz] by auto
  moreover have "placed h ?h {} {brk h}" using assms(1) by (auto simp: placed_def grown_def wf_heap_def)
  ultimately show ?thesis using nz Some by (simp add: put_text_def)
qed

fun parsed :: "cJSON \<Rightarrow> bool" where
  \<comment> \<open>proper strings, no flags\<close>
  "parsed (CJ ty vs vi vd s c) \<longleftrightarrow> ty AND cJSON_IsReference = 0 \<and> ty AND cJSON_StringIsConst = 0
     \<and> (case vs of None \<Rightarrow> True | Some x \<Rightarrow> c_string x) \<and> (case s of None \<Rightarrow> True | Some x \<Rightarrow> c_string x) \<and> list_all parsed c"

lemma valid_parsed: "valid t \<Longrightarrow> parsed t"
proof (induction t)
  case (CJ ty vs vi vd s c)
  have "ty \<in> {cJSON_False, cJSON_True, cJSON_NULL, cJSON_Number, cJSON_String, cJSON_Array, cJSON_Object}"
    using CJ.prems by (auto split: if_splits)
  note plain_types [OF this]
  then show ?case using CJ by (auto simp: list_all_iff split: if_splits option.splits)
qed

lemma placed_old: "placed h h' I T \<Longrightarrow> p < brk h \<Longrightarrow> items h' p = items h p \<and> texts h' p = texts h p"
  unfolding placed_def by (metis UnI1 UnI2 not_less)

lemma placed_new: "placed h h' I T \<Longrightarrow> p \<in> I \<union> T \<Longrightarrow> brk h \<le> p \<and> p < brk h'"
  by (simp add: placed_def)

lemma placed_brk: "placed h h' I T \<Longrightarrow> brk h \<le> brk h'" "placed h h' I T \<Longrightarrow> wf_heap h'"
  by (simp_all add: placed_def grown_def)

lemma placed_viewed:
  assumes "wf_heap h" and "placed h h' I T" and "viewed h t"
  shows "viewed h' t" "shape h' t = shape h t"
proof -
  have "load h' p = load h p" if "p \<in> set (tree_items t)" for p
    using placed_old [OF assms(2) viewed_below [OF assms(1,3) that]] by (simp add: load_def)
  moreover have "texts h' q = texts h q" if "c_text h q \<noteq> None" for q
    using placed_old [OF assms(2) c_text_below [OF assms(1) that]] by simp
  ultimately show "viewed h' t" "shape h' t = shape h t" using viewed_frame [of h h' t] assms(3) by blast+
qed

lemma placed_field:
  assumes "wf_heap h" and "placed h h' I T" and "q \<noteq> NULL \<longrightarrow> c_text h q \<noteq> None"
  shows "text_at h' q = text_at h q" "q \<noteq> NULL \<longrightarrow> c_text h' q \<noteq> None"
proof -
  have "texts h' q = texts h q" if "q \<noteq> NULL"
    using placed_old [OF assms(2) c_text_below [OF assms(1)]] that assms(3) by simp
  then show "text_at h' q = text_at h q" "q \<noteq> NULL \<longrightarrow> c_text h' q \<noteq> None"
    using assms(3) by (auto simp: text_at_def c_text_def)
qed

lemma placed_node:
  assumes "placed (h\<lparr>brk := Suc (brk h)\<rparr>) h1 I T" and "wf_heap h"
  shows "placed h (h1\<lparr>items := (items h1)(brk h \<mapsto> n)\<rparr>) (insert (brk h) I) T" "brk h \<notin> I"
proof -
  have b: "Suc (brk h) \<le> p \<and> p < brk h1" if "p \<in> I \<union> T" for p using placed_new [OF assms(1) that] by simp
  then show n: "brk h \<notin> I" by fastforce
  have "brk h \<le> p \<and> p < brk h1" if "p \<in> insert (brk h) I \<union> T" for p
  proof (cases "p = brk h")
    case True
    then show ?thesis using placed_brk(1) [OF assms(1)] by simp
  next
    case False
    then show ?thesis using b [of p] that by auto
  qed
  moreover have "grown h (h1\<lparr>items := (items h1)(brk h \<mapsto> n)\<rparr>)"
    using assms placed_brk(1) [OF assms(1)] by (auto simp: placed_def grown_def wf_heap_def)
  ultimately show "placed h (h1\<lparr>items := (items h1)(brk h \<mapsto> n)\<rparr>) (insert (brk h) I) T"
    using assms(1) by (auto simp: placed_def)
qed

lemma node_viewed:
  assumes "p \<notin> set (tree_items t)" and "viewed h t"
  shows "viewed (h\<lparr>items := (items h)(p \<mapsto> n)\<rparr>) t" "shape (h\<lparr>items := (items h)(p \<mapsto> n)\<rparr>) t = shape h t"
proof -
  have "load (h\<lparr>items := (items h)(p \<mapsto> n)\<rparr>) r = load h r" if "r \<in> set (tree_items t)" for r
    using assms(1) that by (auto simp: load_def)
  then show "viewed (h\<lparr>items := (items h)(p \<mapsto> n)\<rparr>) t" "shape (h\<lparr>items := (items h)(p \<mapsto> n)\<rparr>) t = shape h t"
    using viewed_frame [of h "h\<lparr>items := (items h)(p \<mapsto> n)\<rparr>" t] assms(2) by simp_all
qed

definition in_store :: "heap \<Rightarrow> heap \<Rightarrow> tree list \<Rightarrow> bool" where
  "in_store h h' us \<longleftrightarrow> in_chain us \<and> (\<forall>u \<in> set us. viewed h' u \<and> unflagged u)
     \<and> distinct (all_items us) \<and> distinct (all_texts us) \<and> placed h h' (set (all_items us)) (set (all_texts us))"

lemma place_chain_in_store:
  "wf_heap h \<Longrightarrow> list_all parsed ts \<Longrightarrow> \<exists>us h'. place_chain ts prev h = (first_or NULL (map root us), h')
    \<and> in_store h h' us \<and> map (shape h') us = ts"
proof (induction ts prev h rule: place_chain.induct)
  case (1 prev h)
  then show ?case using placed_refl by (intro exI [of _ "[]"]) (simp add: in_store_def)
next
  case (2 ty vs vi vd s c ts prev h)
  let ?p = "brk h" and ?h0 = "h\<lparr>brk := Suc (brk h)\<rparr>"
  have w0: "wf_heap ?h0" using "2.prems"(1) by (simp add: wf_heap_def)
  have ps: "case vs of None \<Rightarrow> True | Some x \<Rightarrow> c_string x" "case s of None \<Rightarrow> True | Some x \<Rightarrow> c_string x"
    "list_all parsed c" "list_all parsed ts" "ty AND cJSON_IsReference = 0" "ty AND cJSON_StringIsConst = 0"
    using "2.prems"(2) by auto
  obtain v h1 where v: "put_text vs ?h0 = (v, h1)" "placed ?h0 h1 {} (if v = NULL then {} else {v})" "text_at h1 v = vs"
    "v \<noteq> NULL \<longrightarrow> c_text h1 v \<noteq> None" using put_text_placed [OF w0 ps(1)] by blast
  have w1: "wf_heap h1" using v(2) by (simp add: placed_def grown_def)
  obtain k h2 where k: "put_text s h1 = (k, h2)" "placed h1 h2 {} (if k = NULL then {} else {k})" "text_at h2 k = s"
    "k \<noteq> NULL \<longrightarrow> c_text h2 k \<noteq> None" using put_text_placed [OF w1 ps(2)] by blast
  have w2: "wf_heap h2" using k(2) by (simp add: placed_def grown_def)
  obtain cs h3 where c: "place_chain c NULL h2 = (first_or NULL (map root cs), h3)" "in_store h2 h3 cs" "map (shape h3) cs = c"
    using "2.IH"(1) [OF refl v(1) [symmetric] k(1) [symmetric] w2 ps(3)] by blast
  have p3: "placed h2 h3 (set (all_items cs)) (set (all_texts cs))" and w3: "wf_heap h3"
    using c(2) by (auto simp: in_store_def placed_def grown_def)
  obtain us h4 where u: "place_chain ts ?p h3 = (first_or NULL (map root us), h4)" "in_store h3 h4 us" "map (shape h4) us = ts"
    using "2.IH"(2) [OF refl v(1) [symmetric] k(1) [symmetric] c(1) [symmetric] w3 ps(4)] by blast
  have p4: "placed h3 h4 (set (all_items us)) (set (all_texts us))" using u(2) by (simp add: in_store_def)
  define n where "n = \<lparr>next_ptr = first_or NULL (map root us), prev_ptr = prev, child_ptr = first_or NULL (map root cs),
    ntype = ty, valuestring_ptr = v, nvalueint = vi, nvaluedouble = vd, string_ptr = k\<rparr>"
  define h' where "h' = h4\<lparr>items := (items h4)(?p \<mapsto> n)\<rparr>"
  let ?u = "Tree ?p n cs"
  have run: "place_chain (CJ ty vs vi vd s c # ts) prev h = (?p, h')"
    by (simp add: v(1) k(1) c(1) u(1) h'_def n_def Let_def)
  have own: "own_texts n = (if v = NULL then [] else [v]) @ (if k = NULL then [] else [k])"
    using ps(5,6) by (simp add: own_texts_def n_def n_reference_def n_const_key_def)
  note all = placed_trans [OF v(2) placed_trans [OF k(2) placed_trans [OF p3 p4]]]
  have np: "?p \<notin> set (all_items cs) \<union> set (all_items us)" using placed_node(2) [OF all "2.prems"(1)] by simp
  have "placed h h' (insert ?p ({} \<union> ({} \<union> (set (all_items cs) \<union> set (all_items us)))))
      ((if v = NULL then {} else {v}) \<union> ((if k = NULL then {} else {k}) \<union> (set (all_texts cs) \<union> set (all_texts us))))"
    unfolding h'_def by (rule placed_node(1) [OF all "2.prems"(1)])
  moreover have "insert ?p ({} \<union> ({} \<union> (set (all_items cs) \<union> set (all_items us)))) = set (all_items (?u # us))" by simp
  moreover have "(if v = NULL then {} else {v}) \<union> ((if k = NULL then {} else {k}) \<union> (set (all_texts cs) \<union> set (all_texts us)))
      = set (all_texts (?u # us))" using own by auto
  ultimately have plc: "placed h h' (set (all_items (?u # us))) (set (all_texts (?u # us)))" by metis
  have cs: "viewed h' x \<and> shape h' x = shape h3 x \<and> unflagged x" if "x \<in> set cs" for x
  proof -
    have x: "viewed h3 x" "unflagged x" "?p \<notin> set (tree_items x)" using c(2) that np by (auto simp: in_store_def)
    note y = placed_viewed [OF w3 p4 x(1)]
    show ?thesis using node_viewed [OF x(3) y(1), of n] x(2) y(2) by (simp add: h'_def)
  qed
  have us: "viewed h' x \<and> shape h' x = shape h4 x \<and> unflagged x" if "x \<in> set us" for x
  proof -
    have x: "viewed h4 x" "unflagged x" "?p \<notin> set (tree_items x)" using u(2) that np by (auto simp: in_store_def)
    show ?thesis using node_viewed [OF x(3,1), of n] x(2) by (simp add: h'_def)
  qed
  have tx: "text_at h' = text_at h4" "c_text h' = c_text h4" by (simp_all add: h'_def text_at_def c_text_def fun_eq_iff)
  note v2 = placed_field [OF w1 k(2) v(4)]
  note v3 = placed_field [OF w2 p3 v2(2)]
  note v4 = placed_field [OF w3 p4 v3(2)]
  note k3 = placed_field [OF w2 p3 k(4)]
  note k4 = placed_field [OF w3 p4 k3(2)]
  have "load h' ?p = Some n" using "2.prems"(1) by (simp add: h'_def load_def wf_heap_def)
  then have uv: "viewed h' ?u" using cs c(2) v4(2) k4(2) tx by (auto simp: n_def in_store_def)
  have uf: "unflagged ?u" using cs ps(5,6) by (simp add: n_def n_reference_def n_const_key_def)
  have shp: "shape h' ?u = CJ ty vs vi vd s c"
    using cs c(3) v4(1) v3(1) v2(1) v(3) k4(1) k3(1) k(3) tx by (auto simp: n_def)
  have "in_chain (?u # us)" using u(2) by (simp add: n_def in_store_def)
  moreover have "distinct (all_items (?u # us))"
  proof -
    have "x < y" if "x \<in> set (all_items cs)" "y \<in> set (all_items us)" for x y
      using placed_new [OF p3, of x] placed_new [OF p4, of y] that by simp
    then have "set (all_items cs) \<inter> set (all_items us) = {}" by blast
    then show ?thesis using np c(2) u(2) by (simp add: in_store_def)
  qed
  moreover have "distinct (all_texts (?u # us))"
  proof -
    have le: "brk h1 \<le> brk h2" "brk h2 \<le> brk h3" using placed_brk(1) [OF k(2)] placed_brk(1) [OF p3] by simp_all
    have bv: "v < brk h1" if "v \<noteq> NULL" using placed_new [OF v(2), of v] that by simp
    have bk: "brk h1 \<le> k \<and> k < brk h2" if "k \<noteq> NULL" using placed_new [OF k(2), of k] that by simp
    have bo: "x < brk h2" if "x \<in> set (own_texts n)" for x
      using own that bv bk le(1) by (fastforce split: if_splits)
    have bc: "brk h2 \<le> x \<and> x < brk h3" if "x \<in> set (all_texts cs)" for x using placed_new [OF p3, of x] that by simp
    have bu: "brk h3 \<le> x" if "x \<in> set (all_texts us)" for x using placed_new [OF p4, of x] that by simp
    have "set (own_texts n) \<inter> set (all_texts cs) = {}" using bo bc by (meson disjoint_iff not_less)
    moreover have "set (own_texts n) \<inter> set (all_texts us) = {}" using bo bu le(2) by (meson disjoint_iff not_less order.trans)
    moreover have "set (all_texts cs) \<inter> set (all_texts us) = {}" using bc bu by (meson disjoint_iff not_less)
    moreover have "v \<noteq> k" if "v \<noteq> NULL" using bv [OF that] bk that by force
    then have "distinct (own_texts n)" using own by auto
    ultimately show ?thesis using c(2) u(2) by (simp add: in_store_def Int_Un_distrib Int_Un_distrib2)
  qed
  ultimately have "in_store h h' (?u # us)" using plc uv uf us by (simp add: in_store_def)
  moreover have "map (shape h') (?u # us) = CJ ty vs vi vd s c # ts" using shp us u(3) by auto
  ultimately show ?case using run by (intro exI [of _ "?u # us"] exI [of _ h']) simp
qed

subsection \<open>Parsing and printing on the store\<close>

definition mem_of :: "(nat \<Rightarrow> u8) \<Rightarrow> heap \<Rightarrow> mem" where
  \<comment> \<open>the allocator of the store, with what a fresh block holds\<close>
  "mem_of g h = \<lparr>alloc_ok = h_ok h, calls = h_calls h, live = 0, junk = g\<rparr>"

definition h_parse :: "(nat \<Rightarrow> u8) \<Rightarrow> bytes \<Rightarrow> heap \<Rightarrow> (ptr \<times> heap) option" where
  \<comment> \<open>\<open>cJSON_Parse\<close> of a buffer\<close>
  "h_parse g v h = do {
     (item, _, m) \<leftarrow> cJSON_Parse (Some v) (mem_of g h);
     let h = h\<lparr>h_calls := calls m\<rparr>;
     Some (case item of None \<Rightarrow> (NULL, h) | Some t \<Rightarrow> place_chain [t] NULL h) }"

definition h_print :: "(nat \<Rightarrow> u8) \<Rightarrow> ptr \<Rightarrow> heap \<Rightarrow> (ptr \<times> heap) option" where
  \<comment> \<open>\<open>cJSON_Print\<close> with the C library's allocator\<close>
  "h_print g item h = do {
     t \<leftarrow> item_at h item;
     (r, m) \<leftarrow> cJSON_Print t True (mem_of g h);
     let h = h\<lparr>h_calls := calls m\<rparr>;
     Some (case r of None \<Rightarrow> (NULL, h)
       | Some b \<Rightarrow> (brk h, h\<lparr>texts := (texts h)(brk h \<mapsto> b), brk := Suc (brk h)\<rparr>)) }"

lemma h_parse_outcome:
  assumes "wf_heap h" and "0 \<in> set v"
  shows "\<exists>item e m. cJSON_Parse (Some v) (mem_of g h) = Some (item, e, m) \<and>
    (case item of
       None \<Rightarrow> h_parse g v h = Some (NULL, h\<lparr>h_calls := calls m\<rparr>)
     | Some t \<Rightarrow> \<exists>u h'. h_parse g v h = Some (root u, h') \<and> whole h' u \<and> shape h' u = t \<and> valid t \<and> jstring t = None
         \<and> placed h h' (set (tree_items u)) (set (tree_texts u)))"
proof -
  obtain item e m k where r: "cJSON_ParseWithOpts (Some v) False (mem_of g h) = Some (item, Some k, e, m)"
    and o: "case item of None \<Rightarrow> True | Some t \<Rightarrow> valid t \<and> jstring t = None"
    using ParseWithOpts_outcome [OF assms(2), of False "mem_of g h"]
    by (fastforce simp: parse_outcome_def split: option.splits)
  have p: "cJSON_Parse (Some v) (mem_of g h) = Some (item, e, m)" using r by (simp add: cJSON_Parse_def)
  show ?thesis
  proof (cases item)
    case None
    then show ?thesis using p by (simp add: h_parse_def)
  next
    case (Some t)
    let ?h = "h\<lparr>h_calls := calls m\<rparr>"
    have "wf_heap ?h" "list_all parsed [t]" using assms(1) o Some valid_parsed by (simp_all add: wf_heap_def)
    from place_chain_in_store [OF this, of NULL] obtain us h' where
      u: "place_chain [t] NULL ?h = (first_or NULL (map root us), h')" "in_store ?h h' us" "map (shape h') us = [t]" by (elim exE conjE) (rule that)
    then obtain w where w: "us = [w]" "shape h' w = t" by (cases us) auto
    have "placed h h' (set (tree_items w)) (set (tree_texts w))" using u(2) w by (simp add: in_store_def placed_def grown_def)
    moreover have "whole h' w" using u(2) w by (simp add: in_store_def whole_def separate_def)
    ultimately show ?thesis using p u w o Some by (auto simp: h_parse_def)
  qed
qed

lemma h_print_outcome:
  assumes w: "wf_heap h" and t: "whole h t" and p: "printable (shape h t)" and x: "render True 0 (shape h t) = Some x"
    and ok: "\<forall>k. h_ok h k"
  shows "\<exists>q h'. h_print g (root t) h = Some (q, h') \<and> items h' = items h \<and> grown h h' \<and>
    (if q = NULL then texts h' = texts h \<and> INT_LIMIT < length x + 2
     else q = brk h \<and> texts h' = (texts h)(brk h \<mapsto> x @ [0]) \<and> c_string x)"
proof -
  obtain r m where r: "print (shape h t) True True (mem_of g h) = Some (r, m)"
    and o: "case r of Some b \<Rightarrow> (\<exists>x. render True 0 (shape h t) = Some x \<and> c_string x \<and> b = x @ [0])
     | None \<Rightarrow> \<forall>x. render True 0 (shape h t) = Some x \<longrightarrow> (\<forall>k. alloc_ok (mem_of g h) k) \<longrightarrow> INT_LIMIT < length x + 2"
    using print_outcome [OF p, of True True "mem_of g h"] by (fastforce split: option.splits)
  have i: "item_at h (root t) = Some (shape h t)" using t by (intro item_at_viewed) (simp add: whole_def)
  have nz: "brk h \<noteq> NULL" using w by (simp add: wf_heap_def)
  show ?thesis
  proof (cases r)
    case None
    then show ?thesis using i r o x ok w
      by (auto simp: h_print_def cJSON_Print_def mem_of_def grown_def wf_heap_def)
  next
    case (Some b)
    then have "b = x @ [0]" "c_string x" using o x by simp_all
    then show ?thesis using Some i r w nz
      by (auto simp: h_print_def cJSON_Print_def grown_def wf_heap_def)
  qed
qed

end
