(* ===== verification/MqttClient.thy ===== *)
theory MqttClient
  imports Transition
begin

text \<open>
  The MQTT client of \<open>mqtt/mqtt.c\<close>: the thread that connects and reconnects, the callback of the
  Paho library that reports a lost connection, and the threads that call \<open>pubmsg\<close>, around one mutex
  and one condition variable.  A step is a stretch of code between two points where another thread
  can run.  The library is a parameter in the sense that its answers are free: connecting may fail or
  succeed, a publication may return anything, the callback may come at any time.
\<close>

subsection \<open>Strings\<close>

definition snprintf_bytes :: "nat \<Rightarrow> bytes \<Rightarrow> bytes" where
  \<comment> \<open>what a buffer of \<open>n\<close> bytes holds before its NUL\<close>
  "snprintf_bytes n s = take (n - 1) s"

definition set_mqtt_clientid :: "bytes \<Rightarrow> bytes" where
  \<comment> \<open>the new \<open>mqttclientid\<close>, a buffer of 128 bytes\<close>
  "set_mqtt_clientid clientid = snprintf_bytes 128 clientid"

definition down_topic :: "bytes \<Rightarrow> bytes" where
  "down_topic clientid = snprintf_bytes 512 (cstr ''yswl/0/'' @ clientid @ cstr ''/down'')"

definition up_topic :: "bytes \<Rightarrow> bytes" where
  "up_topic clientid = snprintf_bytes 512 (cstr ''yswl/0/'' @ clientid @ cstr ''/up'')"

subsection \<open>Starting the client\<close>

definition start_mqtt_client :: "int \<Rightarrow> int" where
  \<comment> \<open>from what \<open>pthread_create\<close> returns\<close>
  "start_mqtt_client rc = (if rc = -1 then -1 else 0)"

lemma start_mqtt_client_hides_failure:
  \<comment> \<open>\<open>pthread_create\<close> returns 0 or a positive error number\<close>
  "0 \<le> rc \<Longrightarrow> start_mqtt_client rc = 0"
  by (simp add: start_mqtt_client_def)

subsection \<open>State\<close>

datatype agent = Client | Callback | Publisher nat

datatype client_pc =
    C_lock        \<comment> \<open>at \<open>CONNECT\<close>, before the mutex\<close>
  | C_connect     \<comment> \<open>with the mutex\<close>
  | C_wait        \<comment> \<open>in \<open>pthread_cond_wait\<close>\<close>
  | C_woken       \<comment> \<open>in \<open>pthread_cond_wait\<close>, signalled\<close>
  | C_reconnect   \<comment> \<open>at \<open>RECONNECT\<close>, with the mutex\<close>

datatype callback_pc = L_idle | L_lock | L_body

datatype publisher_pc = P_idle | P_lock bytes | P_test bytes | P_unlock

record mqtt =
  mqttcMutex :: "agent option"
  conn :: u8
  client_at :: client_pc
  callback_at :: callback_pc
  publisher_at :: "nat \<Rightarrow> publisher_pc"
  mqttclientid :: bytes
  open_handle :: bool                        \<comment> \<open>\<open>mqttclient\<close> is connected and not destroyed\<close>
  subscribed :: "bytes option"               \<comment> \<open>the topic of the session; it is a clean one each time\<close>
  sent :: "(bool \<times> bytes \<times> bytes) list"       \<comment> \<open>calls of \<open>MQTTClient_publishMessage\<close>: was the handle open, topic, payload\<close>

definition mqtt_start :: "bytes \<Rightarrow> mqtt" where
  "mqtt_start clientid = \<lparr>mqttcMutex = None, conn = 0, client_at = C_lock, callback_at = L_idle,
     publisher_at = (\<lambda>_. P_idle), mqttclientid = set_mqtt_clientid clientid, open_handle = False, subscribed = None, sent = []\<rparr>"

subsection \<open>Steps\<close>

inductive mqtt_step :: "mqtt \<Rightarrow> mqtt \<Rightarrow> bool" where
  \<comment> \<open>\<open>mqtt_client_thread\<close>\<close>
  connect: "client_at s = C_lock \<Longrightarrow> mqttcMutex s = None \<Longrightarrow>
    mqtt_step s (s\<lparr>client_at := C_connect, mqttcMutex := Some Client\<rparr>)"
| refused: "client_at s = C_connect \<Longrightarrow> mqtt_step s (s\<lparr>client_at := C_reconnect, conn := 0\<rparr>)"
| connected: "client_at s = C_connect \<Longrightarrow>
    mqtt_step s (s\<lparr>client_at := C_wait, conn := 1, open_handle := True,
      subscribed := Some (down_topic (mqttclientid s)), mqttcMutex := None\<rparr>)"
| returned: "client_at s = C_woken \<Longrightarrow> mqttcMutex s = None \<Longrightarrow>
    mqtt_step s (s\<lparr>client_at := C_reconnect, mqttcMutex := Some Client\<rparr>)"
| reconnect: "client_at s = C_reconnect \<Longrightarrow>
    mqtt_step s (s\<lparr>client_at := C_lock, open_handle := False, subscribed := None, mqttcMutex := None\<rparr>)"
  \<comment> \<open>\<open>connlost\<close>\<close>
| lost: "callback_at s = L_idle \<Longrightarrow> mqtt_step s (s\<lparr>callback_at := L_lock\<rparr>)"
| lost_locked: "callback_at s = L_lock \<Longrightarrow> mqttcMutex s = None \<Longrightarrow>
    mqtt_step s (s\<lparr>callback_at := L_body, mqttcMutex := Some Callback\<rparr>)"
| lost_told: "callback_at s = L_body \<Longrightarrow>
    mqtt_step s (s\<lparr>callback_at := L_idle, conn := 0, mqttcMutex := None,
      client_at := if client_at s = C_wait then C_woken else client_at s\<rparr>)"
  \<comment> \<open>\<open>pubmsg\<close>\<close>
| called: "publisher_at s t = P_idle \<Longrightarrow> mqtt_step s (s\<lparr>publisher_at := (publisher_at s)(t := P_lock msg)\<rparr>)"
| locked: "publisher_at s t = P_lock msg \<Longrightarrow> mqttcMutex s = None \<Longrightarrow>
    mqtt_step s (s\<lparr>publisher_at := (publisher_at s)(t := P_test msg), mqttcMutex := Some (Publisher t)\<rparr>)"
| published: "publisher_at s t = P_test msg \<Longrightarrow> conn s = 1 \<Longrightarrow>
    mqtt_step s (s\<lparr>publisher_at := (publisher_at s)(t := P_unlock),
      sent := sent s @ [(open_handle s, up_topic (mqttclientid s), msg)]\<rparr>)"
| finished: "publisher_at s t = P_unlock \<Longrightarrow>
    mqtt_step s (s\<lparr>publisher_at := (publisher_at s)(t := P_idle), mqttcMutex := None\<rparr>)"
| offline: "publisher_at s t = P_test msg \<Longrightarrow> conn s \<noteq> 1 \<Longrightarrow>
    mqtt_step s (s\<lparr>publisher_at := (publisher_at s)(t := P_idle)\<rparr>)"

inductive posix_step :: "mqtt \<Rightarrow> mqtt \<Rightarrow> bool" where
  \<comment> \<open>\<open>pthread_cond_wait\<close> may also return without a signal\<close>
  no_wakeup: "mqtt_step s s' \<Longrightarrow> posix_step s s'"
| spurious: "client_at s = C_wait \<Longrightarrow> posix_step s (s\<lparr>client_at := C_woken\<rparr>)"

inductive_cases mqtt_stepE: "mqtt_step s s'"

subsection \<open>Invariants\<close>

fun inside :: "publisher_pc \<Rightarrow> bool" where
  "inside P_unlock \<longleftrightarrow> True"
| "inside (P_test _) \<longleftrightarrow> True"
| "inside _ \<longleftrightarrow> False"

definition mqtt_ok :: "mqtt \<Rightarrow> bool" where
  \<comment> \<open>who is inside has the mutex; when a publisher has it and is not inside, the client is offline\<close>
  "mqtt_ok s \<longleftrightarrow> (client_at s = C_connect \<or> client_at s = C_reconnect \<longleftrightarrow> mqttcMutex s = Some Client)
     \<and> (callback_at s = L_body \<longleftrightarrow> mqttcMutex s = Some Callback)
     \<and> (\<forall>t. inside (publisher_at s t) \<longrightarrow> mqttcMutex s = Some (Publisher t))
     \<and> (\<forall>t. mqttcMutex s = Some (Publisher t) \<longrightarrow> inside (publisher_at s t) \<or> conn s \<noteq> 1)
     \<and> (client_at s = C_wait \<longrightarrow> conn s = 1)"

lemma mqtt_step_ok: "mqtt_step s s' \<Longrightarrow> mqtt_ok s \<Longrightarrow> mqtt_ok s'"
proof (induction rule: mqtt_step.induct)
  case (connect s) then show ?case by (auto simp: mqtt_ok_def)
next
  case (refused s) then show ?case by (auto simp: mqtt_ok_def)
next
  case (connected s) then show ?case by (auto simp: mqtt_ok_def)
next
  case (returned s) then show ?case by (auto simp: mqtt_ok_def)
next
  case (reconnect s) then show ?case by (auto simp: mqtt_ok_def)
next
  case (lost s) then show ?case by (auto simp: mqtt_ok_def)
next
  case (lost_locked s) then show ?case by (auto simp: mqtt_ok_def)
next
  case (lost_told s) then show ?case by (auto simp: mqtt_ok_def)
next
  case (called s t msg) then show ?case by (auto simp: mqtt_ok_def)
next
  case (locked s t msg) then show ?case by (auto simp: mqtt_ok_def)
next
  case (published s t msg)
  then have "mqttcMutex s = Some (Publisher t)" unfolding mqtt_ok_def by (metis inside.simps(2))
  then show ?case using published by (auto simp: mqtt_ok_def)
next
  case (finished s t)
  then have "mqttcMutex s = Some (Publisher t)" "\<And>u. inside (publisher_at s u) \<Longrightarrow> u = t"
    unfolding mqtt_ok_def by (metis inside.simps(1) agent.inject option.inject)+
  then show ?case using finished by (auto simp: mqtt_ok_def)
next
  case (offline s t msg)
  then have "mqttcMutex s = Some (Publisher t)" unfolding mqtt_ok_def by (metis inside.simps(2))
  then show ?case using offline by (auto simp: mqtt_ok_def)
qed

lemma posix_step_ok: "posix_step s s' \<Longrightarrow> mqtt_ok s \<Longrightarrow> mqtt_ok s'"
proof (induction rule: posix_step.induct)
  case (no_wakeup s s')
  then show ?case using mqtt_step_ok by blast
next
  case (spurious s)
  then show ?case by (auto simp: mqtt_ok_def)
qed

lemma mqtt_start_ok: "mqtt_ok (mqtt_start clientid)"
  by (simp add: mqtt_ok_def mqtt_start_def)

interpretation mqtt: invariant_of "\<lambda>s. \<exists>clientid. s = mqtt_start clientid" posix_step mqtt_ok
  by unfold_locales (use mqtt_start_ok posix_step_ok in blast)+

definition online_ok :: "mqtt \<Rightarrow> bool" where
  \<comment> \<open>\<open>conn\<close> tells the truth about the handle\<close>
  "online_ok s \<longleftrightarrow> mqtt_ok s \<and> (conn s = 1 \<longrightarrow> client_at s = C_wait \<and> open_handle s \<and> subscribed s = Some (down_topic (mqttclientid s))) \<and> (\<forall>m \<in> set (sent s). fst m)"

lemma mqtt_step_online: "mqtt_step s s' \<Longrightarrow> online_ok s \<Longrightarrow> online_ok s'"
proof -
  assume st: "mqtt_step s s'" and ok: "online_ok s"
  have "(conn s' = 1 \<longrightarrow> client_at s' = C_wait \<and> open_handle s' \<and> subscribed s' = Some (down_topic (mqttclientid s'))) \<and> (\<forall>m \<in> set (sent s'). fst m)"
    using st ok by (induction rule: mqtt_step.induct) (simp_all add: online_ok_def)
  then show ?thesis using mqtt_step_ok [OF st] ok by (simp add: online_ok_def)
qed

interpretation online: invariant_of "\<lambda>s. \<exists>clientid. s = mqtt_start clientid" mqtt_step online_ok
proof unfold_locales
  show "\<exists>clientid. s = mqtt_start clientid \<Longrightarrow> online_ok s" for s
    using mqtt_start_ok by (auto simp: online_ok_def mqtt_start_def)
qed (rule mqtt_step_online)

definition hung :: "mqtt \<Rightarrow> bool" where
  \<comment> \<open>a call of \<open>pubmsg\<close> has the mutex and no connection\<close>
  "hung s \<longleftrightarrow> (\<exists>t. mqttcMutex s = Some (Publisher t) \<and> publisher_at s t \<noteq> P_unlock \<and> conn s \<noteq> 1)"

lemma hung_step:
  assumes "posix_step s s'" and "mqtt_ok s" and "mqttcMutex s = Some (Publisher t)" and "publisher_at s t \<noteq> P_unlock" and "conn s \<noteq> 1"
  shows "mqttcMutex s' = Some (Publisher t) \<and> publisher_at s' t \<noteq> P_unlock \<and> conn s' \<noteq> 1 \<and> sent s' = sent s"
  using assms(1)
proof cases
  case no_wakeup
  then show ?thesis using assms(2-5)
  proof (induction rule: mqtt_step.induct)
    case (finished s u)
    then have "mqttcMutex s = Some (Publisher u)" by (auto simp: mqtt_ok_def)
    then show ?case using finished by auto
  qed (auto simp: mqtt_ok_def)
next
  case spurious
  then show ?thesis using assms by simp
qed

lemma hung_forever:
  assumes "posix_step\<^sup>*\<^sup>* s s'" and "mqtt_ok s" and "mqttcMutex s = Some (Publisher t)" and "publisher_at s t \<noteq> P_unlock" and "conn s \<noteq> 1"
  shows "mqttcMutex s' = Some (Publisher t) \<and> publisher_at s' t \<noteq> P_unlock \<and> conn s' \<noteq> 1 \<and> sent s' = sent s"
  using assms(1)
proof (induction rule: rtranclp_induct)
  case base
  then show ?case using assms by simp
next
  case (step y z)
  then show ?case using hung_step [of y z t] mqtt.holds_along [OF step(1) assms(2)] by simp
qed

lemma free_connects:
  \<comment> \<open>with the mutex free the client gets through\<close>
  assumes "mqtt_ok s" and "mqttcMutex s = None \<or> mqttcMutex s = Some Client"
  shows "\<exists>s'. mqtt_step\<^sup>*\<^sup>* s s' \<and> client_at s' = C_wait \<and> conn s' = 1"
proof -
  have connecting: "\<exists>s'. mqtt_step\<^sup>*\<^sup>* s s' \<and> client_at s' = C_wait \<and> conn s' = 1" if "client_at s = C_connect" for s
    using mqtt_step.connected [OF that] by (intro exI conjI r_into_rtranclp) auto
  have locking: "\<exists>s'. mqtt_step\<^sup>*\<^sup>* s s' \<and> client_at s' = C_wait \<and> conn s' = 1" if "client_at s = C_lock" "mqttcMutex s = None" for s
    using mqtt_step.connect [OF that] connecting [of "s\<lparr>client_at := C_connect, mqttcMutex := Some Client\<rparr>"]
    by (auto intro: converse_rtranclp_into_rtranclp)
  have again: "\<exists>s'. mqtt_step\<^sup>*\<^sup>* s s' \<and> client_at s' = C_wait \<and> conn s' = 1" if "client_at s = C_reconnect" for s
    using mqtt_step.reconnect [OF that] locking [of "s\<lparr>client_at := C_lock, open_handle := False, subscribed := None, mqttcMutex := None\<rparr>"]
    by (auto intro: converse_rtranclp_into_rtranclp)
  have woken: "\<exists>s'. mqtt_step\<^sup>*\<^sup>* s s' \<and> client_at s' = C_wait \<and> conn s' = 1" if "client_at s = C_woken" "mqttcMutex s = None" for s
    using mqtt_step.returned [OF that] again [of "s\<lparr>client_at := C_reconnect, mqttcMutex := Some Client\<rparr>"]
    by (auto intro: converse_rtranclp_into_rtranclp)
  show ?thesis
    using assms connecting [of s] locking [of s] again [of s] woken [of s]
    by (cases "client_at s") (auto simp: mqtt_ok_def)
qed

lemma not_hung_connects:
  assumes ok: "mqtt_ok s" and "\<not> hung s"
  shows "\<exists>s'. mqtt_step\<^sup>*\<^sup>* s s' \<and> client_at s' = C_wait \<and> conn s' = 1"
proof -
  have one: "\<exists>s'. mqtt_step\<^sup>*\<^sup>* s s' \<and> client_at s' = C_wait \<and> conn s' = 1" if "mqtt_step s s1" "mqttcMutex s1 = None" "mqtt_ok s" for s s1
    using free_connects [OF mqtt_step_ok [OF that(1,3)]] that(1,2) by (blast intro: converse_rtranclp_into_rtranclp)
  show ?thesis
  proof (cases "mqttcMutex s")
    case (Some a)
    show ?thesis
    proof (cases a)
      case Callback
      then have "callback_at s = L_body" using ok Some by (simp add: mqtt_ok_def)
      from one [OF lost_told [OF this] _ ok] show ?thesis by simp
    next
      case (Publisher t)
      show ?thesis
      proof (cases "publisher_at s t = P_unlock")
        case True
        from one [OF finished [OF True] _ ok] show ?thesis by simp
      next
        case False
        then have on: "conn s = 1" using assms(2) Some Publisher by (auto simp: hung_def)
        then have "inside (publisher_at s t)" using ok Some Publisher by (auto simp: mqtt_ok_def)
        then obtain msg where "publisher_at s t = P_test msg" using False by (cases "publisher_at s t") auto
        from published [OF this on] obtain s1 where s1: "mqtt_step s s1" "publisher_at s1 t = P_unlock" by auto
        from one [OF finished [OF s1(2)] _ mqtt_step_ok [OF s1(1) ok]] s1(1) show ?thesis
          by (auto intro: converse_rtranclp_into_rtranclp)
      qed
    next
      case Client
      then show ?thesis using free_connects ok Some by simp
    qed
  qed (use free_connects ok in simp)
qed

lemma mqtt_posix: "mqtt_step\<^sup>*\<^sup>* s s' \<Longrightarrow> posix_step\<^sup>*\<^sup>* s s'"
  by (induction rule: rtranclp_induct) (auto intro: no_wakeup rtranclp.rtrancl_into_rtrancl)

lemma sent_topics:
  "mqtt_step\<^sup>*\<^sup>* (mqtt_start clientid) s \<Longrightarrow> mqttclientid s = set_mqtt_clientid clientid
    \<and> (\<forall>(on, topic, msg) \<in> set (sent s). topic = up_topic (set_mqtt_clientid clientid))"
proof (induction rule: rtranclp_induct)
  case base
  then show ?case by (simp add: mqtt_start_def)
next
  case (step y z)
  from step(2,3) show ?case by (induction rule: mqtt_step.induct) auto
qed

lemma down_topic_fits:
  "down_topic (set_mqtt_clientid clientid) = cstr ''yswl/0/'' @ take 127 clientid @ cstr ''/down''"
  by (simp add: down_topic_def set_mqtt_clientid_def snprintf_bytes_def)

lemma topics_fit:
  "up_topic (set_mqtt_clientid clientid) = cstr ''yswl/0/'' @ take 127 clientid @ cstr ''/up''"
  by (simp add: up_topic_def set_mqtt_clientid_def snprintf_bytes_def)

subsection \<open>Properties\<close>

text \<open>
  C25: in every state the client can get into, it can still come to be connected and waiting exactly
  when no call of \<open>pubmsg\<close> has taken the mutex while there was no connection.
\<close>

theorem client_can_reconnect_iff:
  assumes "posix_step\<^sup>*\<^sup>* (mqtt_start clientid) s"
  shows "(\<exists>s'. posix_step\<^sup>*\<^sup>* s s' \<and> client_at s' = C_wait \<and> conn s' = 1) \<longleftrightarrow>
    \<not> (\<exists>t. mqttcMutex s = Some (Publisher t) \<and> publisher_at s t \<noteq> P_unlock \<and> conn s \<noteq> 1)"
proof -
  have ok: "mqtt_ok s" using mqtt.reachable assms by blast
  show ?thesis
    using hung_forever [OF _ ok] not_hung_connects [OF ok] mqtt_posix unfolding hung_def by metis
qed

text \<open>
  C26: \<open>pubmsg\<close> unlocks the mutex only when it found a connection.  A call at a moment without one
  (after a lost connection, say, before the client has connected again) stops the whole client for
  good: the mutex stays locked, the connection is never made again and nothing is published any more.
\<close>

theorem pubmsg_offline_hangs:
  assumes "posix_step\<^sup>*\<^sup>* (mqtt_start clientid) s" and "publisher_at s t = P_test msg" and "conn s \<noteq> 1"
    and "posix_step\<^sup>*\<^sup>* s s'"
  shows "mqttcMutex s' = Some (Publisher t) \<and> conn s' \<noteq> 1 \<and> sent s' = sent s"
proof -
  have ok: "mqtt_ok s" using mqtt.reachable assms(1) by blast
  moreover have "mqttcMutex s = Some (Publisher t)" using ok assms(2) by (simp add: mqtt_ok_def)
  ultimately show ?thesis using hung_forever [OF assms(4) ok, of t] assms(2,3) by simp
qed

definition early_call :: "bytes \<Rightarrow> bytes \<Rightarrow> mqtt" where
  \<comment> \<open>thread 0 is in \<open>pubmsg\<close> before the client has connected\<close>
  "early_call clientid msg = (mqtt_start clientid)\<lparr>publisher_at := (\<lambda>_. P_idle)(0 := P_test msg), mqttcMutex := Some (Publisher 0)\<rparr>"

lemma early_call_reached: "mqtt_step\<^sup>*\<^sup>* (mqtt_start clientid) (early_call clientid msg)"
proof -
  let ?s = "mqtt_start clientid"
  let ?s1 = "?s\<lparr>publisher_at := (publisher_at ?s)(0 := P_lock msg)\<rparr>"
  have "mqtt_step ?s ?s1" by (rule called) (simp add: mqtt_start_def)
  moreover have "mqtt_step ?s1 (early_call clientid msg)"
    using locked [of ?s1 0 msg] by (simp add: mqtt_start_def early_call_def)
  ultimately show ?thesis by (meson r_into_rtranclp rtranclp.rtrancl_into_rtrancl)
qed

theorem client_can_reconnect_iff_witness:
  "\<not> (\<exists>s'. posix_step\<^sup>*\<^sup>* (early_call [49] [50]) s' \<and> client_at s' = C_wait \<and> conn s' = 1)"
  using client_can_reconnect_iff [OF mqtt_posix [OF early_call_reached], of "[49]" "[50]"]
  by (simp add: early_call_def mqtt_start_def)

theorem pubmsg_offline_hangs_witness:
  "mqttcMutex (early_call [49] [50]) = Some (Publisher 0) \<and> conn (early_call [49] [50]) \<noteq> 1
    \<and> sent (early_call [49] [50]) = sent (early_call [49] [50])"
  by (rule pubmsg_offline_hangs [OF mqtt_posix [OF early_call_reached]]) (simp_all add: early_call_def mqtt_start_def)


definition early_wakeup :: "bytes \<Rightarrow> mqtt" where
  \<comment> \<open>the client has connected, woken up without a signal and closed its handle\<close>
  "early_wakeup clientid = (mqtt_start clientid)\<lparr>client_at := C_lock, conn := 1\<rparr>"

lemma early_wakeup_reached: "posix_step\<^sup>*\<^sup>* (mqtt_start clientid) (early_wakeup clientid)"
proof -
  let ?s0 = "mqtt_start clientid"
  let ?s1 = "?s0\<lparr>client_at := C_connect, mqttcMutex := Some Client\<rparr>"
  let ?s2 = "?s1\<lparr>client_at := C_wait, conn := 1, open_handle := True,
      subscribed := Some (down_topic (mqttclientid ?s1)), mqttcMutex := None\<rparr>"
  let ?s3 = "?s2\<lparr>client_at := C_woken\<rparr>"
  let ?s4 = "?s3\<lparr>client_at := C_reconnect, mqttcMutex := Some Client\<rparr>"
  have "posix_step ?s0 ?s1" by (rule no_wakeup, rule connect) (simp_all add: mqtt_start_def)
  moreover have "posix_step ?s1 ?s2" by (rule no_wakeup, rule connected) simp
  moreover have "posix_step ?s2 ?s3" by (rule spurious) simp
  moreover have "posix_step ?s3 ?s4" by (rule no_wakeup, rule returned) simp_all
  moreover have "posix_step ?s4 (early_wakeup clientid)"
    using no_wakeup [OF reconnect [of ?s4]] by (simp add: early_wakeup_def mqtt_start_def)
  ultimately show ?thesis by (meson r_into_rtranclp rtranclp.rtrancl_into_rtrancl)
qed

text \<open>
  \<open>pthread_cond_wait\<close> is not in a loop, and the test of \<open>conn\<close> after it is empty: when it
  returns without a signal the client destroys its handle with \<open>conn\<close> still 1, and \<open>pubmsg\<close>
  publishes on the destroyed handle.
\<close>

lemma spurious_wakeup_publishes_closed:
  "\<exists>s. posix_step\<^sup>*\<^sup>* (mqtt_start clientid) s \<and> (False, up_topic (set_mqtt_clientid clientid), msg) \<in> set (sent s)"
proof -
  let ?s0 = "early_wakeup clientid"
  let ?s1 = "?s0\<lparr>publisher_at := (publisher_at ?s0)(0 := P_lock msg)\<rparr>"
  let ?s2 = "?s1\<lparr>publisher_at := (publisher_at ?s1)(0 := P_test msg), mqttcMutex := Some (Publisher 0)\<rparr>"
  let ?s3 = "?s2\<lparr>publisher_at := (publisher_at ?s2)(0 := P_unlock),
      sent := sent ?s2 @ [(open_handle ?s2, up_topic (mqttclientid ?s2), msg)]\<rparr>"
  have "posix_step ?s0 ?s1" by (rule no_wakeup, rule called) (simp add: early_wakeup_def mqtt_start_def)
  moreover have "posix_step ?s1 ?s2" by (rule no_wakeup, rule locked) (simp_all add: early_wakeup_def mqtt_start_def)
  moreover have "posix_step ?s2 ?s3" by (rule no_wakeup, rule published) (simp_all add: early_wakeup_def)
  ultimately have "posix_step\<^sup>*\<^sup>* (mqtt_start clientid) ?s3"
    using early_wakeup_reached by (meson rtranclp.rtrancl_into_rtrancl)
  moreover have "(False, up_topic (set_mqtt_clientid clientid), msg) \<in> set (sent ?s3)"
    by (simp add: early_wakeup_def mqtt_start_def)
  ultimately show ?thesis by blast
qed

definition first_message :: mqtt where
  \<comment> \<open>the client \<open>"1"\<close> has connected and thread 0 has published \<open>"2"\<close>\<close>
  "first_message = (mqtt_start [49])\<lparr>client_at := C_wait, conn := 1, open_handle := True, subscribed := Some (down_topic [49]),
     publisher_at := (\<lambda>_. P_idle)(0 := P_unlock), mqttcMutex := Some (Publisher 0), sent := [(True, up_topic [49], [50])]\<rparr>"

lemma first_message_reached: "mqtt_step\<^sup>*\<^sup>* (mqtt_start [49]) first_message"
proof -
  let ?s0 = "mqtt_start [49]"
  let ?s1 = "?s0\<lparr>client_at := C_connect, mqttcMutex := Some Client\<rparr>"
  let ?s2 = "?s1\<lparr>client_at := C_wait, conn := 1, open_handle := True,
      subscribed := Some (down_topic (mqttclientid ?s1)), mqttcMutex := None\<rparr>"
  let ?s3 = "?s2\<lparr>publisher_at := (publisher_at ?s2)(0 := P_lock [50])\<rparr>"
  let ?s4 = "?s3\<lparr>publisher_at := (publisher_at ?s3)(0 := P_test [50]), mqttcMutex := Some (Publisher 0)\<rparr>"
  have "mqtt_step ?s0 ?s1" by (rule connect) (simp_all add: mqtt_start_def)
  moreover have "mqtt_step ?s1 ?s2" by (rule connected) simp
  moreover have "mqtt_step ?s2 ?s3" by (rule called) (simp add: mqtt_start_def)
  moreover have "mqtt_step ?s3 ?s4" by (rule locked) simp_all
  moreover have "mqtt_step ?s4 first_message"
    using published [of ?s4 0 "[50]"] by (simp add: first_message_def mqtt_start_def set_mqtt_clientid_def snprintf_bytes_def)
  ultimately show ?thesis by (meson r_into_rtranclp rtranclp.rtrancl_into_rtrancl)
qed


end
