(* ===== verification/MqttProcess.thy ===== *)
theory MqttProcess
  imports JsonPlace MqttClient
begin

text \<open>
  What the program does with an MQTT message (\<open>MQTTProcess.cpp\<close>): the callback copies it into a
  message for the consumer thread, which parses it, looks up \<open>MSGID\<close> and publishes a heartbeat that
  \<open>xintiao\<close> builds, prints and frees again.  The JSON code is the one of the other theories, on one
  store; string literals are blocks of the store that nobody frees.
\<close>

subsection \<open>The code\<close>

definition DEVID :: string where "DEVID = ''123456789012345f''"

definition literal_words :: "string list" where
  "literal_words = [''DEVID'', DEVID, ''MSGID'', ''TIME'', '''', ''MSGTYPE'', ''DEVTYPE'', ''DATA'', ''CMDID'']"

definition literals :: "heap \<Rightarrow> (string \<Rightarrow> ptr) \<Rightarrow> bool" where
  "literals h lit \<longleftrightarrow> (\<forall>s \<in> set literal_words. lit s \<noteq> NULL \<and> c_text h (lit s) = Some (cstr s))"

definition xintiao :: "(string \<Rightarrow> ptr) \<Rightarrow> (nat \<Rightarrow> u8) \<Rightarrow> ptr \<Rightarrow> heap \<Rightarrow> (ptr \<times> heap) option" where
  \<comment> \<open>the addresses of the literals, what a fresh block holds, \<open>UUID\<close>\<close>
  "xintiao lit g UUID h =
     (case cJSON_CreateObject h of (pJsonRoot, h) \<Rightarrow>
      case cJSON_CreateObject h of (pJsonData, h) \<Rightarrow>
        if pJsonRoot = NULL then Some (NULL, h)
        else if pJsonData = NULL then Some (NULL, h)
        else do {
          (_, h) \<leftarrow> cJSON_AddStringToObject pJsonRoot (lit ''DEVID'') (lit DEVID) h;
          (_, h) \<leftarrow> cJSON_AddStringToObject pJsonRoot (lit ''MSGID'') UUID h;
          (_, h) \<leftarrow> cJSON_AddStringToObject pJsonRoot (lit ''TIME'') (lit '''') h;
          (_, h) \<leftarrow> cJSON_AddNumberToObject pJsonRoot (lit ''MSGTYPE'') (double_of_int 1) h;
          (_, h) \<leftarrow> cJSON_AddNumberToObject pJsonRoot (lit ''DEVTYPE'') (double_of_int 0) h;
          h \<leftarrow> cJSON_AddItemToObject pJsonRoot (lit ''DATA'') pJsonData h;
          (_, h) \<leftarrow> cJSON_AddNumberToObject pJsonData (lit ''CMDID'') (double_of_int 2) h;
          (p, h) \<leftarrow> h_print g pJsonRoot h;
          h \<leftarrow> h_delete pJsonRoot h;
          Some (p, h) })"

record MQTTData =
  md_from :: bytes
  md_msg :: bytes

definition mqttArrived_Fun :: "bytes option \<Rightarrow> bytes \<Rightarrow> MQTTData" where
  \<comment> \<open>the strings in the two buffers of the new message; the C library prints \<open>(null)\<close> for a null pointer\<close>
  "mqttArrived_Fun from_topic msg =
     \<lparr>md_from = snprintf_bytes 128 (case from_topic of None \<Rightarrow> cstr ''(null)'' | Some s \<Rightarrow> s),
      md_msg = snprintf_bytes 256 msg\<rparr>"

record mqtt_globals =
  p2psignal_cb :: "(bytes option \<Rightarrow> bytes \<Rightarrow> MQTTData) option"
  deliveredtoken :: int

definition set_p2psignal_callback :: "(bytes option \<Rightarrow> bytes \<Rightarrow> MQTTData) option \<Rightarrow> mqtt_globals \<Rightarrow> mqtt_globals" where
  "set_p2psignal_callback msgrecv gl = gl\<lparr>p2psignal_cb := msgrecv\<rparr>"

definition delivered :: "int \<Rightarrow> mqtt_globals \<Rightarrow> mqtt_globals" where
  "delivered dt gl = gl\<lparr>deliveredtoken := dt\<rparr>"

definition msgarrvd :: "mqtt_globals \<Rightarrow> bytes \<Rightarrow> MQTTData option option" where
  \<comment> \<open>the message made of a payload, if a callback is set: it gets a null pointer and the payload as a
     C string, which it reads up to a NUL; none in the payload is an access beyond it\<close>
  "msgarrvd gl payload =
     (case p2psignal_cb gl of
        None \<Rightarrow> Some None
      | Some cb \<Rightarrow> do { n \<leftarrow> c_strlen payload; Some (Some (cb None (take n payload))) })"

abbreviation registered :: "mqtt_globals \<Rightarrow> mqtt_globals" where
  \<comment> \<open>as \<open>main\<close> does it\<close>
  "registered \<equiv> set_p2psignal_callback (Some mqttArrived_Fun)"

lemma msgarrvd_registered:
  "msgarrvd (registered gl) payload = map_option (\<lambda>n. Some (mqttArrived_Fun None (take n payload))) (c_strlen payload)"
  by (simp add: msgarrvd_def set_p2psignal_callback_def map_option_case split: option.split)

definition process :: "(string \<Rightarrow> ptr) \<Rightarrow> (nat \<Rightarrow> u8) \<Rightarrow> MQTTData \<Rightarrow> heap \<Rightarrow> (bytes option list \<times> heap) option" where
  \<comment> \<open>the arguments of the calls of \<open>pubmsg\<close>; \<open>None\<close> is a null pointer\<close>
  "process lit g md h = do {
     (pJson, h) \<leftarrow> h_parse g (md_msg md @ [0]) h;
     if pJson = NULL then Some ([], h)
     else do {
       pSub \<leftarrow> cJSON_GetObjectItem h pJson (lit ''MSGID'');
       (msgs, h) \<leftarrow>
         (if pSub \<noteq> NULL
          then do {
            n \<leftarrow> load h pSub;
            (str, h) \<leftarrow> xintiao lit g (valuestring_ptr n) h;
            msg \<leftarrow> text_field h str;
            h \<leftarrow> (if str = NULL then Some h else free_text str h);
            Some ([msg], h) }
          else Some ([], h));
       h \<leftarrow> h_delete pJson h;
       Some (msgs, h) } }"

subsection \<open>Building the heartbeat\<close>

abbreviation member :: "string \<Rightarrow> cJSON \<Rightarrow> cJSON" where
  "member k \<equiv> set_string (Some (cstr k))"

definition heartbeat :: "bytes option \<Rightarrow> cJSON" where
  \<comment> \<open>the answer to a message with that \<open>MSGID\<close>, which may be no string\<close>
  "heartbeat uuid = CJ cJSON_Object None 0 d_zero None
     ([member ''DEVID'' (string_item (cstr DEVID))]
      @ (case uuid of None \<Rightarrow> [] | Some u \<Rightarrow> [member ''MSGID'' (string_item u)])
      @ [member ''TIME'' (string_item []), member ''MSGTYPE'' (number_item (double_of_int 1)),
         member ''DEVTYPE'' (number_item (double_of_int 0)),
         CJ cJSON_Object None 0 d_zero (Some (cstr ''DATA'')) [member ''CMDID'' (number_item (double_of_int 2))]])"

definition built :: "heap \<Rightarrow> heap \<Rightarrow> ptr \<Rightarrow> tree \<Rightarrow> cJSON \<Rightarrow> bool" where
  \<comment> \<open>since \<open>h0\<close> an object \<open>t\<close> of value \<open>v\<close> and an empty object \<open>d\<close> have been made, and nothing else\<close>
  "built h0 h d t v \<longleftrightarrow> kept h0 h {} \<and> owns h t \<and> shape h t = v
     \<and> owns h (leaf h d) \<and> shape h (leaf h d) = empty_object \<and> tree_texts (leaf h d) = [] \<and> string_ptr (the (load h d)) = NULL
     \<and> d \<notin> set (tree_items t) \<and> (\<forall>p \<in> insert d (set (tree_items t)) \<union> set (tree_texts t). brk h0 \<le> p)
     \<and> changed h0 h (insert d (set (tree_items t))) (set (tree_texts t))"

lemma literals_kept: "wf_heap h0 \<Longrightarrow> kept h0 h I \<Longrightarrow> literals h0 lit \<Longrightarrow> literals h lit"
  using kept_c_text by (simp add: literals_def)

lemma literal_name: "literals h lit \<Longrightarrow> s \<in> set literal_words \<Longrightarrow> makes_string h (lit s) \<and> c_text h (lit s) = Some (cstr s)"
  by (simp add: literals_def makes_string_def)

context json_maker begin

lemma built_add:
  assumes w: "wf_heap h0" and ok: "\<forall>k. h_ok h0 k" and l: "literals h0 lit" "s \<in> set literal_words"
    and b: "built h0 h d t v" and x: "fit h0 x"
  shows "\<exists>p h' t'. do { r \<leftarrow> create x h; add_or_delete (root t) (lit s) r } = Some (p, h') \<and> root t' = root t
    \<and> built h0 h' d t' (add_child v (member s (val h0 x)))"
proof -
  have k: "kept h0 h {}" and t: "owns h t" and dl: "owns h (leaf h d)" using b by (simp_all add: built_def)
  have wh: "wf_heap h" "\<forall>k. h_ok h k" "brk h0 \<le> brk h" using k ok by (auto simp: kept_def grown_def)
  have tx: "texts h q = texts h0 q" if "q < brk h0" for q using k that by (simp add: kept_def)
  have f: "fit h x" "val h x = val h0 x" using stable [OF w tx x] by auto
  note nm = literal_name [OF literals_kept [OF w k l(1)] l(2)]
  obtain p h' t' where r: "do { r \<leftarrow> create x h; add_or_delete (root t) (lit s) r } = Some (p, h')" "owns h' t'" "root t' = root t"
      "shape h' t' = add_child (shape h t) (set_string (c_text h (lit s)) (val h x))"
      "set (tree_items t) \<subseteq> set (tree_items t')" "\<forall>p \<in> set (tree_items t'). p \<in> set (tree_items t) \<or> brk h \<le> p"
      "set (tree_texts t) \<subseteq> set (tree_texts t')" "\<forall>q \<in> set (tree_texts t'). q \<in> set (tree_texts t) \<or> brk h \<le> q"
      "kept h h' (set (tree_items t))" "changed h h' (set (tree_items t')) (set (tree_texts t'))"
    using owns_add [OF wh(1) t f(1) conjunct1 [OF nm] wh(2)] by blast
  have db: "d < brk h" using viewed_below [OF wh(1), of "leaf h d" d] dl by (simp add: owns_def)
  have nd: "d \<notin> set (tree_items t')" using r(6) db b by (auto simp: built_def)
  have d': "owns h' (leaf h d)" "shape h' (leaf h d) = shape h (leaf h d)"
    using kept_owns [OF wh(1) r(9) dl] b by (simp_all add: built_def)
  have ld: "load h' d = load h d" using kept_load [OF r(9) db] b by (simp add: built_def)
  have "\<forall>p \<in> set (tree_items t). brk h0 \<le> p" using b by (simp add: built_def)
  then have "kept h0 h' {}" by (intro kept_trans [OF k r(9)]) fastforce
  moreover have "changed h0 h' (insert d (set (tree_items t'))) (set (tree_texts t'))"
    using b r(5,7) by (intro changed_trans [OF _ changed_mono [OF r(10)]]) (auto simp: built_def)
  moreover have "\<forall>p \<in> insert d (set (tree_items t')) \<union> set (tree_texts t'). brk h0 \<le> p"
    using b r(6,8) wh(3) by (fastforce simp: built_def)
  moreover have "shape h' t' = add_child v (member s (val h0 x))" using r(4) f(2) nm b by (simp add: built_def)
  ultimately have "built h0 h' d t' (add_child v (member s (val h0 x)))"
    using r(2) d' nd b unfolding built_def ld by (simp del: shape.simps)
  then show ?thesis using r(1,3) by blast
qed

end

lemma built_start:
  assumes w: "wf_heap h0" and ok: "\<forall>k. h_ok h0 k"
  shows "\<exists>h1 h2. cJSON_CreateObject h0 = (brk h0, h1) \<and> brk h0 \<noteq> NULL
    \<and> cJSON_CreateObject h1 = (Suc (brk h0), h2) \<and> built h0 h2 (Suc (brk h0)) (leaf h2 (brk h0)) empty_object"
proof -
  obtain h1 where a: "cJSON_CreateObject h0 = (brk h0, h1)" "brk h0 \<noteq> NULL" "owns h1 (leaf h1 (brk h0))" "kept h0 h1 {}"
    "brk h1 = Suc (brk h0)" "shape h1 (leaf h1 (brk h0)) = empty_object" "tree_texts (leaf h1 (brk h0)) = []" "changed h0 h1 {brk h0} {}"
    using CreateObject_owns [OF w ok] by blast
  have w1: "wf_heap h1" "\<forall>k. h_ok h1 k" using a(4) ok by (auto simp: kept_def grown_def)
  obtain h2 where b: "cJSON_CreateObject h1 = (brk h1, h2)" "owns h2 (leaf h2 (brk h1))" "kept h1 h2 {}"
    "shape h2 (leaf h2 (brk h1)) = empty_object" "tree_texts (leaf h2 (brk h1)) = []" "string_ptr (the (load h2 (brk h1))) = NULL"
    "changed h1 h2 {brk h1} {}"
    using CreateObject_owns [OF w1] by blast
  have l: "load h2 (brk h0) = load h1 (brk h0)" using kept_load [OF b(3)] a(5) by simp
  then have "leaf h2 (brk h0) = leaf h1 (brk h0)" by simp
  then have "owns h2 (leaf h2 (brk h0))" "shape h2 (leaf h2 (brk h0)) = empty_object" "tree_texts (leaf h2 (brk h0)) = []"
    using kept_owns [OF w1(1) b(3) a(3)] a(6,7) by simp_all
  moreover have "kept h0 h2 {}" using kept_trans [OF a(4) b(3)] by simp
  moreover have "changed h0 h2 {brk h1, brk h0} {}" using changed_trans [OF a(8) changed_mono [OF b(7)], of "{brk h1, brk h0}" "{}"] by auto
  ultimately have "built h0 h2 (Suc (brk h0)) (leaf h2 (brk h0)) empty_object"
    using b a(5) unfolding built_def by simp
  then show ?thesis using a b by auto
qed

lemma AddString_null:
  \<comment> \<open>a null string is not added\<close>
  assumes w: "wf_heap h" and ok: "\<forall>k. h_ok h k"
  shows "\<exists>h'. cJSON_AddStringToObject object name NULL h = Some (NULL, h') \<and> same_objects h h' \<and> grown h h'"
proof -
  let ?f = "\<lambda>n. n\<lparr>ntype := cJSON_String\<rparr>" and ?g = "\<lambda>n. n\<lparr>valuestring_ptr := NULL\<rparr>"
  show ?thesis
  proof (cases rule: create_item_cases [OF w, of ?f])
    case (1 h1)
    then show ?thesis using ok by simp
  next
    case (2 h1)
    have ld: "load h1 (brk h) = Some (?f zero_node)" using 2(2,3) by (simp add: load_def)
    have "upd (brk h) ?g h1 = h1" using 2(3) by (simp add: upd_def zero_node_def fun_upd_idem)
    then have st: "store (brk h) ?g h1 = Some h1" using ld by (simp add: store_def)
    let ?h2 = "erase {brk h} {} h1"
    have del: "h_delete (brk h) h1 = Some ?h2"
      using h_delete_tree [of h1 "Tree (brk h) (?f zero_node) []"] ld
      by (simp add: separate_def own_texts_def zero_node_def)
    have "h_delete NULL ?h2 = Some ?h2" by (subst h_delete.simps) simp
    then have "cJSON_AddStringToObject object name NULL h = Some (NULL, ?h2)"
      using 2(1,2) st del by (simp add: cJSON_AddStringToObject_def cJSON_CreateString_def create_text_def cJSON_strdup_def
        add_or_delete_def add_item_to_object_def)
    moreover have "same_objects h ?h2"
      using w 2(3,4) by (auto simp: same_objects_def erase_def wf_heap_def fun_eq_iff)
    moreover have "grown h ?h2" using 2(7) by (auto simp: grown_def wf_heap_def erase_def)
    ultimately show ?thesis by blast
  qed
qed

lemma built_same:
  assumes w: "wf_heap h0" and b: "built h0 h d t v" and s: "same_objects h h'" "grown h h'"
  shows "built h0 h' d t v"
proof -
  have wh: "wf_heap h" using b by (simp add: built_def kept_def grown_def)
  have k: "kept h h' {}" using s by (simp add: kept_def same_objects_def)
  have l: "load h' = load h" using s(1) by (simp add: load_def fun_eq_iff same_objects_def)
  have "kept h0 h' {}" using b by (intro kept_trans [OF _ k]) (simp_all add: built_def)
  then show ?thesis using b kept_owns [OF wh k] s(1) unfolding built_def changed_def same_objects_def l by (auto simp del: shape.simps)
qed

lemma built_data:
  assumes w: "wf_heap h0" and ok: "\<forall>k. h_ok h0 k" and l: "literals h0 lit" and b: "built h0 h d t v"
  shows "\<exists>h1 p h2 u. cJSON_AddItemToObject (root t) (lit ''DATA'') d h = Some h1
    \<and> cJSON_AddNumberToObject d (lit ''CMDID'') x h1 = Some (p, h2) \<and> whole h2 u \<and> root u = root t
    \<and> shape h2 u = add_child v (CJ cJSON_Object None 0 d_zero (Some (cstr ''DATA'')) [member ''CMDID'' (number_item x)])
    \<and> kept h0 h2 {} \<and> changed h0 h2 (set (tree_items u)) (set (tree_texts u))
    \<and> (\<forall>p \<in> set (tree_items u) \<union> set (tree_texts u). brk h0 \<le> p)"
proof -
  let ?d = "leaf h d"
  have k: "kept h0 h {}" and t: "owns h t" and dl: "owns h ?d" using b by (simp_all add: built_def)
  have wh: "wf_heap h" "\<forall>k. h_ok h k" "brk h0 \<le> brk h" using k ok by (auto simp: kept_def grown_def)
  have new: "\<forall>p \<in> set (tree_items t) \<union> set (tree_items ?d). brk h0 \<le> p" using b by (auto simp: built_def)
  have data: "makes_string h (lit ''DATA'') \<and> c_text h (lit ''DATA'') = Some (cstr ''DATA'')"
    using literal_name [OF literals_kept [OF w k l]] by (simp add: literal_words_def)
  have dj: "set (tree_items t) \<inter> set (tree_items ?d) = {}" "set (tree_texts t) \<inter> set (tree_texts ?d) = {}"
    and sd: "string_ptr (tnode ?d) = NULL" "shape h ?d = empty_object" "tree_texts ?d = []"
    using b by (auto simp: built_def simp del: shape.simps)
  obtain h1 t1 y where r: "add_item_to_object (root t) (lit ''DATA'') (root ?d) False h = Some (True, h1)" "owns h1 t1" "root t1 = root t"
      "shape h1 t1 = add_child (shape h t) (set_string (c_text h (lit ''DATA'')) (shape h ?d))"
      "set (tree_items t1) = set (tree_items t) \<union> set (tree_items ?d)"
      "set (tree_texts t1) = insert (brk h) (set (tree_texts t) \<union> set (tree_texts ?d))"
      "kids t1 = map (reroot h1) (kids t) @ [y]" "root y = root ?d" "kids y = kids ?d"
      "kept h h1 (set (tree_items t) \<union> set (tree_items ?d))" "changed h h1 (set (tree_items t1)) (set (tree_texts t1))"
    using owns_name [OF wh(1) t dl dj sd(1) conjunct1 [OF data] wh(2)] by (elim exE conjE) (rule that)
  define ts where "ts = map (reroot h1) (kids t)"
  obtain a n where t1: "t1 = Tree a n (ts @ [y])" using r(7) ts_def by (cases t1) auto
  have y: "root y = d" "kids y = []" "owns h1 y" using r(8,9) owns_last [OF r(2,7)] by simp_all
  have iy: "tree_items y = [d]" "tree_texts y = own_texts (tnode y)" using y(1,2) by (cases y; simp)+
  have w1: "wf_heap h1" "\<forall>k. h_ok h1 k" "brk h \<le> brk h1" using r(10) wh(2) by (auto simp: kept_def grown_def)
  have k1: "kept h0 h1 {}" using new by (intro kept_trans [OF k r(10)]) fastforce
  have cmd: "makes_string h1 (lit ''CMDID'') \<and> c_text h1 (lit ''CMDID'') = Some (cstr ''CMDID'')"
    using literal_name [OF literals_kept [OF w k1 l]] by (simp add: literal_words_def)
  obtain q h2 d2 where e: "do { r \<leftarrow> Some (cJSON_CreateNumber x h1); add_or_delete (root y) (lit ''CMDID'') r } = Some (q, h2)"
      "owns h2 d2" "root d2 = root y"
      "shape h2 d2 = add_child (shape h1 y) (set_string (c_text h1 (lit ''CMDID'')) (number_item x))"
      "set (tree_items y) \<subseteq> set (tree_items d2)" "\<forall>p \<in> set (tree_items d2). p \<in> set (tree_items y) \<or> brk h1 \<le> p"
      "set (tree_texts y) \<subseteq> set (tree_texts d2)" "\<forall>q \<in> set (tree_texts d2). q \<in> set (tree_texts y) \<or> brk h1 \<le> q"
      "kept h1 h2 (set (tree_items y))" "changed h1 h2 (set (tree_items d2)) (set (tree_texts d2))"
    using number_member.owns_add [OF w1(1) y(3) TrueI conjunct1 [OF cmd] w1(2), of "\<lambda>_. x"] by (elim exE conjE) (rule that)
  let ?u = "Tree a n (ts @ [d2])"
  note wl = whole_last [OF w1(1) r(2) [unfolded t1] e(2,3,6,8,9)]
  have sh: "shape h1 t1 = add_child v (CJ cJSON_Object None 0 d_zero (Some (cstr ''DATA'')) [])"
    using r(4) data b sd(2) by (simp add: built_def empty_object_def del: shape.simps)
  obtain ty vs vi vd st c where v: "v = CJ ty vs vi vd st c" by (cases v)
  have sy: "shape h1 y = CJ cJSON_Object None 0 d_zero (Some (cstr ''DATA'')) []"
    and sa: "shape h1 (Tree a n ts) = v" using sh unfolding t1 v by auto
  have "shape h2 ?u = add_child v (CJ cJSON_Object None 0 d_zero (Some (cstr ''DATA'')) [member ''CMDID'' (number_item x)])"
    using wl e(4) unfolding sa sy v by (simp add: cmd)
  moreover have "whole h2 ?u" "root ?u = root t" using wl t1 r(3) by simp_all
  moreover have "cJSON_AddItemToObject (root t) (lit ''DATA'') d h = Some h1" using r(1) by (simp add: cJSON_AddItemToObject_def)
  moreover have "cJSON_AddNumberToObject d (lit ''CMDID'') x h1 = Some (q, h2)" using e(1) y(1) by (simp add: cJSON_AddNumberToObject_def)
  moreover have "kept h0 h2 {}" using b iy(1) by (intro kept_trans [OF k1 e(9)]) (auto simp: built_def)
  moreover have sub: "set (tree_items t1) \<subseteq> set (tree_items ?u)" "set (tree_texts t1) \<subseteq> set (tree_texts ?u)"
    using e(5,7) unfolding t1 by auto
  moreover have "changed h0 h2 (set (tree_items ?u)) (set (tree_texts ?u))"
  proof -
    have "changed h0 h1 (set (tree_items t1)) (set (tree_texts t1))"
      using b r(5,6) by (intro changed_trans [OF _ r(11)]) (auto simp: built_def)
    moreover have "changed h1 h2 (set (tree_items ?u)) (set (tree_texts ?u))" by (rule changed_mono [OF e(10)]) auto
    ultimately show ?thesis using sub by (rule changed_trans)
  qed
  moreover have "\<forall>p \<in> set (tree_items ?u) \<union> set (tree_texts ?u). brk h0 \<le> p"
  proof -
    have "brk h0 \<le> p" if "p \<in> set (tree_items t1) \<union> set (tree_texts t1)" for p
      using that b wh(3) unfolding r(5,6) sd(3) by (auto simp: built_def)
    moreover have "p \<in> set (tree_items t1) \<union> set (tree_texts t1) \<or> brk h1 \<le> p"
      if "p \<in> set (tree_items ?u) \<union> set (tree_texts ?u)" for p
      using that e(6,8) unfolding t1 by auto
    ultimately show ?thesis using wh(3) w1(3) by (meson order.trans)
  qed
  ultimately show ?thesis by blast
qed

lemma heartbeat_valid:
  assumes "case uuid of None \<Rightarrow> True | Some u \<Rightarrow> c_string u"
  shows "valid (heartbeat uuid)"
proof -
  have "wf_double (double_of_int k)" for k by (simp add: double_of_int_def wf_round_ratio)
  then show ?thesis using assms
    by (cases uuid) (simp_all add: heartbeat_def string_item_def number_item_def cJSON_types DEVID_def byte_of_def)
qed

lemma add_literal:
  assumes "wf_heap h0" and "\<forall>k. h_ok h0 k" and "literals h0 lit" and "built h0 h d t v"
    and "{s, x} \<subseteq> set literal_words"
  shows "\<exists>p h' t'. cJSON_AddStringToObject (root t) (lit s) (lit x) h = Some (p, h') \<and> root t' = root t
    \<and> built h0 h' d t' (add_child v (member s (string_item (cstr x))))"
  using string_member.built_add [OF assms(1-3) _ assms(4), of s "lit x"] literal_name [OF assms(3), of x] assms(5)
  by (simp add: cJSON_AddStringToObject_def)

lemma add_number:
  assumes "wf_heap h0" and "\<forall>k. h_ok h0 k" and "literals h0 lit" and "built h0 h d t v" and "s \<in> set literal_words"
  shows "\<exists>p h' t'. cJSON_AddNumberToObject (root t) (lit s) x h = Some (p, h') \<and> root t' = root t
    \<and> built h0 h' d t' (add_child v (member s (number_item x)))"
  using number_member.built_add [OF assms(1-3,5,4) TrueI, of "\<lambda>_. x"]
  by (simp add: cJSON_AddNumberToObject_def)

lemma add_uuid:
  assumes w: "wf_heap h0" and ok: "\<forall>k. h_ok h0 k" and l: "literals h0 lit" and b: "built h0 h d t v"
    and u: "UUID = NULL \<or> makes_string h0 UUID"
  shows "\<exists>p h' t'. cJSON_AddStringToObject (root t) (lit ''MSGID'') UUID h = Some (p, h') \<and> root t' = root t
    \<and> built h0 h' d t' (case text_at h0 UUID of None \<Rightarrow> v | Some u \<Rightarrow> add_child v (member ''MSGID'' (string_item u)))"
proof (cases "UUID = NULL")
  case True
  have "wf_heap h" "\<forall>k. h_ok h k" using b ok by (auto simp: built_def kept_def grown_def)
  from AddString_null [OF this, of "root t" "lit ''MSGID''"] obtain h' where
    "cJSON_AddStringToObject (root t) (lit ''MSGID'') NULL h = Some (NULL, h')" "same_objects h h'" "grown h h'" by blast
  then show ?thesis using built_same [OF w b] True by (intro exI [of _ NULL] exI [of _ h'] exI [of _ t]) simp
next
  case False
  then have m: "makes_string h0 UUID" using u by simp
  then have "text_at h0 UUID = Some (the (c_text h0 UUID))" using text_at_c_text by (auto simp: makes_string_def)
  moreover have "''MSGID'' \<in> set literal_words" by (simp add: literal_words_def)
  ultimately show ?thesis using string_member.built_add [OF w ok l _ b m, of "''MSGID''"]
    by (simp add: cJSON_AddStringToObject_def)
qed

lemma xintiao_outcome:
  assumes w: "wf_heap h" and ok: "\<forall>k. h_ok h k" and l: "literals h lit" and u: "UUID = NULL \<or> makes_string h UUID"
  shows "\<exists>x str h'. xintiao lit g UUID h = Some (str, h') \<and> grown h h' \<and> items h' = items h
    \<and> render True 0 (heartbeat (text_at h UUID)) = Some x
    \<and> (if str = NULL then texts h' = texts h \<and> INT_LIMIT < length x + 2
       else brk h \<le> str \<and> texts h' = (texts h)(str \<mapsto> x @ [0]) \<and> c_string x)"
proof -
  have lw: "{''DEVID'', DEVID} \<subseteq> set literal_words" "{''TIME'', ''''} \<subseteq> set literal_words"
    "''MSGTYPE'' \<in> set literal_words" "''DEVTYPE'' \<in> set literal_words" by (simp_all add: literal_words_def)
  let ?d = "Suc (brk h)"
  obtain h1 h2 where s: "cJSON_CreateObject h = (brk h, h1)" "brk h \<noteq> NULL" "cJSON_CreateObject h1 = (?d, h2)"
    "built h h2 ?d (leaf h2 (brk h)) empty_object" using built_start [OF w ok] by blast
  obtain p3 h3 t3 where a3: "cJSON_AddStringToObject (brk h) (lit ''DEVID'') (lit DEVID) h2 = Some (p3, h3)" "root t3 = brk h"
    "built h h3 ?d t3 (add_child empty_object (member ''DEVID'' (string_item (cstr DEVID))))"
    using add_literal [OF w ok l s(4) lw(1)] by auto
  obtain p4 h4 t4 v4 where a4: "cJSON_AddStringToObject (brk h) (lit ''MSGID'') UUID h3 = Some (p4, h4)" "root t4 = brk h"
    "built h h4 ?d t4 v4" "v4 = (case text_at h UUID of None \<Rightarrow> add_child empty_object (member ''DEVID'' (string_item (cstr DEVID)))
       | Some u \<Rightarrow> add_child (add_child empty_object (member ''DEVID'' (string_item (cstr DEVID)))) (member ''MSGID'' (string_item u)))"
    using add_uuid [OF w ok l a3(3) u] a3(2) by auto
  obtain p5 h5 t5 where a5: "cJSON_AddStringToObject (brk h) (lit ''TIME'') (lit '''') h4 = Some (p5, h5)" "root t5 = brk h"
    "built h h5 ?d t5 (add_child v4 (member ''TIME'' (string_item (cstr ''''))))"
    using add_literal [OF w ok l a4(3) lw(2)] a4(2) by auto
  obtain p6 h6 t6 where a6: "cJSON_AddNumberToObject (brk h) (lit ''MSGTYPE'') (double_of_int 1) h5 = Some (p6, h6)" "root t6 = brk h"
    "built h h6 ?d t6 (add_child (add_child v4 (member ''TIME'' (string_item (cstr '''')))) (member ''MSGTYPE'' (number_item (double_of_int 1))))"
    using add_number [OF w ok l a5(3) lw(3)] a5(2) by metis
  obtain p7 h7 t7 v7 where a7: "cJSON_AddNumberToObject (brk h) (lit ''DEVTYPE'') (double_of_int 0) h6 = Some (p7, h7)" "root t7 = brk h"
    "built h h7 ?d t7 v7" "v7 = add_child (add_child (add_child v4 (member ''TIME'' (string_item (cstr ''''))))
       (member ''MSGTYPE'' (number_item (double_of_int 1)))) (member ''DEVTYPE'' (number_item (double_of_int 0)))"
    using add_number [OF w ok l a6(3) lw(4)] a6(2) by metis
  obtain h8 p9 h9 t where a9: "cJSON_AddItemToObject (brk h) (lit ''DATA'') ?d h7 = Some h8"
    "cJSON_AddNumberToObject ?d (lit ''CMDID'') (double_of_int 2) h8 = Some (p9, h9)" "whole h9 t" "root t = brk h"
    "shape h9 t = add_child v7 (CJ cJSON_Object None 0 d_zero (Some (cstr ''DATA'')) [member ''CMDID'' (number_item (double_of_int 2))])"
    "kept h h9 {}" "changed h h9 (set (tree_items t)) (set (tree_texts t))" "\<forall>p \<in> set (tree_items t) \<union> set (tree_texts t). brk h \<le> p"
    using built_data [OF w ok l a7(3), of "double_of_int 2"] a7(2) by metis
  have hb: "shape h9 t = heartbeat (text_at h UUID)"
    unfolding a9(5) a7(4) a4(4) by (cases "text_at h UUID") (simp_all add: heartbeat_def empty_object_def cstr_def)
  have "case text_at h UUID of None \<Rightarrow> True | Some u \<Rightarrow> c_string u"
    by (auto simp: text_at_def c_string_string_of_buf split: option.splits)
  then have v: "valid (shape h9 t)" unfolding hb by (rule heartbeat_valid)
  obtain x where x: "render True 0 (shape h9 t) = Some x" using valid_renders [OF v] by blast
  have w9: "wf_heap h9" "\<forall>k. h_ok h9 k" "brk h \<le> brk h9" using a9(6) ok by (auto simp: kept_def grown_def)
  obtain str h10 where pr: "h_print g (root t) h9 = Some (str, h10)" "items h10 = items h9" "grown h9 h10"
      "if str = NULL then texts h10 = texts h9 \<and> INT_LIMIT < length x + 2
       else str = brk h9 \<and> texts h10 = (texts h9)(brk h9 \<mapsto> x @ [0]) \<and> c_string x"
    using h_print_outcome [OF w9(1) a9(3) valid_printable [OF v] x w9(2)] by blast
  have k10: "kept h9 h10 {}" using pr(2-4) by (auto simp: kept_def split: if_splits)
  have "whole h10 t"
  proof -
    have "viewed h10 t" using viewed_frame [OF kept_texts [OF w9(1) k10]] load_items_cong [OF pr(2)] a9(3) by (auto simp: whole_def)
    then show ?thesis using a9(3) by (simp add: whole_def)
  qed
  from h_delete_whole [OF this] have del: "h_delete (brk h) h10 = Some (erase (set (tree_items t)) (set (tree_texts t)) h10)"
    (is "_ = Some ?h") by (simp add: a9(4))
  have run: "xintiao lit g UUID h = Some (str, ?h)"
    using s(1-3) a3(1) a4(1) a5(1) a6(1) a7(1) a9(1,2) pr(1) del by (simp add: xintiao_def a9(4))
  have none: "items h p = None \<and> texts h p = None" if "brk h \<le> p" for p using w that by (simp add: wf_heap_def)
  have "items ?h = items h" using a9(7,8) pr(2) none by (auto simp: erase_def changed_def fun_eq_iff)
  moreover have "grown h ?h" using a9(6) pr(3) by (auto simp: grown_def kept_def erase_def wf_heap_def)
  moreover have "texts ?h = (if str = NULL then texts h else (texts h)(str \<mapsto> x @ [0]))"
  proof -
    have tb: "brk h9 \<notin> set (tree_texts t)" using tree_texts_below [OF w9(1), of t "brk h9"] a9(3) by (auto simp: whole_def)
    show ?thesis using a9(7,8) pr(4) none tb by (auto simp: erase_def changed_def fun_eq_iff split: if_splits)
  qed
  ultimately show ?thesis using run x pr(4) w9(3) unfolding hb by (intro exI [of _ x] exI [of _ str] exI [of _ ?h]) auto
qed

subsection \<open>Looking up \<open>MSGID\<close>\<close>

definition msgid_of :: "cJSON \<Rightarrow> cJSON option" where
  \<comment> \<open>the first member of that name, in any case\<close>
  "msgid_of t = find (\<lambda>u. case jstring u of None \<Rightarrow> False | Some k \<Rightarrow> same_name False (cstr ''MSGID'') k) (jchild t)"

lemma find_name_any:
  \<comment> \<open>the lookup in any list of items, named or not\<close>
  "in_chain ts \<Longrightarrow> \<forall>t \<in> set ts. viewed h t \<Longrightarrow> c_text h name = Some s \<Longrightarrow> name \<noteq> NULL \<Longrightarrow>
   find_name h name False (first_or NULL (map root ts)) =
     Some (case find (\<lambda>t. case jstring (shape h t) of None \<Rightarrow> False | Some k \<Rightarrow> same_name False s k) ts of
             None \<Rightarrow> NULL | Some t \<Rightarrow> root t)"
proof (induction ts)
  case Nil
  then show ?case by (subst find_name.simps) simp
next
  case (Cons t ts)
  have v: "viewed h t" using Cons.prems by simp
  have l: "load h (root t) = Some (tnode t)" "root t \<noteq> NULL" using v viewed_load by auto
  have k: "key h (root t) = jstring (shape h t)" using v by (rule key_viewed)
  have IH: "find_name h name False (next_ptr (tnode t)) =
     Some (case find (\<lambda>t. case jstring (shape h t) of None \<Rightarrow> False | Some k \<Rightarrow> same_name False s k) ts of
             None \<Rightarrow> NULL | Some t \<Rightarrow> root t)" using Cons by auto
  show ?case
  proof (cases "jstring (shape h t)")
    case None
    then have "string_ptr (tnode t) = NULL" using k l v by (cases t) (auto simp: key_def split: if_splits)
    then have "name_differs h name False (tnode t) = Some True"
      by (simp add: name_differs_def case_insensitive_strcmp_def)
    then show ?thesis using l IH None by (subst find_name.simps) simp
  next
    case (Some kt)
    note d = name_differs_key [OF Cons.prems(3) k [unfolded Some] l(1) Cons.prems(4)]
    show ?thesis using l IH Some d by (subst find_name.simps) simp
  qed
qed

lemma find_map: "find P (map f xs) = map_option f (find (\<lambda>x. P (f x)) xs)"
  by (induction xs) auto

lemma GetObjectItem_msgid:
  assumes "whole h u" and "literals h lit"
  shows "\<exists>w. cJSON_GetObjectItem h (root u) (lit ''MSGID'') = Some (case w of None \<Rightarrow> NULL | Some x \<Rightarrow> root x)
    \<and> map_option (shape h) w = msgid_of (shape h u) \<and> set_option w \<subseteq> set (kids u)"
proof -
  obtain p n ts where u: "u = Tree p n ts" by (cases u)
  have v: "viewed h u" using assms(1) by (simp add: whole_def)
  have nm: "lit ''MSGID'' \<noteq> NULL" "c_text h (lit ''MSGID'') = Some (cstr ''MSGID'')"
    using assms(2) by (simp_all add: literals_def literal_words_def)
  let ?w = "find (\<lambda>t. case jstring (shape h t) of None \<Rightarrow> False | Some k \<Rightarrow> same_name False (cstr ''MSGID'') k) ts"
  have "find_name h (lit ''MSGID'') False (first_or NULL (map root ts)) = Some (case ?w of None \<Rightarrow> NULL | Some x \<Rightarrow> root x)"
    using v u nm by (intro find_name_any) auto
  then have "cJSON_GetObjectItem h (root u) (lit ''MSGID'') = Some (case ?w of None \<Rightarrow> NULL | Some x \<Rightarrow> root x)"
    using v u nm load_neq_NULL by (auto simp: cJSON_GetObjectItem_def get_object_item_def)
  moreover have "map_option (shape h) ?w = msgid_of (shape h u)" by (simp add: msgid_of_def u find_map)
  moreover have "set_option ?w \<subseteq> set (kids u)" using u by (auto simp: find_Some_iff)
  ultimately show ?thesis by blast
qed

subsection \<open>Processing a message\<close>

definition answers :: "cJSON option \<Rightarrow> bytes option list \<Rightarrow> bool" where
  \<comment> \<open>what is published for a message that was parsed to that item: the text of the heartbeat;
     a null pointer when that text has almost 2 GB\<close>
  "answers item msgs \<longleftrightarrow>
     (case Option.bind item msgid_of of None \<Rightarrow> msgs = []
      | Some u \<Rightarrow> \<exists>x. render True 0 (heartbeat (jvaluestring u)) = Some x
          \<and> (msgs = [Some x] \<or> msgs = [None] \<and> INT_LIMIT < length x + 2))"

lemma whole_frame:
  assumes "whole h t" and "items h' = items h" and "\<And>q. c_text h q \<noteq> None \<Longrightarrow> texts h' q = texts h q"
  shows "whole h' t"
  using assms(1) viewed_frame [OF assms(3)] load_items_cong [OF assms(2)] by (auto simp: whole_def)

lemma delete_placed:
  \<comment> \<open>what was put into the store is deleted\<close>
  assumes "wf_heap h" and "placed h h1 (set (tree_items u)) (set (tree_texts u))" and "whole h2 u" and "same_objects h1 h2"
  shows "\<exists>h'. h_delete (root u) h2 = Some h' \<and> same_objects h h'"
proof -
  have "items h p = None \<and> texts h p = None" if "brk h \<le> p" for p using assms(1) that by (simp add: wf_heap_def)
  moreover have "brk h \<le> p" if "p \<in> set (tree_items u) \<union> set (tree_texts u)" for p using placed_new [OF assms(2) that] by simp
  ultimately have "same_objects h (erase (set (tree_items u)) (set (tree_texts u)) h2)"
    using assms(2,4) by (auto simp: same_objects_def erase_def placed_def fun_eq_iff)
  then show ?thesis using h_delete_whole [OF assms(3)] by blast
qed

lemma process_outcome:
  assumes w: "wf_heap h" and ok: "\<forall>k. h_ok h k" and l: "literals h lit"
  shows "\<exists>item e m msgs h'. cJSON_Parse (Some (md_msg md @ [0])) (mem_of g h) = Some (item, e, m)
    \<and> process lit g md h = Some (msgs, h') \<and> same_objects h h' \<and> answers item msgs"
proof -
  have "0 \<in> set (md_msg md @ [0])" by simp
  from h_parse_outcome [OF w this, of g] obtain item e m where
    p: "cJSON_Parse (Some (md_msg md @ [0])) (mem_of g h) = Some (item, e, m)" and
    o: "case item of
       None \<Rightarrow> h_parse g (md_msg md @ [0]) h = Some (NULL, h\<lparr>h_calls := calls m\<rparr>)
     | Some t \<Rightarrow> \<exists>u h'. h_parse g (md_msg md @ [0]) h = Some (root u, h') \<and> whole h' u \<and> shape h' u = t \<and> valid t \<and> jstring t = None
         \<and> placed h h' (set (tree_items u)) (set (tree_texts u))" by blast
  show ?thesis
  proof (cases item)
    case None
    then show ?thesis using p o by (simp add: process_def answers_def same_objects_def)
  next
    case (Some t)
    then obtain u h1 where u: "h_parse g (md_msg md @ [0]) h = Some (root u, h1)" "whole h1 u" "shape h1 u = t"
      "placed h h1 (set (tree_items u)) (set (tree_texts u))" using o by auto
    have w1: "wf_heap h1" "\<forall>k. h_ok h1 k" "brk h \<le> brk h1" using u(4) ok by (auto simp: placed_def grown_def)
    have "c_text h1 q = c_text h q" if "c_text h q \<noteq> None" for q
      using placed_old [OF u(4) c_text_below [OF w that]] by (simp add: c_text_def)
    then have l1: "literals h1 lit" using l by (simp add: literals_def)
    have nz: "root u \<noteq> NULL" using u(2) viewed_load(2) by (auto simp: whole_def)
    obtain x where x: "cJSON_GetObjectItem h1 (root u) (lit ''MSGID'') = Some (case x of None \<Rightarrow> NULL | Some x \<Rightarrow> root x)"
      "map_option (shape h1) x = msgid_of t" "set_option x \<subseteq> set (kids u)" using GetObjectItem_msgid [OF u(2) l1] u(3) by blast
    show ?thesis
    proof (cases x)
      case None
      obtain h' where "h_delete (root u) h1 = Some h'" "same_objects h h'"
        using delete_placed [OF w u(4,2)] by (auto simp: same_objects_def)
      then show ?thesis using p u(1) x nz Some None by (simp add: process_def answers_def)
    next
      case (Some v)
      have v: "viewed h1 v" using x(3) Some u(2) viewed_kids by (auto simp: whole_def)
      note lv = viewed_load [OF v]
      let ?id = "valuestring_ptr (tnode v)"
      have "?id = NULL \<or> makes_string h1 ?id" using v by (cases v) (auto simp: makes_string_def)
      from xintiao_outcome [OF w1(1,2) l1 this, of g] obtain r str h2 where
        y: "xintiao lit g ?id h1 = Some (str, h2)" "grown h1 h2" "items h2 = items h1"
          "render True 0 (heartbeat (text_at h1 ?id)) = Some r"
          "if str = NULL then texts h2 = texts h1 \<and> INT_LIMIT < length r + 2
           else brk h1 \<le> str \<and> texts h2 = (texts h1)(str \<mapsto> r @ [0]) \<and> c_string r" by blast
      define msgs where "msgs = [if str = NULL then None else Some r]"
      have id: "text_at h1 ?id = jvaluestring (shape h1 v)" by (cases v) simp
      obtain h3 where f: "(if str = NULL then Some h2 else free_text str h2) = Some h3" "same_objects h1 h3"
      proof (cases "str = NULL")
        case True
        then show thesis using y(3,5) that [of h2] by (simp add: same_objects_def)
      next
        case False
        have "texts h1 str = None" using w1(1) y(5) False by (simp add: wf_heap_def)
        then show thesis using y(3,5) False that [of "h2\<lparr>texts := (texts h2)(str := None)\<rparr>"]
          by (auto simp: free_text_def same_objects_def fun_eq_iff)
      qed
      have tf: "text_field h2 str = Some (hd msgs)"
        using y(5) by (auto simp: text_field_def msgs_def c_text_def c_strlen_append)
      have "whole h3 u" using f(2) by (intro whole_frame [OF u(2)]) (simp_all add: same_objects_def)
      then obtain h' where d: "h_delete (root u) h3 = Some h'" "same_objects h h'"
        using delete_placed [OF w u(4) _ f(2)] by blast
      have "process lit g md h = Some (msgs, h')"
        using u(1) x(1) nz Some lv y(1) tf f(1) d(1) by (simp add: process_def msgs_def)
      moreover have "answers item msgs"
        using x(2) [symmetric] y(4,5) Some \<open>item = Some t\<close> id by (auto simp: answers_def msgs_def)
      ultimately show ?thesis using p d(2) by blast
    qed
  qed
qed

subsection \<open>Properties\<close>


text \<open>
  \<open>xintiao\<close> leaks when one of its two objects cannot be allocated: it returns a null pointer, and
  the other object stays in the store without anything that points to it.
\<close>

lemma xintiao_leaks:
  assumes "wf_heap h" and "h_ok h (h_calls h) \<noteq> h_ok h (Suc (h_calls h))"
  shows "\<exists>h'. xintiao lit g UUID h = Some (NULL, h') \<and> load h (brk h) = None
    \<and> load h' (brk h) = Some (zero_node\<lparr>ntype := cJSON_Object\<rparr>)"
  using assms
  by (cases "h_ok h (h_calls h)") (auto simp: xintiao_def cJSON_CreateObject_def create_item_def h_new_item_def h_allocate_def
    load_def wf_heap_def upd_def)

subsection \<open>A message\<close>

definition demo_literals :: heap where
  \<comment> \<open>a store with the literals at the addresses 1 to 9\<close>
  "demo_literals = \<lparr>items = (\<lambda>_. None), texts = (\<lambda>p. if 1 \<le> p \<and> p \<le> 9 then Some (cstr (literal_words ! (p - 1)) @ [0]) else None),
     brk = 10, h_ok = (\<lambda>_. True), h_calls = 0\<rparr>"

definition demo_lit :: "string \<Rightarrow> ptr" where
  "demo_lit s = the (map_of (zip literal_words [1..<10]) s)"

definition demo_message :: bytes where
  \<comment> \<open>\<open>{"MSGID":"7"}\<close>\<close>
  "demo_message = [123, 34, 77, 83, 71, 73, 68, 34, 58, 34, 55, 34, 125]"

lemma demo_literals_ok: "wf_heap demo_literals" "\<forall>k. h_ok demo_literals k" "literals demo_literals demo_lit"
proof -
  show "wf_heap demo_literals" "\<forall>k. h_ok demo_literals k" by (auto simp: wf_heap_def demo_literals_def)
  have "\<forall>s \<in> set literal_words. demo_lit s \<noteq> NULL \<and> c_text demo_literals (demo_lit s) = Some (cstr s)" by code_simp
  then show "literals demo_literals demo_lit" by (simp add: literals_def)
qed

definition no_callback :: mqtt_globals where
  "no_callback = \<lparr>p2psignal_cb = None, deliveredtoken = 0\<rparr>"


lemma xintiao_leaks_demo:
  "\<exists>h'. xintiao demo_lit (\<lambda>_. 0) NULL (demo_literals\<lparr>h_ok := \<lambda>k. k \<noteq> 1\<rparr>) = Some (NULL, h')
    \<and> load h' 10 = Some (zero_node\<lparr>ntype := cJSON_Object\<rparr>)"
proof -
  let ?h = "demo_literals\<lparr>h_ok := \<lambda>k. k \<noteq> 1\<rparr>"
  have "wf_heap ?h" "h_ok ?h (h_calls ?h) \<noteq> h_ok ?h (Suc (h_calls ?h))" "brk ?h = 10"
    using demo_literals_ok(1) by (simp_all add: wf_heap_def demo_literals_def)
  then show ?thesis using xintiao_leaks [of ?h demo_lit "\<lambda>_. 0" NULL] by auto
qed

end
