(* ===== verification/IniConfig.thy ===== *)
theory IniConfig
  imports CPrelude "HOL-Library.Monad_Syntax"
begin

text \<open>
  The start-up configuration: \<open>GetProfileString\<close> of \<open>Common.c\<close>, which looks a key up in an INI file
  line by line with buffers of fixed size, and its caller \<open>readInifile\<close> in \<open>main.cpp\<close>.  A store
  outside a buffer, or through a pointer that is none, is \<open>None\<close>.
\<close>

subsection \<open>The C library's part\<close>

fun fgets :: "nat \<Rightarrow> bytes \<Rightarrow> bytes \<times> bytes" where
  \<comment> \<open>at most \<open>n\<close> characters, up to a newline, and the rest of the file\<close>
  "fgets 0 s = ([], s)"
| "fgets (Suc n) [] = ([], [])"
| "fgets (Suc n) (c # s) = (if c = 10 then ([c], s) else (case fgets n s of (l, r) \<Rightarrow> (c # l, r)))"

definition isspace :: "u8 \<Rightarrow> bool" where
  "isspace c \<longleftrightarrow> c = 32 \<or> 9 \<le> c \<and> c \<le> 13"

definition scan_set :: "(u8 \<Rightarrow> bool) \<Rightarrow> bytes \<Rightarrow> bytes \<Rightarrow> bytes" where
  \<comment> \<open>\<open>sscanf (s, "%[^..]", old)\<close>: the characters before the first of the set, or \<open>old\<close> if there are none\<close>
  "scan_set stop s old = (case takeWhile (\<lambda>c. \<not> stop c) s of [] \<Rightarrow> old | r \<Rightarrow> r)"

definition scans_int :: "bytes \<Rightarrow> bool" where
  \<comment> \<open>does \<open>sscanf (s, "%d", p)\<close> store through \<open>p\<close>\<close>
  "scans_int s \<longleftrightarrow>
     (let r = dropWhile isspace s; r = (case r of c # r' \<Rightarrow> if c = 43 \<or> c = 45 then r' else r | [] \<Rightarrow> [])
      in case r of c # _ \<Rightarrow> 48 \<le> c \<and> c \<le> 57 | [] \<Rightarrow> False)"

subsection \<open>The lookup\<close>

definition KEYVALLEN :: nat where "KEYVALLEN = 100"

definition l_trim :: "bytes \<Rightarrow> bytes" where
  "l_trim s = dropWhile isspace s"

definition r_trim :: "bytes \<Rightarrow> bytes" where
  "r_trim s = rev (dropWhile isspace (rev s))"

definition a_trim :: "bytes \<Rightarrow> bytes" where
  "a_trim s = rev (dropWhile isspace (rev (l_trim s)))"

definition key_stop :: "u8 \<Rightarrow> bool" where
  \<comment> \<open>the set \<open>[^=|^ |^\t]\<close>\<close>
  "key_stop c \<longleftrightarrow> c \<in> {61, 124, 94, 32, 9}"

definition store_value :: "nat \<Rightarrow> bool \<Rightarrow> bytes \<Rightarrow> bytes \<Rightarrow> bytes option" where
  \<comment> \<open>what \<open>KeyVal\<close> holds, a buffer of \<open>cap\<close> bytes: the rest of the line, trimmed by way of a block of its
     length plus one if \<open>malloc\<close> succeeds; \<open>memset\<close> clears the size of a pointer, four bytes, of that block\<close>
  "store_value cap malloc_ok c KeyVal =
     (let v = scan_set (\<lambda>c. c = 10) c KeyVal
      in if cap \<le> length v then None
         else if \<not> malloc_ok then Some v
         else if length v + 1 < 4 then None
         else Some (if a_trim v \<noteq> [] then a_trim v else v))"

lemma fgets_shrinks: "0 < n \<Longrightarrow> s \<noteq> [] \<Longrightarrow> fgets n s = (l, r) \<Longrightarrow> length r < length s"
proof (induction n s arbitrary: l r rule: fgets.induct)
  case (3 n c s)
  then show ?case
    by (cases "n = 0 \<or> s = []"; cases n; cases s) (auto split: if_splits prod.splits)
qed simp_all

lemma fgets_rest: "0 < n \<Longrightarrow> (l, r) = fgets n s \<Longrightarrow> s \<noteq> [] \<Longrightarrow> length r < length s"
  using fgets_shrinks by metis

function profile_loop :: "bytes \<Rightarrow> bytes \<Rightarrow> nat \<Rightarrow> bool \<Rightarrow> bytes \<Rightarrow> nat \<Rightarrow> bytes \<Rightarrow> (nat \<times> bytes) option" where
  \<comment> \<open>the rest of the file, \<open>found\<close> (1 the section, 2 the key) and \<open>KeyVal\<close>\<close>
  "profile_loop appname KeyName cap malloc_ok s found KeyVal =
     (if s = [] then Some (found, KeyVal)
      else case fgets (KEYVALLEN - 1) s of (line, rest) \<Rightarrow>
        let continue = (\<lambda>found. profile_loop appname KeyName cap malloc_ok rest found KeyVal);
            buf = l_trim (string_of_buf line)
        in if buf = [] then continue found
           else if found = 0
           then (if hd buf \<noteq> 91 then continue found
                 else if take (length appname) buf = appname then continue 1
                 else continue found)
           else if hd buf = 35 then continue found
           else if hd buf = 91 then Some (found, KeyVal)
           else case dropWhile (\<lambda>c. c \<noteq> 61) buf of
               [] \<Rightarrow> continue found
             | _ # c \<Rightarrow>
                 let keyname = scan_set key_stop buf []
                 in if 32 \<le> length keyname then None
                    else if keyname = KeyName
                    then map_option (Pair 2) (store_value cap malloc_ok c KeyVal)
                    else continue found)"
  by pat_completeness auto
termination
  by (relation "measure (\<lambda>(_, _, _, _, s, _, _). length s)") (auto simp: KEYVALLEN_def dest: fgets_rest [of 99, simplified])

declare profile_loop.simps [simp del]

definition GetProfileString :: "bytes option \<Rightarrow> bytes \<Rightarrow> bytes \<Rightarrow> nat \<Rightarrow> bool \<Rightarrow> bytes \<Rightarrow> (int \<times> bytes) option" where
  \<comment> \<open>the file, if it can be opened; the result and what the caller's buffer of \<open>cap\<close> bytes holds\<close>
  "GetProfileString profile AppName KeyName cap malloc_ok KeyVal =
     (case profile of
        None \<Rightarrow> Some (-1, KeyVal)
      | Some s \<Rightarrow>
          let appname = [91] @ AppName @ [93]
          in if 32 \<le> length appname then None
             else map_option (\<lambda>(found, v). (if found = 2 then 0 else -1, v))
               (profile_loop appname KeyName cap malloc_ok s 0 KeyVal))"

subsection \<open>The caller\<close>

record settings =
  networkmod :: u32
  mediamod :: u32
  rtmpurl :: bytes
  rtpport :: bytes
  rtphost :: bytes
  wifissid :: bytes
  wifipass :: bytes

definition start_settings :: settings where
  \<comment> \<open>the initial values of the static variables\<close>
  "start_settings = \<lparr>networkmod = 1, mediamod = 0, rtmpurl = [], rtpport = [], rtphost = [], wifissid = [], wifipass = []\<rparr>"

definition readInifile :: "bytes option \<Rightarrow> bool \<Rightarrow> bytes \<Rightarrow> settings \<Rightarrow> settings option" where
  \<comment> \<open>the file; \<open>tmp\<close> is what the uninitialised local buffer holds.  The two calls of \<open>sscanf\<close> get the
     value of the variable for its address, so that a conversion stores somewhere else\<close>
  "readInifile profile malloc_ok tmp st =
     (let get = (\<lambda>key cap old. GetProfileString profile (cstr ''GENERAL'') (cstr key) cap malloc_ok old) in do {
        (_, tmp) \<leftarrow> get ''NETWORKMOD'' 32 tmp;
        if scans_int tmp then None else do {
        (_, tmp) \<leftarrow> get ''MEDIAMOD'' 32 tmp;
        if scans_int tmp then None else do {
        (_, url) \<leftarrow> get ''RTMPURL'' 256 (rtmpurl st);
        (_, port) \<leftarrow> get ''RTPPORT'' 32 (rtpport st);
        (_, host) \<leftarrow> get ''RTPHOST'' 32 (rtphost st);
        (_, ssid) \<leftarrow> get ''WIFISSID'' 32 (wifissid st);
        (_, pass) \<leftarrow> get ''WIFIPASS'' 32 (wifipass st);
        Some (st\<lparr>rtmpurl := url, rtpport := port, rtphost := host, wifissid := ssid, wifipass := pass\<rparr>) } } })"

subsection \<open>INI files\<close>

type_synonym ini = "(bytes \<times> (bytes \<times> bytes) list) list"

definition entry_text :: "bytes \<times> bytes \<Rightarrow> bytes" where
  "entry_text e = fst e @ [61] @ snd e @ [10]"

definition section_text :: "bytes \<times> (bytes \<times> bytes) list \<Rightarrow> bytes" where
  "section_text s = [91] @ fst s @ [93, 10] @ concat (map entry_text (snd s))"

definition ini_text :: "ini \<Rightarrow> bytes" where
  "ini_text ini = concat (map section_text ini)"

definition ini_lookup :: "ini \<Rightarrow> bytes \<Rightarrow> bytes \<Rightarrow> bytes option" where
  \<comment> \<open>in the first section of that name\<close>
  "ini_lookup ini app key = Option.bind (map_of ini app) (\<lambda>es. map_of es key)"

definition ini_entry :: "bytes \<times> bytes \<Rightarrow> bool" where
  \<comment> \<open>an entry that fits the code's buffers, as a trimmed line\<close>
  "ini_entry e \<longleftrightarrow> (case e of (k, v) \<Rightarrow>
     k \<noteq> [] \<and> length k < 32 \<and> (\<forall>c \<in> set k. c \<noteq> 0 \<and> \<not> key_stop c \<and> \<not> isspace c) \<and> hd k \<noteq> 35 \<and> hd k \<noteq> 91
     \<and> v \<noteq> [] \<and> 0 \<notin> set v \<and> 10 \<notin> set v \<and> \<not> isspace (hd v) \<and> \<not> isspace (last v)
     \<and> length k + length v + 2 < KEYVALLEN)"

definition value_fits :: "nat \<Rightarrow> bool \<Rightarrow> bytes \<Rightarrow> bool" where
  \<comment> \<open>the values the code can store: not longer than the buffer, and not shorter than a pointer\<close>
  "value_fits cap malloc_ok v \<longleftrightarrow> length v < cap \<and> (malloc_ok \<longrightarrow> 3 \<le> length v)"

definition ini_ok :: "ini \<Rightarrow> bool" where
  "ini_ok ini \<longleftrightarrow> (\<forall>(n, es) \<in> set ini. {0, 10, 93} \<inter> set n = {} \<and> length n + 3 < KEYVALLEN \<and> list_all ini_entry es)"

lemma fgets_line: "10 \<notin> set l \<Longrightarrow> length l < n \<Longrightarrow> fgets n (l @ 10 # s) = (l @ [10], s)"
proof (induction l arbitrary: n)
  case Nil
  then show ?case by (cases n) simp_all
next
  case (Cons c l)
  then show ?case by (cases n) auto
qed

lemma string_of_line: "0 \<notin> set l \<Longrightarrow> string_of_buf (l @ [10]) = l @ [10]"
  by (auto simp: string_of_buf_def takeWhile_eq_all_conv)

lemma entry_text_ne [simp]: "entry_text e \<noteq> []" by (simp add: entry_text_def)

lemma entry_line:
  assumes "ini_entry (k, v)"
  shows "fgets (KEYVALLEN - 1) (entry_text (k, v) @ s) = (k @ 61 # v @ [10], s)"
    "l_trim (string_of_buf (k @ 61 # v @ [10])) = k @ 61 # v @ [10]" "hd (k @ 61 # v @ [10]) = hd k"
    "dropWhile (\<lambda>c. c \<noteq> 61) (k @ 61 # v @ [10]) = 61 # v @ [10]" "scan_set key_stop (k @ 61 # v @ [10]) [] = k"
proof -
  from assms obtain c ks where k: "k = c # ks" by (cases k) (auto simp: ini_entry_def)
  have chars: "\<forall>c \<in> set k. c \<noteq> 0 \<and> \<not> key_stop c \<and> \<not> isspace c"
    and nv: "10 \<notin> set v" "0 \<notin> set v" and len: "length k + length v + 2 < KEYVALLEN"
    using assms by (simp_all add: ini_entry_def)
  have "isspace 10" "key_stop 61" by (simp_all add: isspace_def key_stop_def)
  with chars have nk: "10 \<notin> set k" "0 \<notin> set k" "61 \<notin> set k" "\<not> isspace c" "\<forall>x \<in> set k. \<not> key_stop x"
    unfolding k by (blast, blast, blast, simp, blast)
  show "fgets (KEYVALLEN - 1) (entry_text (k, v) @ s) = (k @ 61 # v @ [10], s)"
    using fgets_line [of "k @ 61 # v" "KEYVALLEN - 1" s] nk nv len by (simp add: entry_text_def)
  have "string_of_buf (k @ 61 # v @ [10]) = k @ 61 # v @ [10]"
    using string_of_line [of "k @ 61 # v"] nk nv by simp
  then show "l_trim (string_of_buf (k @ 61 # v @ [10])) = k @ 61 # v @ [10]" using nk k by (simp add: l_trim_def)
  show "hd (k @ 61 # v @ [10]) = hd k" by (simp add: k)
  show "dropWhile (\<lambda>c. c \<noteq> 61) (k @ 61 # v @ [10]) = 61 # v @ [10]"
    using nk(3) by (subst dropWhile_append2) auto
  have "takeWhile (\<lambda>c. \<not> key_stop c) (k @ 61 # v @ [10]) = k"
    using nk(5) by (simp add: takeWhile_append key_stop_def)
  then show "scan_set key_stop (k @ 61 # v @ [10]) [] = k" by (simp add: scan_set_def k)
qed

lemma store_entry:
  assumes "ini_entry (k, v)"
  shows "store_value cap malloc_ok (v @ [10]) KeyVal = (if value_fits cap malloc_ok v then Some v else None)"
proof -
  have v: "v \<noteq> []" "10 \<notin> set v" "\<not> isspace (hd v)" "\<not> isspace (last v)" using assms by (auto simp: ini_entry_def)
  have "takeWhile (\<lambda>c. c \<noteq> 10) (v @ [10]) = v" using v(2) by (auto simp: takeWhile_append)
  then have "scan_set (\<lambda>c. c = 10) (v @ [10]) KeyVal = v" using v(1) by (simp add: scan_set_def split: list.split)
  moreover have "a_trim v = v"
  proof -
    have "dropWhile isspace v = v" using v(1,3) by (cases v) auto
    moreover have "dropWhile isspace (rev v) = rev v" using v(1,4) by (cases v rule: rev_cases) auto
    ultimately show ?thesis by (simp add: a_trim_def l_trim_def)
  qed
  ultimately show ?thesis using v(1) by (simp add: store_value_def value_fits_def)
qed

lemma loop_skips:
  \<comment> \<open>the entries of another section\<close>
  "list_all ini_entry es \<Longrightarrow> profile_loop appname key cap malloc_ok (concat (map entry_text es) @ s) 0 val
     = profile_loop appname key cap malloc_ok s 0 val"
proof (induction es)
  case (Cons e es)
  obtain k v where e: "e = (k, v)" by (cases e)
  have ok: "ini_entry (k, v)" using Cons.prems e by simp
  note l = entry_line [OF ok]
  have "hd k \<noteq> 91" using ok by (simp add: ini_entry_def)
  then show ?case using Cons l by (subst profile_loop.simps) (simp add: e Let_def)
qed simp

lemma loop_searches:
  "list_all ini_entry es \<Longrightarrow> profile_loop appname key cap malloc_ok (concat (map entry_text es) @ s) 1 val
     = (case map_of es key of None \<Rightarrow> profile_loop appname key cap malloc_ok s 1 val
        | Some v \<Rightarrow> if value_fits cap malloc_ok v then Some (2, v) else None)"
proof (induction es)
  case (Cons e es)
  obtain k v where e: "e = (k, v)" by (cases e)
  have ok: "ini_entry (k, v)" using Cons.prems e by simp
  note l = entry_line [OF ok]
  have "hd k \<noteq> 91" "hd k \<noteq> 35" "length k < 32" using ok by (simp_all add: ini_entry_def)
  then show ?case using Cons l store_entry [OF ok]
    by (subst profile_loop.simps) (simp add: e Let_def)
qed simp

lemma header_match:
  assumes "93 \<notin> set n" and "93 \<notin> set app"
  shows "take (length ([91 :: u8] @ app @ [93])) ([91] @ n @ [93, 10]) = [91] @ app @ [93] \<longleftrightarrow> n = app"
proof
  assume a: "take (length ([91] @ app @ [93])) ([91] @ n @ [93, 10]) = [91] @ app @ [93 :: u8]"
  then have t: "take (Suc (length app)) (n @ [93, 10]) = app @ [93]" by simp
  have "takeWhile (\<lambda>c. c \<noteq> 93) (take (Suc (length app)) (n @ [93, 10])) = takeWhile (\<lambda>c. c \<noteq> 93) (app @ [93 :: u8])"
    by (simp only: t)
  also have "\<dots> = app" using assms(2) by (subst takeWhile_append2) auto
  finally have w: "takeWhile (\<lambda>c. c \<noteq> 93) (take (Suc (length app)) (n @ [93, 10])) = app" .
  show "n = app"
  proof (cases "length n \<le> length app")
    case True
    then have "take (Suc (length app)) (n @ [93, 10]) = n @ 93 # take (length app - length n) [10]"
      by (simp add: take_Cons')
    then show ?thesis using w assms(1) by (auto simp: takeWhile_append split: if_splits)
  next
    case False
    then have "take (Suc (length app)) n = app @ [93]" using t by simp
    then have "93 \<in> set (take (Suc (length app)) n)" by simp
    then show ?thesis using assms(1) by (meson in_set_takeD)
  qed
qed simp

lemma header_line:
  assumes "{0, 10, 93} \<inter> set n = {}" and "length n + 3 < KEYVALLEN"
  shows "fgets (KEYVALLEN - 1) ([91] @ n @ [93, 10] @ s) = ([91] @ n @ [93, 10], s)"
    "l_trim (string_of_buf ([91] @ n @ [93, 10])) = [91] @ n @ [93, 10]"
proof -
  show "fgets (KEYVALLEN - 1) ([91] @ n @ [93, 10] @ s) = ([91] @ n @ [93, 10], s)"
    using fgets_line [of "[91] @ n @ [93]" "KEYVALLEN - 1" s] assms by simp
  show "l_trim (string_of_buf ([91] @ n @ [93, 10])) = [91] @ n @ [93, 10]"
    using string_of_line [of "[91] @ n @ [93]"] assms by (simp add: l_trim_def isspace_def)
qed

lemma loop_finds:
  assumes "93 \<notin> set app"
  shows "ini_ok ini \<Longrightarrow> profile_loop ([91] @ app @ [93]) key cap malloc_ok (ini_text ini) 0 val
    = (case ini_lookup ini app key of
         None \<Rightarrow> Some (if map_of ini app = None then 0 else 1, val)
       | Some v \<Rightarrow> if value_fits cap malloc_ok v then Some (2, v) else None)"
proof (induction ini)
  case Nil
  then show ?case by (subst profile_loop.simps) (simp add: ini_text_def ini_lookup_def)
next
  case (Cons sec ini)
  obtain n es where sec: "sec = (n, es)" by (cases sec)
  have ok: "{0, 10, 93} \<inter> set n = {}" "length n + 3 < KEYVALLEN" "list_all ini_entry es" "ini_ok ini"
    using Cons.prems by (auto simp: sec ini_ok_def)
  let ?rest = "concat (map entry_text es) @ ini_text ini"
  have s: "ini_text (sec # ini) = [91] @ n @ [93, 10] @ ?rest" by (simp add: ini_text_def section_text_def sec)
  have step: "profile_loop ([91] @ app @ [93]) key cap malloc_ok (ini_text (sec # ini)) 0 val
      = profile_loop ([91] @ app @ [93]) key cap malloc_ok ?rest (if n = app then 1 else 0) val"
    unfolding s using header_line [OF ok(1,2)] header_match [OF _ assms, of n] ok(1)
    by (subst profile_loop.simps) (simp add: Let_def)
  show ?case
  proof (cases "n = app")
    case False
    then show ?thesis using step loop_skips [OF ok(3)] Cons.IH [OF ok(4)] by (simp add: sec ini_lookup_def)
  next
    case True
    have "profile_loop ([91] @ app @ [93]) key cap malloc_ok (ini_text ini) 1 val = Some (1, val)"
    proof (cases ini)
      case Nil
      then show ?thesis by (subst profile_loop.simps) (simp add: ini_text_def)
    next
      case (Cons x y)
      obtain m fs where x: "x = (m, fs)" by (cases x)
      have "{0, 10, 93} \<inter> set m = {}" "length m + 3 < KEYVALLEN" using ok(4) by (auto simp: Cons x ini_ok_def)
      note h = header_line [OF this]
      have "ini_text ini = [91] @ m @ [93, 10] @ concat (map entry_text fs) @ ini_text y"
        by (simp add: ini_text_def section_text_def Cons x)
      then show ?thesis using h by (subst profile_loop.simps) (simp add: Let_def)
    qed
    then show ?thesis using step loop_searches [OF ok(3)] True by (simp add: sec ini_lookup_def split: option.split)
  qed
qed

subsection \<open>What the lookup returns\<close>

lemma lookup_result:
  assumes "ini_ok ini" and "93 \<notin> set app" and "length app < 30"
  shows "GetProfileString (Some (ini_text ini)) app key cap malloc_ok val
    = (case ini_lookup ini app key of
         None \<Rightarrow> Some (-1, val)
       | Some v \<Rightarrow> if value_fits cap malloc_ok v then Some (0, v) else None)"
  using loop_finds [OF assms(2,1)] assms(3) by (simp add: GetProfileString_def split: option.split)


definition sample_ini :: ini where
  "sample_ini = [(cstr ''WIFI'', [(cstr ''RTMPURL'', cstr ''other'')]),
     (cstr ''GENERAL'', [(cstr ''RTMPURL'', cstr ''rtmp://host/live x''), (cstr ''MEDIAMOD'', cstr ''1'')])]"

lemma sample_ini_ok: "ini_ok sample_ini" by code_simp


definition setting :: "ini \<Rightarrow> string \<Rightarrow> bytes \<Rightarrow> bytes" where
  \<comment> \<open>the value of a key of the section \<open>GENERAL\<close>, or \<open>old\<close>\<close>
  "setting ini key old = (case ini_lookup ini (cstr ''GENERAL'') (cstr key) of None \<Rightarrow> old | Some v \<Rightarrow> v)"

definition setting_fits :: "ini \<Rightarrow> bool \<Rightarrow> string \<times> nat \<Rightarrow> bool" where
  "setting_fits ini malloc_ok kc = (case kc of (key, cap) \<Rightarrow>
     case ini_lookup ini (cstr ''GENERAL'') (cstr key) of None \<Rightarrow> True | Some v \<Rightarrow> value_fits cap malloc_ok v)"

definition settings_fit :: "ini \<Rightarrow> bool \<Rightarrow> bool" where
  "settings_fit ini malloc_ok = list_all (setting_fits ini malloc_ok)
     [(''NETWORKMOD'', 32), (''MEDIAMOD'', 32), (''RTMPURL'', 256), (''RTPPORT'', 32), (''RTPHOST'', 32),
      (''WIFISSID'', 32), (''WIFIPASS'', 32)]"

lemma get_setting:
  assumes "ini_ok ini"
  shows "GetProfileString (Some (ini_text ini)) (cstr ''GENERAL'') (cstr key) cap malloc_ok old =
    (if setting_fits ini malloc_ok (key, cap)
     then Some (case ini_lookup ini (cstr ''GENERAL'') (cstr key) of None \<Rightarrow> -1 | Some _ \<Rightarrow> 0, setting ini key old)
     else None)"
proof -
  have "(93 :: u8) \<notin> set (cstr ''GENERAL'')" "length (cstr ''GENERAL'') < 30" by code_simp+
  note get = lookup_result [OF assms this]
  show ?thesis
    unfolding get setting_fits_def setting_def
    by (cases "ini_lookup ini (cstr ''GENERAL'') (cstr key)") (simp_all del: cstr_Cons)
qed


definition general_ini :: "(bytes \<times> bytes) list \<Rightarrow> ini" where
  "general_ini es = [(cstr ''GENERAL'', (cstr ''WIFISSID'', cstr ''camera'') # es)]"


end
