(* ===== verification/Config.thy ===== *)
theory Config
  imports CPrelude
begin

text \<open>
  The persistent configuration of \<open>config.cpp\<close>: the packed structure \<open>CFGDATA\<close>, its backup, and the
  file.  The kernel's part of a call is a parameter: the descriptor that \<open>open\<close> gives and the number
  of bytes that \<open>read\<close> or \<open>write\<close> move.
\<close>

subsection \<open>The structure and its bytes\<close>

record CFGDATA =
  runcount :: u32
  checkstart :: u32
  network_mod :: u8
  cfg_rtmpurl :: bytes
  checkend :: u32

definition CHECKSTART :: u32 where "CHECKSTART = 9423434"
definition CHEKEND :: u32 where "CHEKEND = 342134"

definition le32 :: "u32 \<Rightarrow> bytes" where
  "le32 w = [ucast w, ucast (drop_bit 8 w), ucast (drop_bit 16 w), ucast (drop_bit 24 w)]"

definition of_le32 :: "bytes \<Rightarrow> u32" where
  "of_le32 b = ucast (b ! 0) OR push_bit 8 (ucast (b ! 1)) OR push_bit 16 (ucast (b ! 2)) OR push_bit 24 (ucast (b ! 3))"

definition cfg_bytes :: "CFGDATA \<Rightarrow> bytes" where
  "cfg_bytes d = le32 (runcount d) @ le32 (checkstart d) @ [network_mod d] @ cfg_rtmpurl d @ le32 (checkend d)"

definition cfg_of_bytes :: "bytes \<Rightarrow> CFGDATA" where
  "cfg_of_bytes b = \<lparr>runcount = of_le32 (take 4 b), checkstart = of_le32 (take 4 (drop 4 b)), network_mod = b ! 8,
     cfg_rtmpurl = take 128 (drop 9 b), checkend = of_le32 (take 4 (drop 137 b))\<rparr>"

definition sizeof_CFGDATA :: nat where "sizeof_CFGDATA = 141"

definition zero_cfg :: CFGDATA where
  "zero_cfg = \<lparr>runcount = 0, checkstart = 0, network_mod = 0, cfg_rtmpurl = replicate 128 0, checkend = 0\<rparr>"

definition default_cfg :: CFGDATA where
  "default_cfg = zero_cfg\<lparr>checkstart := CHECKSTART, checkend := CHEKEND, network_mod := 0\<rparr>"

definition checks :: "CFGDATA \<Rightarrow> bool" where
  "checks d \<longleftrightarrow> checkstart d = CHECKSTART \<and> checkend d = CHEKEND"

subsection \<open>The kernel\<close>

type_synonym io = "int \<times> nat"

definition open_file :: "bool \<Rightarrow> int \<Rightarrow> bytes option \<Rightarrow> int \<times> bytes option" where
  \<comment> \<open>\<open>O_RDWR\<close>, or with \<open>O_CREAT | O_TRUNC\<close>\<close>
  "open_file create fd f =
     (if fd < 0 then (-1, f) else if create then (fd, Some []) else if f = None then (-1, f) else (fd, f))"

definition read_file :: "io \<Rightarrow> bytes option \<Rightarrow> bytes" where
  "read_file io f = (if 0 < fst io then take (min (snd io) sizeof_CFGDATA) (case f of None \<Rightarrow> [] | Some b \<Rightarrow> b) else [])"

definition write_file :: "io \<Rightarrow> bytes \<Rightarrow> bytes option \<Rightarrow> bytes option" where
  \<comment> \<open>to an empty file\<close>
  "write_file io b f = (if 0 < fst io then Some (take (snd io) b) else f)"

subsection \<open>The operations\<close>

record cfg_state =
  cfgdata :: CFGDATA
  cfgdata_bak :: CFGDATA
  cfg_file :: "bytes option"

fun memcmp_from :: "bytes \<Rightarrow> bytes \<Rightarrow> nat \<Rightarrow> int" where
  \<comment> \<open>of two objects of at least \<open>n\<close> bytes\<close>
  "memcmp_from (x # s1) (y # s2) (Suc n) = (if x \<noteq> y then -1 else memcmp_from s1 s2 n)"
| "memcmp_from _ _ _ = 0"

definition mymemcmp :: "bytes \<Rightarrow> bytes \<Rightarrow> nat \<Rightarrow> int" where
  "mymemcmp s1 s2 n = memcmp_from s1 s2 n"

definition savecfg :: "io \<Rightarrow> cfg_state \<Rightarrow> cfg_state" where
  "savecfg io st =
     (if mymemcmp (cfg_bytes (cfgdata st)) (cfg_bytes (cfgdata_bak st)) sizeof_CFGDATA = 0 then st
      else case open_file True (fst io) (cfg_file st) of (fd, f) \<Rightarrow>
        if fd \<noteq> 0
        then st\<lparr>cfg_file := write_file (fd, snd io) (cfg_bytes (cfgdata st)) f, cfgdata_bak := cfgdata st\<rparr>
        else st\<lparr>cfg_file := f\<rparr>)"

definition readcfg :: "io \<Rightarrow> io \<Rightarrow> cfg_state \<Rightarrow> cfg_state" where
  \<comment> \<open>with the kernel's parts of the read and of the save\<close>
  "readcfg io io' st =
     (case open_file False (fst io) (cfg_file st) of (fd, f) \<Rightarrow>
        let got = (if fd \<noteq> 0 then read_file (fd, snd io) f else []);
            data = cfg_of_bytes (got @ drop (length got) (cfg_bytes zero_cfg));
            st = (if checkstart data = CHECKSTART \<and> checkend data = CHEKEND then st\<lparr>cfgdata := data\<rparr>
                  else savecfg io' (st\<lparr>cfgdata := default_cfg\<rparr>))
        in st\<lparr>cfgdata_bak := cfgdata st\<rparr>)"

definition getCfg :: "(CFGDATA \<Rightarrow> CFGDATA) \<Rightarrow> cfg_state \<Rightarrow> cfg_state" where
  \<comment> \<open>the caller changes the structure through the pointer\<close>
  "getCfg change st = st\<lparr>cfgdata := change (cfgdata st)\<rparr>"

subsection \<open>Lemmas\<close>

lemma le32_length [simp]: "length (le32 w) = 4" by (simp add: le32_def)

lemma of_le32_le32 [simp]: "of_le32 (le32 w) = w"
proof (rule bit_word_eqI)
  fix n assume "n < LENGTH(32)"
  then show "bit (of_le32 (le32 w)) n = bit w n"
    by (cases "n < 8"; cases "n < 16"; cases "n < 24") (auto simp: le32_def of_le32_def bit_simps)
qed

lemma no_bit: "8 \<le> n \<Longrightarrow> \<not> bit (x :: u8) n"
  using bit_imp_le_length [of x n] by auto

lemma le32_of_le32: "length b = 4 \<Longrightarrow> le32 (of_le32 b) = b"
proof -
  assume "length b = 4"
  then obtain p q r s where b: "b = [p, q, r, s]"
    by (auto simp: length_Suc_conv numeral_eq_Suc)
  let ?w = "of_le32 b"
  have "bit ?w n = bit p n" "bit ?w (8 + n) = bit q n" "bit ?w (16 + n) = bit r n" "bit ?w (24 + n) = bit s n" if "n < 8" for n
    using that by (auto simp: b of_le32_def bit_simps no_bit)
  then have "ucast ?w = p" "ucast (drop_bit 8 ?w) = q" "ucast (drop_bit 16 ?w) = r" "ucast (drop_bit 24 ?w) = s"
    by (auto intro!: bit_word_eqI simp: bit_simps)
  then show ?thesis by (simp add: le32_def b)
qed

lemma memcmp_eq: "length s1 = n \<Longrightarrow> length s2 = n \<Longrightarrow> memcmp_from s1 s2 n = 0 \<longleftrightarrow> s1 = s2"
  by (induction s1 s2 n rule: memcmp_from.induct) auto

definition cfg_ok :: "CFGDATA \<Rightarrow> bool" where
  \<comment> \<open>the length of the character array\<close>
  "cfg_ok d \<longleftrightarrow> length (cfg_rtmpurl d) = 128"

lemma cfg_bytes_length: "cfg_ok d \<Longrightarrow> length (cfg_bytes d) = sizeof_CFGDATA"
  by (simp add: cfg_bytes_def cfg_ok_def sizeof_CFGDATA_def)

lemma cfg_of_bytes_bytes: "cfg_ok d \<Longrightarrow> cfg_of_bytes (cfg_bytes d) = d"
  by (simp add: cfg_of_bytes_def cfg_bytes_def cfg_ok_def nth_append)

lemma cfg_bytes_eq: "cfg_ok d \<Longrightarrow> cfg_ok e \<Longrightarrow> cfg_bytes d = cfg_bytes e \<longleftrightarrow> d = e"
  using cfg_of_bytes_bytes by metis

lemma mymemcmp_cfg: "cfg_ok d \<Longrightarrow> cfg_ok e \<Longrightarrow> mymemcmp (cfg_bytes d) (cfg_bytes e) sizeof_CFGDATA = 0 \<longleftrightarrow> d = e"
  using memcmp_eq cfg_bytes_length cfg_bytes_eq by (metis mymemcmp_def)

subsection \<open>What a file stands for\<close>

definition loaded :: "bytes \<Rightarrow> CFGDATA" where
  \<comment> \<open>the structure after a file is read into it in full, a short one leaving the zeros\<close>
  "loaded b = cfg_of_bytes (take sizeof_CFGDATA b @ replicate (sizeof_CFGDATA - length b) 0)"

definition stored :: "bytes option \<Rightarrow> CFGDATA" where
  \<comment> \<open>the configuration that a file stands for\<close>
  "stored f = (case f of None \<Rightarrow> default_cfg | Some b \<Rightarrow> if checks (loaded b) then loaded b else default_cfg)"

lemma default_ok [simp]: "cfg_ok default_cfg" "checks default_cfg" "cfg_ok zero_cfg" "\<not> checks zero_cfg"
  by (simp_all add: cfg_ok_def checks_def default_cfg_def zero_cfg_def CHECKSTART_def)

lemma zero_not_default: "default_cfg \<noteq> zero_cfg"
  using default_ok(2,4) by metis

lemma zero_bytes: "cfg_bytes zero_cfg = replicate sizeof_CFGDATA 0" by code_simp

lemma got_loaded:
  "cfg_of_bytes (take sizeof_CFGDATA b @ drop (length (take sizeof_CFGDATA b)) (cfg_bytes zero_cfg)) = loaded b"
  by (simp add: loaded_def zero_bytes min_def)

lemma loaded_bytes: "cfg_ok d \<Longrightarrow> sizeof_CFGDATA \<le> n \<Longrightarrow> loaded (take n (cfg_bytes d)) = d"
  using cfg_bytes_length [of d] cfg_of_bytes_bytes [of d] by (simp add: loaded_def)

lemma loaded_ok: "cfg_ok (loaded b)"
proof -
  have "length x = sizeof_CFGDATA \<Longrightarrow> cfg_ok (cfg_of_bytes x)" for x
    by (simp add: cfg_of_bytes_def cfg_ok_def sizeof_CFGDATA_def)
  then show ?thesis by (simp add: loaded_def)
qed

lemma stored_ok [simp]: "cfg_ok (stored f)" "checks (stored f)"
  by (auto simp: stored_def loaded_ok split: option.split)

definition complete :: "io \<Rightarrow> bool" where
  \<comment> \<open>a call that the kernel carries out in full\<close>
  "complete io \<longleftrightarrow> 0 < fst io \<and> sizeof_CFGDATA \<le> snd io"

definition boot :: "bytes option \<Rightarrow> cfg_state" where
  \<comment> \<open>a new process: its static variables are zero\<close>
  "boot f = \<lparr>cfgdata = zero_cfg, cfgdata_bak = zero_cfg, cfg_file = f\<rparr>"

definition in_step :: "cfg_state \<Rightarrow> bool" where
  \<comment> \<open>between the operations: the backup is what the file stands for\<close>
  "in_step st \<longleftrightarrow> cfg_ok (cfgdata st) \<and> checks (cfgdata st) \<and> cfgdata_bak st = stored (cfg_file st)"

lemma savecfg_complete:
  assumes "complete io" and "cfg_ok (cfgdata st)" and "cfg_ok (cfgdata_bak st)"
  shows "savecfg io st = (if cfgdata st = cfgdata_bak st then st
    else st\<lparr>cfg_file := Some (cfg_bytes (cfgdata st)), cfgdata_bak := cfgdata st\<rparr>)"
  using assms cfg_bytes_length [OF assms(2)]
  by (simp add: savecfg_def mymemcmp_cfg open_file_def write_file_def complete_def)

lemma savecfg_in_step:
  assumes "complete io" and "in_step st"
  shows "in_step (savecfg io st)" "cfgdata (savecfg io st) = cfgdata st" "stored (cfg_file (savecfg io st)) = cfgdata st"
proof -
  have ok: "cfg_ok (cfgdata st)" "checks (cfgdata st)" "cfg_ok (cfgdata_bak st)" "cfgdata_bak st = stored (cfg_file st)"
    using assms(2) by (auto simp: in_step_def)
  have "stored (Some (cfg_bytes (cfgdata st))) = cfgdata st"
    using loaded_bytes [OF ok(1), of sizeof_CFGDATA] cfg_bytes_length [OF ok(1)] ok(2) by (simp add: stored_def)
  then show "in_step (savecfg io st)" "cfgdata (savecfg io st) = cfgdata st" "stored (cfg_file (savecfg io st)) = cfgdata st"
    using ok by (auto simp: savecfg_complete [OF assms(1) ok(1,3)] in_step_def)
qed

lemma read_complete:
  \<comment> \<open>the descriptor, the file and what is read\<close>
  assumes "complete io"
  shows "\<exists>fd. open_file False (fst io) f = (fd, f) \<and> fd \<noteq> 0
    \<and> read_file (fd, snd io) f = (case f of None \<Rightarrow> [] | Some b \<Rightarrow> take sizeof_CFGDATA b)"
  using assms by (auto simp: open_file_def read_file_def complete_def min_def split: option.split)

lemma readcfg_complete:
  assumes "complete io" and "complete io'"
  shows "in_step (readcfg io io' (boot f))" "cfgdata (readcfg io io' (boot f)) = stored f"
    "stored (cfg_file (readcfg io io' (boot f))) = stored f"
proof -
  let ?got = "case f of None \<Rightarrow> [] | Some b \<Rightarrow> take sizeof_CFGDATA b"
  let ?data = "cfg_of_bytes (?got @ drop (length ?got) (cfg_bytes zero_cfg))"
  have data: "?data = (case f of None \<Rightarrow> zero_cfg | Some b \<Rightarrow> loaded b)"
    using got_loaded cfg_of_bytes_bytes [of zero_cfg] by (simp split: option.split)
  have r: "readcfg io io' (boot f) =
      (let st = (if checks ?data then (boot f)\<lparr>cfgdata := ?data\<rparr> else savecfg io' ((boot f)\<lparr>cfgdata := default_cfg\<rparr>))
       in st\<lparr>cfgdata_bak := cfgdata st\<rparr>)"
    using read_complete [OF assms(1), of f] by (auto simp: readcfg_def boot_def checks_def Let_def)
  have "checks ?data \<Longrightarrow> ?data = stored f" and "\<not> checks ?data \<Longrightarrow> stored f = default_cfg"
    unfolding data by (simp_all add: stored_def split: option.splits)
  moreover have "savecfg io' ((boot f)\<lparr>cfgdata := default_cfg\<rparr>)
      = \<lparr>cfgdata = default_cfg, cfgdata_bak = default_cfg, cfg_file = Some (cfg_bytes default_cfg)\<rparr>"
    using zero_not_default by (subst savecfg_complete [OF assms(2)]) (auto simp: boot_def)
  moreover have "stored (Some (cfg_bytes default_cfg)) = default_cfg"
    using loaded_bytes [of default_cfg sizeof_CFGDATA] cfg_bytes_length [of default_cfg] by (simp add: stored_def)
  ultimately show "in_step (readcfg io io' (boot f))" "cfgdata (readcfg io io' (boot f)) = stored f"
    "stored (cfg_file (readcfg io io' (boot f))) = stored f"
    unfolding r by (cases "checks ?data"; simp add: Let_def in_step_def boot_def)+
qed

subsection \<open>Histories\<close>

datatype cfg_event = Edit u32 u8 bytes | Save io | Restart io io

definition edit :: "u32 \<Rightarrow> u8 \<Rightarrow> bytes \<Rightarrow> CFGDATA \<Rightarrow> CFGDATA" where
  \<comment> \<open>the caller sets the fields that are its own\<close>
  "edit r m u d = d\<lparr>runcount := r, network_mod := m, cfg_rtmpurl := u\<rparr>"

fun cfg_step :: "cfg_event \<Rightarrow> cfg_state \<Rightarrow> cfg_state" where
  "cfg_step (Edit r m u) st = getCfg (edit r m u) st"
| "cfg_step (Save io) st = savecfg io st"
| "cfg_step (Restart io io') st = readcfg io io' (boot (cfg_file st))"

fun cfg_promise :: "cfg_event \<Rightarrow> CFGDATA \<times> CFGDATA \<Rightarrow> CFGDATA \<times> CFGDATA" where
  \<comment> \<open>the abstract specification: the current configuration and the persistent one\<close>
  "cfg_promise (Edit r m u) (c, p) = (edit r m u c, p)"
| "cfg_promise (Save _) (c, p) = (c, c)"
| "cfg_promise (Restart _ _) (c, p) = (p, p)"

fun orderly :: "cfg_event \<Rightarrow> bool" where
  \<comment> \<open>the kernel does what it is asked to, and the array has its size\<close>
  "orderly (Edit _ _ u) = (length u = 128)"
| "orderly (Save io) = complete io"
| "orderly (Restart io io') = (complete io \<and> complete io')"

definition cfg_view :: "cfg_state \<Rightarrow> CFGDATA \<times> CFGDATA" where
  "cfg_view st = (cfgdata st, stored (cfg_file st))"

lemma cfg_step_promise:
  assumes "in_step st" and "orderly e"
  shows "in_step (cfg_step e st)" "cfg_view (cfg_step e st) = cfg_promise e (cfg_view st)"
proof -
  have "in_step (cfg_step e st) \<and> cfg_view (cfg_step e st) = cfg_promise e (cfg_view st)"
  proof (cases e)
    case (Edit r m u)
    then show ?thesis using assms by (auto simp: getCfg_def edit_def in_step_def cfg_ok_def checks_def cfg_view_def)
  next
    case (Save io)
    then show ?thesis using assms savecfg_in_step [of io st] by (simp add: cfg_view_def)
  next
    case (Restart io io')
    then show ?thesis using assms readcfg_complete [of io io' "cfg_file st"] by (simp add: cfg_view_def)
  qed
  then show "in_step (cfg_step e st)" "cfg_view (cfg_step e st) = cfg_promise e (cfg_view st)" by blast+
qed

lemma cfg_history:
  "in_step st \<Longrightarrow> list_all orderly es \<Longrightarrow>
    in_step (fold cfg_step es st) \<and> cfg_view (fold cfg_step es st) = fold cfg_promise es (cfg_view st)"
  by (induction es arbitrary: st) (simp_all add: cfg_step_promise)



subsection \<open>A write that fails\<close>

lemma savecfg_saved: "cfg_ok (cfgdata t) \<Longrightarrow> cfgdata_bak t = cfgdata t \<Longrightarrow> savecfg io t = t"
  by (simp add: savecfg_def mymemcmp_cfg)

lemma check_word: "checks (loaded b) \<Longrightarrow> 140 \<le> length b"
proof (rule ccontr)
  assume c: "checks (loaded b)" and "\<not> 140 \<le> length b"
  then have short: "length b < 140" by simp
  let ?z = "take sizeof_CFGDATA b @ replicate (sizeof_CFGDATA - length b) 0"
  have len: "length (take 4 (drop 137 ?z)) = 4" by (simp add: sizeof_CFGDATA_def)
  have "take 4 (drop 137 ?z) = le32 CHEKEND"
    using c le32_of_le32 [OF len] by (simp add: checks_def loaded_def cfg_of_bytes_def)
  then have "take 4 (drop 137 ?z) ! 2 = le32 CHEKEND ! 2" by simp
  moreover have "le32 CHEKEND ! 2 = 5" by code_simp
  moreover have "take 4 (drop 137 ?z) ! 2 = 0" using short by (auto simp: sizeof_CFGDATA_def nth_append)
  ultimately show False by simp
qed



end
