(* ===== verification/MainStart.thy ===== *)
theory MainStart
  imports MqttProcess IniConfig
begin

text \<open>
  What \<open>main\<close> starts, as the list of its calls up to the loop it ends in, from the settings that
  \<open>readInifile\<close> leaves.  The services behind the calls are other components, or the SDK.
\<close>

datatype callbacks = Rtsp_write | Rtmp_write | Rtpts_write

datatype call =
    Create_consumer
  | Readcfg
  | Serial_start
  | Hostapd                                \<comment> \<open>the access point\<close>
  | Nmgr_start                             \<comment> \<open>the mobile network\<close>
  | Sta_eth bytes bytes                    \<comment> \<open>a client of a wireless network\<close>
  | Reset_ts_session
  | Set_mqtt_clientid bytes
  | Set_p2psignal_callback
  | Initavenc
  | Register_mw "(callbacks \<times> nat) option"  \<comment> \<open>the writer and its channel, or a structure nobody has set\<close>
  | Pause_write bool
  | Av_start
  | Rtsp_start
  | Rtmp_setUrl bytes
  | Rtmp_start
  | Rtmp_startPush
  | New_rtp bytes int
  | Set_payloadtype

datatype ending = Sleep_loop | Read_loop | Returns

definition network_calls :: "settings \<Rightarrow> call list" where
  "network_calls st =
     (if networkmod st = 1 then [Hostapd]
      else if networkmod st = 0 then [Nmgr_start]
      else if networkmod st = 2 then [Sta_eth (wifissid st) (wifipass st)]
      else [])"

definition media_calls :: "int \<Rightarrow> settings \<Rightarrow> call list \<times> ending" where
  \<comment> \<open>\<open>port\<close>: what \<open>sscanf\<close> makes of \<open>rtpport\<close>, or leaves in the uninitialised \<open>__port\<close>\<close>
  "media_calls port st =
     (if mediamod st = 0
      then ([Register_mw (Some (Rtsp_write, 0)), Pause_write True, Av_start, Rtsp_start, Rtmp_startPush, Pause_write False], Sleep_loop)
      else if mediamod st = 1
      then ([Register_mw (Some (Rtmp_write, 1)), Rtmp_setUrl (rtmpurl st), Rtmp_start, Pause_write True, Av_start, Rtmp_startPush,
             Pause_write False], Sleep_loop)
      else if mediamod st = 2
      then ([New_rtp (rtphost st) port, Set_payloadtype, Register_mw None, Pause_write True, Av_start, Pause_write False], Read_loop)
      else ([], Returns))"

definition main_calls :: "bytes option \<Rightarrow> bool \<Rightarrow> bytes \<Rightarrow> int \<Rightarrow> settings \<Rightarrow> (call list \<times> ending) option" where
  "main_calls profile malloc_ok tmp port st = do {
     st \<leftarrow> readInifile profile malloc_ok tmp st;
     let (media, ending) = media_calls port st;
     Some ([Create_consumer, Readcfg, Serial_start] @ network_calls st
       @ [Reset_ts_session, Set_mqtt_clientid (cstr DEVID), Set_p2psignal_callback, Initavenc] @ media, ending) }"

definition rtsp_access_point :: "call list" where
  "rtsp_access_point = [Create_consumer, Readcfg, Serial_start, Hostapd, Reset_ts_session, Set_mqtt_clientid (cstr DEVID),
     Set_p2psignal_callback, Initavenc, Register_mw (Some (Rtsp_write, 0)), Pause_write True, Av_start, Rtsp_start,
     Rtmp_startPush, Pause_write False]"

lemma readInifile_modes:
  "readInifile profile malloc_ok tmp st = Some st' \<Longrightarrow> networkmod st' = networkmod st \<and> mediamod st' = mediamod st"
  by (auto simp: readInifile_def Let_def bind_eq_Some_conv split: if_splits)

text \<open>
  C37: the modes of the camera cannot be configured.  Whatever the configuration file holds, or if it cannot
  be opened, the program either performs a wrong store while it reads the file or starts as a wireless
  access point with the RTSP server on channel 0: the mobile network, the wireless client, the RTMP publisher
  and the RTP call are never started, and neither is the thread of the MQTT client or of the publisher
  that it tells to push.\<close>

theorem modes_cannot_be_configured:
  "main_calls profile malloc_ok tmp port start_settings \<in> {None, Some (rtsp_access_point, Sleep_loop)}"
proof (cases "readInifile profile malloc_ok tmp start_settings")
  case (Some st)
  then have "networkmod st = 1" "mediamod st = 0"
    using readInifile_modes [OF Some] by (simp_all add: start_settings_def)
  then show ?thesis using Some by (simp add: main_calls_def network_calls_def media_calls_def rtsp_access_point_def)
qed (simp add: main_calls_def)

theorem modes_cannot_be_configured_witness:
  \<comment> \<open>without a file, and with one that asks for the mobile network\<close>
  "main_calls None True [] 0 start_settings = Some (rtsp_access_point, Sleep_loop) \<and>
   main_calls (Some (ini_text (general_ini [(cstr ''NETWORKMOD'', cstr ''0'')]))) True [] 0 start_settings = None"
proof -
  have "main_calls None True [] 0 start_settings \<noteq> None"
    "main_calls (Some (ini_text (general_ini [(cstr ''NETWORKMOD'', cstr ''0'')]))) True [] 0 start_settings = None"
    by code_simp+
  then show ?thesis using modes_cannot_be_configured [of None True "[]" 0] by auto
qed

end
