(* ===== verification/Serial.thy ===== *)
theory Serial
  imports CPrelude "HOL-Library.Monad_Syntax"
begin

text \<open>
  The serial port: \<open>setup_port\<close> of \<open>serialport.cpp\<close> on the flag words of a \<open>termios\<close> structure, and the reading
  and echoing of \<open>SerialPortSrv.cpp\<close>.  What the kernel answers is a parameter.
\<close>

subsection \<open>Setting up the port\<close>

record termios =
  c_iflag :: u32
  c_oflag :: u32
  c_cflag :: u32
  c_lflag :: u32
  c_speed :: "nat option"   \<comment> \<open>\<open>None\<close>: as it was\<close>
  VTIME :: u8
  VMIN :: u8

definition speeds :: "nat list" where
  "speeds = [115200, 9600, 38400, 19200, 4800]"

definition set_data_bits :: "nat \<Rightarrow> u32 \<Rightarrow> u32" where
  \<comment> \<open>\<open>CS8\<close>, \<open>CS7\<close>\<close>
  "set_data_bits n c = (if n = 8 then c OR 0x30 else if n = 7 then c OR 0x20 else c)"

definition set_parity :: "u8 \<Rightarrow> u32 \<times> u32 \<Rightarrow> u32 \<times> u32" where
  \<comment> \<open>\<open>c_iflag\<close> with \<open>INPCK\<close> and \<open>ISTRIP\<close>, \<open>c_cflag\<close> with \<open>PARENB\<close> and \<open>PARODD\<close>\<close>
  "set_parity p = (\<lambda>(i, c).
     if p = byte_of (CHR ''N'') \<or> p = byte_of (CHR ''n'') then (i AND NOT 0x10, c AND NOT 0x100)
     else if p = byte_of (CHR ''O'') \<or> p = byte_of (CHR ''o'') then (i OR 0x30, c OR 0x300)
     else if p = byte_of (CHR ''E'') \<or> p = byte_of (CHR ''e'') then (i OR 0x30, (c OR 0x100) AND NOT 0x200)
     else (i, c))"

definition set_stop_bits :: "nat \<Rightarrow> u32 \<Rightarrow> u32" where
  \<comment> \<open>\<open>CSTOPB\<close>\<close>
  "set_stop_bits n c = (if n = 1 then c AND NOT 0x40 else if n = 2 then c OR 0x40 else c)"

definition setup_port :: "nat \<Rightarrow> nat \<Rightarrow> u8 \<Rightarrow> nat \<Rightarrow> termios \<Rightarrow> termios" where
  \<comment> \<open>from what \<open>tcgetattr\<close> gives to what \<open>tcsetattr\<close> gets\<close>
  "setup_port speed data_bits parity stop_bits opt =
     (let c = (c_cflag opt OR 0x880) AND NOT 0x30;                \<comment> \<open>\<open>CLOCAL | CREAD\<close>, \<open>CSIZE\<close>\<close>
          sp = (if speed \<in> set speeds then Some speed else c_speed opt);
          c = set_data_bits data_bits c
      in case set_parity parity (c_iflag opt, c) of (i, c) \<Rightarrow>
        let c = set_stop_bits stop_bits c
        in opt\<lparr>c_lflag := c_lflag opt AND NOT 0x1B,                 \<comment> \<open>\<open>ICANON | ECHO | ECHOE | ISIG\<close>\<close>
               c_oflag := c_oflag opt AND NOT 1,                    \<comment> \<open>\<open>OPOST\<close>\<close>
               c_cflag := c AND NOT 0x80000000,                     \<comment> \<open>\<open>CRTSCTS\<close>\<close>
               c_iflag := ((i AND NOT 0x1000) AND NOT 0x400) AND NOT 0x180,   \<comment> \<open>\<open>IXOFF\<close>, \<open>IXON\<close>, \<open>ICRNL | IGNCR\<close>\<close>
               c_speed := sp, VTIME := 1, VMIN := 0\<rparr>)"

lemma setup_port_8N1:
  \<comment> \<open>raw, 8 data bits, one stop bit; no parity\<close>
  assumes "p = byte_of (CHR ''N'')" and "r = setup_port 115200 8 p 1 opt"
  shows "c_speed r = Some 115200" "bit (c_cflag r) 4" "bit (c_cflag r) 5" "\<not> bit (c_cflag r) 6" "\<not> bit (c_cflag r) 8"
    "\<not> bit (c_lflag r) 1" "\<not> bit (c_oflag r) 0" "\<not> bit (c_iflag r) 8" "\<not> bit (c_iflag r) 10"
  using assms(2) unfolding assms(1)
  by (simp_all add: setup_port_def set_data_bits_def set_parity_def set_stop_bits_def speeds_def bit_simps)

lemma parity_untouched:
  \<comment> \<open>the caller asks for parity 1, which is no letter: the parity stays what it was\<close>
  "r = setup_port 115200 8 1 1 opt \<Longrightarrow> (bit (c_cflag r) 8 \<longleftrightarrow> bit (c_cflag opt) 8) \<and> (bit (c_iflag r) 4 \<longleftrightarrow> bit (c_iflag opt) 4)"
  by (simp add: setup_port_def set_data_bits_def set_parity_def set_stop_bits_def speeds_def bit_simps byte_of_def)

subsection \<open>Reading and echoing\<close>

definition serial_read :: "nat \<Rightarrow> nat \<Rightarrow> int \<Rightarrow> int \<times> bytes \<Rightarrow> (int \<times> bytes) option" where
  \<comment> \<open>the size of the caller's buffer, the length asked for, what \<open>select\<close> and \<open>read\<close> answer; \<open>None\<close> is a
     store outside one of the two buffers, which the length \<open>-1\<close>, taken as unsigned by \<open>memcpy\<close>, is too\<close>
  "serial_read room desire_get_len nfds rd =
     (if nfds = 0 then Some (0, [])
      else case rd of (nread, dat) \<Rightarrow>
        if nread < 0 then None
        else if 256 < length dat \<or> room < length dat then None
        else Some (nread, dat))"

definition serial_echo :: "int \<Rightarrow> int \<times> bytes \<Rightarrow> bytes option" where
  \<comment> \<open>the body of the loop of \<open>run\<close>: what is written back\<close>
  "serial_echo nfds rd = map_option snd (serial_read 256 256 nfds rd)"

definition read_answer :: "nat \<Rightarrow> int \<times> bytes \<Rightarrow> bool" where
  \<comment> \<open>what \<open>read\<close> may answer: an error, or at most as many bytes as it is asked for\<close>
  "read_answer n rd \<longleftrightarrow> (case rd of (nread, dat) \<Rightarrow> nread = -1 \<or> nread = int (length dat) \<and> length dat \<le> n)"

lemma serial_echo_result:
  \<comment> \<open>echoed, or a copy of \<open>SIZE_MAX\<close> bytes when \<open>read\<close> fails\<close>
  "read_answer 256 (nread, dat) \<Longrightarrow> serial_echo nfds (nread, dat)
    = (if nfds = 0 then Some [] else if nread = -1 then None else Some dat)"
  by (auto simp: serial_echo_def serial_read_def read_answer_def)

end
