(* ===== verification/RtmpPush.thy ===== *)
theory RtmpPush
  imports CPrelude
begin

text \<open>
  The RTMP publisher \<open>CRtmpPush\<close>: the thread \<open>run\<close>, the encoder threads that write frames, and the
  application that starts and stops it.  They share \<open>status\<close>, \<open>run_status\<close> and \<open>_rtmp\<close> without a lock
  (\<open>NO_THREAD_LOCK\<close>), so an event below is one access to a shared member, or one call of the RTMP
  library; the order of the events is free, and so are the library's answers, which are the
  arguments of the events.  A handle of the library is a number.
\<close>

subsection \<open>State\<close>

datatype push_status = CONNINIT | CONNECTED | CONNERR | STOPPUSH

datatype push_run = RUN_STATUS_START | RUN_STATUS_EXIT

datatype run_pc =
    R_switch      \<comment> \<open>at \<open>switch (status)\<close>\<close>
  | R_stop_test   \<comment> \<open>in case \<open>STOPPUSH\<close>\<close>
  | R_create      \<comment> \<open>in case \<open>CONNINIT\<close>, at \<open>srs_rtmp_create\<close>\<close>
  | R_connect     \<comment> \<open>at the calls that connect the handle\<close>
  | R_failed      \<comment> \<open>after \<open>init\<close> has failed\<close>
  | R_err         \<comment> \<open>in case \<open>CONNERR\<close>\<close>
  | R_retry       \<comment> \<open>before \<open>status = CONNINIT\<close>\<close>
  | R_exit_test   \<comment> \<open>at \<open>if (run_status == RUN_STATUS_EXIT)\<close>\<close>
  | R_stopped     \<comment> \<open>before \<open>status = STOPPUSH\<close>\<close>

datatype writer_pc =
    W_idle
  | W_load                \<comment> \<open>after the test of \<open>status\<close>\<close>
  | W_call "nat option"   \<comment> \<open>with the value of \<open>_rtmp\<close>\<close>
  | W_err                 \<comment> \<open>before \<open>status = CONNERR\<close>\<close>

datatype command = StartPush | StopPush

record push =
  status :: push_status
  run_status :: push_run
  rtmp :: "nat option"                      \<comment> \<open>\<open>_rtmp\<close>\<close>
  run_at :: run_pc
  writer_at :: "nat \<Rightarrow> writer_pc"
  exiting :: bool                           \<comment> \<open>\<open>stopPush\<close> is before its assignment\<close>
  returned :: "command list"                \<comment> \<open>the calls of the application that have returned\<close>
  handles :: "nat set"                      \<comment> \<open>created and not destroyed\<close>
  next_handle :: nat
  given :: "(nat option \<times> bool) list"       \<comment> \<open>what each write gave to the library, and whether it was such a handle\<close>

definition push_start :: push where
  \<comment> \<open>after the constructor and \<open>start\<close>\<close>
  "push_start = \<lparr>status = STOPPUSH, run_status = RUN_STATUS_EXIT, rtmp = None, run_at = R_switch, writer_at = (\<lambda>_. W_idle),
     exiting = False, returned = [], handles = {}, next_handle = 1, given = []\<rparr>"

subsection \<open>The threads\<close>

definition deinit :: "push \<Rightarrow> push" where
  "deinit s = (case rtmp s of None \<Rightarrow> s | Some h \<Rightarrow> s\<lparr>handles := handles s - {h}, rtmp := None\<rparr>)"

definition create_handle :: "bool \<Rightarrow> push \<Rightarrow> push" where
  \<comment> \<open>\<open>_rtmp = srs_rtmp_create (rtmp_url)\<close>\<close>
  "create_handle ok s =
     (if ok then s\<lparr>rtmp := Some (next_handle s), handles := insert (next_handle s) (handles s), next_handle := next_handle s + 1\<rparr>
      else s\<lparr>rtmp := None\<rparr>)"

definition run_step :: "bool \<Rightarrow> push \<Rightarrow> push" where
  \<comment> \<open>the thread's next access, \<open>ok\<close> the library's answer if it is a call\<close>
  "run_step ok s =
     (case run_at s of
        R_switch \<Rightarrow> s\<lparr>run_at := (case status s of STOPPUSH \<Rightarrow> R_stop_test | CONNINIT \<Rightarrow> R_create
                                  | CONNECTED \<Rightarrow> R_exit_test | CONNERR \<Rightarrow> R_err)\<rparr>
      | R_stop_test \<Rightarrow> (if run_status s = RUN_STATUS_START then s\<lparr>status := CONNINIT, run_at := R_switch\<rparr>
                        else s\<lparr>run_at := R_switch\<rparr>)
      | R_create \<Rightarrow> (create_handle ok s)\<lparr>run_at := if ok then R_connect else R_failed\<rparr>
      | R_connect \<Rightarrow> (if ok then s\<lparr>status := CONNECTED, run_at := R_exit_test\<rparr> else s\<lparr>run_at := R_failed\<rparr>)
      | R_failed \<Rightarrow> (deinit s)\<lparr>run_at := R_exit_test\<rparr>
      | R_err \<Rightarrow> (deinit s)\<lparr>run_at := R_retry\<rparr>
      | R_retry \<Rightarrow> s\<lparr>status := CONNINIT, run_at := R_exit_test\<rparr>
      | R_exit_test \<Rightarrow> (if run_status s = RUN_STATUS_EXIT then (deinit s)\<lparr>run_at := R_stopped\<rparr> else s\<lparr>run_at := R_switch\<rparr>)
      | R_stopped \<Rightarrow> s\<lparr>status := STOPPUSH, run_at := R_switch\<rparr>)"

definition write_step :: "nat \<Rightarrow> bool \<Rightarrow> push \<Rightarrow> push" where
  \<comment> \<open>\<open>writeH264RawData\<close> or \<open>writeAACRawData\<close> in the encoder thread \<open>t\<close>; \<open>ok\<close>: the library does not answer 1009\<close>
  "write_step t ok s =
     (case writer_at s t of
        W_idle \<Rightarrow> (if status s = CONNECTED then s\<lparr>writer_at := (writer_at s)(t := W_load)\<rparr> else s)
      | W_load \<Rightarrow> s\<lparr>writer_at := (writer_at s)(t := W_call (rtmp s))\<rparr>
      | W_call h \<Rightarrow> s\<lparr>writer_at := (writer_at s)(t := if ok then W_idle else W_err),
                     given := given s @ [(h, case h of None \<Rightarrow> False | Some x \<Rightarrow> x \<in> handles s)]\<rparr>
      | W_err \<Rightarrow> s\<lparr>status := CONNERR, writer_at := (writer_at s)(t := W_idle)\<rparr>)"

definition startPush :: "push \<Rightarrow> push" where
  "startPush s = s\<lparr>run_status := RUN_STATUS_START, returned := returned s @ [StartPush]\<rparr>"

definition stopPush :: "push \<Rightarrow> push" where
  \<comment> \<open>the test, or the assignment if the test has been made\<close>
  "stopPush s =
     (if exiting s then s\<lparr>run_status := RUN_STATUS_EXIT, exiting := False, returned := returned s @ [StopPush]\<rparr>
      else if status s = STOPPUSH then s\<lparr>returned := returned s @ [StopPush]\<rparr>
      else s\<lparr>exiting := True\<rparr>)"

datatype event = Run bool | Write nat bool | Control command

definition push_do :: "event \<Rightarrow> push \<Rightarrow> push" where
  \<comment> \<open>the application is one thread: a call that has begun ends before the next\<close>
  "push_do e s =
     (case e of
        Run ok \<Rightarrow> run_step ok s
      | Write t ok \<Rightarrow> write_step t ok s
      | Control c \<Rightarrow> (if exiting s \<or> c = StopPush then stopPush s else startPush s))"

definition after :: "event list \<Rightarrow> push" where
  "after es = fold push_do es push_start"

lemma after_Nil: "after [] = push_start"
  by (simp add: after_def)

lemma after_snoc: "after (es @ [e]) = push_do e (after es)"
  by (simp add: after_def)

lemma after_append: "after (es @ fs) = fold push_do fs (after es)"
  by (simp add: after_def)

locale event_invariant =
  fixes inv :: "push \<Rightarrow> bool" and allowed :: "event \<Rightarrow> bool"
  assumes at_start: "inv push_start"
    and kept: "inv s \<Longrightarrow> allowed e \<Longrightarrow> inv (push_do e s)"
begin

lemma always: "list_all allowed es \<Longrightarrow> inv (after es)"
  by (induction es rule: rev_induct) (auto simp: after_Nil after_snoc at_start kept)

end

subsection \<open>Handles\<close>

definition one_handle :: "push \<Rightarrow> bool" where
  "one_handle s \<longleftrightarrow> handles s = set_option (rtmp s)
     \<and> (status s = STOPPUSH \<longrightarrow> rtmp s = None)
     \<and> (status s = CONNINIT \<and> run_at s = R_switch \<longrightarrow> rtmp s = None)
     \<and> (run_at s \<in> {R_stop_test, R_create, R_retry, R_stopped} \<longrightarrow> rtmp s = None)
     \<and> (run_at s = R_exit_test \<and> status s = CONNINIT \<longrightarrow> rtmp s = None)
     \<and> (run_at s \<in> {R_create, R_connect, R_failed, R_err, R_retry} \<longrightarrow> status s \<noteq> STOPPUSH)"

lemmas push_ops = push_do_def run_step_def write_step_def startPush_def stopPush_def create_handle_def deinit_def

lemma one_handle_run: "one_handle s \<Longrightarrow> one_handle (run_step ok s)"
  by (cases "run_at s"; cases "rtmp s")
    (simp_all add: one_handle_def push_ops split: push_status.split)

lemma one_handle_write: "one_handle s \<Longrightarrow> one_handle (write_step t ok s)"
  by (cases "writer_at s t") (simp_all add: one_handle_def write_step_def)

lemma one_handle_kept: "one_handle s \<Longrightarrow> one_handle (push_do e s)"
proof (cases e)
  case (Control c)
  assume "one_handle s"
  then show ?thesis unfolding Control one_handle_def by (simp add: push_do_def startPush_def stopPush_def) blast
qed (simp_all add: push_do_def one_handle_run one_handle_write)

interpretation handles: event_invariant one_handle "\<lambda>_. True"
  by unfold_locales (simp add: one_handle_def push_start_def, rule one_handle_kept)

text \<open>
  C33: whatever the threads do in whatever order, at most one connection of the RTMP library is open, and it
  is the one that \<open>_rtmp\<close> names: none is leaked by a failed connection, a reconnection or a stop, and none
  is destroyed twice.  Once \<open>status\<close> is \<open>STOPPUSH\<close>, none is open.\<close>

theorem publisher_owns_handle:
  "handles (after es) = set_option (rtmp (after es)) \<and> (status (after es) = STOPPUSH \<longrightarrow> handles (after es) = {})"
  using handles.always [of es] by (auto simp: one_handle_def list_all_iff)

theorem publisher_owns_handle_witness:
  "let s = after [Control StartPush, Run True, Run True, Run True, Run True, Run True, Control StopPush, Control StopPush,
      Run True, Run True, Run True, Run True]
   in status s = STOPPUSH \<and> handles s = {}"
proof -
  let ?es = "[Control StartPush, Run True, Run True, Run True, Run True, Run True, Control StopPush, Control StopPush,
      Run True, Run True, Run True, Run True]"
  have "status (after ?es) = STOPPUSH" by code_simp
  then show ?thesis using publisher_owns_handle [of ?es] unfolding Let_def by blast
qed

subsection \<open>Writes\<close>

definition lone_writer :: "push \<Rightarrow> bool" where
  \<comment> \<open>as long as nobody stops the publisher and only thread 0 writes\<close>
  "lone_writer s \<longleftrightarrow> \<not> exiting s \<and> handles s = set_option (rtmp s) \<and> (\<forall>t. t \<noteq> 0 \<longrightarrow> writer_at s t = W_idle)
     \<and> run_at s \<noteq> R_stopped \<and> (run_at s = R_connect \<longrightarrow> rtmp s \<noteq> None)
     \<and> (run_status s = RUN_STATUS_EXIT \<longrightarrow> status s = STOPPUSH \<and> run_at s \<in> {R_switch, R_stop_test})
     \<and> (run_at s \<in> {R_stop_test, R_create} \<longrightarrow> status s \<noteq> CONNECTED)
     \<and> (status s = CONNECTED \<longrightarrow> rtmp s \<noteq> None \<and> run_at s \<in> {R_switch, R_exit_test})
     \<and> (writer_at s 0 \<noteq> W_idle \<longrightarrow> status s = CONNECTED)
     \<and> (\<forall>h. writer_at s 0 = W_call h \<longrightarrow> h = rtmp s)
     \<and> (\<forall>u \<in> set (given s). snd u)"

lemma lone_writer_run:
  "(run_at s = R_create \<longrightarrow> rtmp s = None) \<Longrightarrow> lone_writer s \<Longrightarrow> lone_writer (run_step ok s)"
  by (cases "run_at s"; cases "status s"; cases "rtmp s"; cases "run_status s") (simp_all add: lone_writer_def push_ops)

lemma lone_writer_write: "lone_writer s \<Longrightarrow> lone_writer (write_step 0 ok s)"
  by (cases "writer_at s 0"; cases "rtmp s"; cases "status s") (simp_all add: lone_writer_def write_step_def)

definition calm :: "event \<Rightarrow> bool" where
  "calm e \<longleftrightarrow> (case e of Run _ \<Rightarrow> True | Write t _ \<Rightarrow> t = 0 | Control c \<Rightarrow> c = StartPush)"

lemma lone_writer_kept: "one_handle s \<Longrightarrow> lone_writer s \<Longrightarrow> calm e \<Longrightarrow> lone_writer (push_do e s)"
proof (cases e)
  case (Control c)
  assume "lone_writer s" "calm e"
  then show ?thesis unfolding Control lone_writer_def by (simp add: push_do_def calm_def startPush_def stopPush_def)
next
  case (Run ok)
  assume "one_handle s" "lone_writer s"
  moreover from this(1) have "run_at s = R_create \<longrightarrow> rtmp s = None" by (simp add: one_handle_def)
  ultimately show ?thesis unfolding Run by (simp add: push_do_def lone_writer_run)
qed (simp add: push_do_def calm_def lone_writer_write)

interpretation writes: event_invariant "\<lambda>s. one_handle s \<and> lone_writer s" calm
  by unfold_locales (simp add: lone_writer_def one_handle_def push_start_def, simp add: lone_writer_kept one_handle_kept)

text \<open>
  C34: as long as a single thread writes frames and nobody calls \<open>stopPush\<close>, every write is given an open
  connection, through any number of broken connections and reconnections.\<close>

theorem lone_writer_is_safe:
  assumes "list_all calm es"
  shows "\<forall>u \<in> set (given (after es)). snd u"
  using writes.always [OF assms] by (simp add: lone_writer_def)

theorem lone_writer_is_safe_witness:
  \<comment> \<open>a write fails, the publisher reconnects, and the next one is given the new connection\<close>
  "let s = after [Control StartPush, Run True, Run True, Run True, Run True, Run True, Run True, Write 0 True, Write 0 True, Write 0 False,
      Write 0 True, Run True, Run True, Run True, Run True, Run True, Run True, Run True, Write 0 True, Write 0 True, Write 0 True]
   in map fst (given s) = [Some 1, Some 2] \<and> list_all snd (given s)"
proof -
  let ?es = "[Control StartPush, Run True, Run True, Run True, Run True, Run True, Run True, Write 0 True, Write 0 True, Write 0 False,
      Write 0 True, Run True, Run True, Run True, Run True, Run True, Run True, Run True, Write 0 True, Write 0 True, Write 0 True]"
  have "list_all calm ?es" by code_simp
  moreover have "map fst (given (after ?es)) = [Some 1, Some 2]" by code_simp
  ultimately show ?thesis using lone_writer_is_safe [of ?es] unfolding Let_def list_all_iff by blast
qed

text \<open>
  Without that there is no such promise.  With one writer and one call of \<open>stopPush\<close>, or with two writers
  and none, there is a run in which a write is given a connection that has been destroyed: between the test of
  \<open>status\<close> and the call, the publisher thread has closed it, at the request of the application or because of the
  other writer's error.\<close>

lemma write_after_destroy:
  "(Some 1, False) \<in> set (given (after
     [Control StartPush, Run True, Run True, Run True, Run True, Run True, Write 0 True, Write 0 True,
      Control StopPush, Control StopPush, Run True, Run True, Run True, Write 0 True]))
   \<and> (Some 1, False) \<in> set (given (after
     [Control StartPush, Run True, Run True, Run True, Run True, Run True, Run True, Write 0 True, Write 0 True,
      Write 1 True, Write 1 True, Write 1 False, Write 1 True, Run True, Run True, Write 0 True]))"
  by code_simp

subsection \<open>Starting and stopping\<close>


fun steps_left :: "run_pc \<Rightarrow> nat" where
  \<comment> \<open>the accesses of the publisher thread until it has stopped, at most\<close>
  "steps_left R_stop_test = 8"
| "steps_left R_switch = 7"
| "steps_left R_create = 6"
| "steps_left R_connect = 5"
| "steps_left R_failed = 4"
| "steps_left R_err = 4"
| "steps_left R_retry = 3"
| "steps_left R_exit_test = 2"
| "steps_left R_stopped = 1"

fun is_run :: "event \<Rightarrow> bool" where
  "is_run (Run _) \<longleftrightarrow> True"
| "is_run _ \<longleftrightarrow> False"

lemma run_comes_closer:
  assumes "run_status s = RUN_STATUS_EXIT" and "status s \<noteq> STOPPUSH"
  shows "run_status (run_step ok s) = RUN_STATUS_EXIT"
    "status (run_step ok s) = STOPPUSH \<or> steps_left (run_at (run_step ok s)) < steps_left (run_at s)"
  using assms by (cases "run_at s"; cases "status s"; cases "rtmp s"; simp add: push_ops)+

lemma others_keep_exit:
  assumes "run_status s = RUN_STATUS_EXIT" and "\<not> is_run e" and "e \<noteq> Control StartPush"
  shows "run_status (push_do e s) = RUN_STATUS_EXIT" "run_at (push_do e s) = run_at s"
proof -
  have "run_status (push_do e s) = RUN_STATUS_EXIT \<and> run_at (push_do e s) = run_at s"
  proof (cases e)
    case (Write t ok)
    then show ?thesis using assms by (cases "writer_at s t") (simp_all add: push_do_def write_step_def)
  next
    case (Control c)
    then show ?thesis using assms by (cases c) (simp_all add: push_do_def stopPush_def)
  qed (use assms in simp)
  then show "run_status (push_do e s) = RUN_STATUS_EXIT" "run_at (push_do e s) = run_at s" by blast+
qed

lemma stops_in_time:
  "run_status s = RUN_STATUS_EXIT \<Longrightarrow> Control StartPush \<notin> set es
    \<Longrightarrow> steps_left (run_at s) \<le> length (filter is_run es) \<or> status s = STOPPUSH
    \<Longrightarrow> \<exists>k \<le> length es. status (fold push_do (take k es) s) = STOPPUSH"
proof (induction es arbitrary: s)
  case Nil
  then show ?case by (cases "run_at s") auto
next
  case (Cons e es)
  show ?case
  proof (cases "status s = STOPPUSH")
    case False
    have "\<exists>k \<le> length es. status (fold push_do (take k es) (push_do e s)) = STOPPUSH"
    proof (cases "is_run e")
      case True
      then obtain ok where e: "e = Run ok" by (cases e) auto
      have "push_do e s = run_step ok s" by (simp add: e push_do_def)
      then show ?thesis using Cons.prems False run_comes_closer [OF Cons.prems(1) False, of ok] e
        by (intro Cons.IH) auto
    next
      case other: False
      then show ?thesis using Cons.prems False others_keep_exit [OF Cons.prems(1) other]
        by (intro Cons.IH) auto
    qed
    then obtain k where "k \<le> length es" "status (fold push_do (take k es) (push_do e s)) = STOPPUSH" by blast
    then show ?thesis by (intro exI [of _ "Suc k"]) simp
  qed (auto intro: exI [of _ 0])
qed


definition pushing :: "event list" where
  \<comment> \<open>started and connected\<close>
  "pushing = [Control StartPush, Run True, Run True, Run True, Run True, Run True, Run True]"


text \<open>
  A stop can be lost.  If the application stops the publisher before its thread has seen the start,
  \<open>stopPush\<close> finds \<open>status\<close> still at \<open>STOPPUSH\<close> and returns without effect: the last call to return is a stop, and
  the publisher connects and goes on, through broken connections too, until another stop.\<close>

lemma stop_is_lost:
  assumes "\<forall>c. Control c \<notin> set es"
  shows "let s = after ([Control StartPush, Control StopPush] @ es)
    in returned s = [StartPush, StopPush] \<and> run_status s = RUN_STATUS_START
      \<and> status (after ([Control StartPush, Control StopPush, Run True, Run True, Run True, Run True, Run True])) = CONNECTED"
proof -
  have "returned s = [StartPush, StopPush] \<and> run_status s = RUN_STATUS_START \<Longrightarrow> e \<in> set es \<Longrightarrow>
      returned (push_do e s) = [StartPush, StopPush] \<and> run_status (push_do e s) = RUN_STATUS_START" for e s
    using assms
    by (cases e; cases "run_at s"; cases "rtmp s")
      (auto simp: push_ops split: push_status.split writer_pc.split)
  then have keep: "set fs \<subseteq> set es \<Longrightarrow> returned s = [StartPush, StopPush] \<and> run_status s = RUN_STATUS_START \<Longrightarrow>
      returned (fold push_do fs s) = [StartPush, StopPush] \<and> run_status (fold push_do fs s) = RUN_STATUS_START" for fs s
    by (induction fs arbitrary: s) auto
  have "returned (after [Control StartPush, Control StopPush]) = [StartPush, StopPush]
      \<and> run_status (after [Control StartPush, Control StopPush]) = RUN_STATUS_START"
    "status (after ([Control StartPush, Control StopPush, Run True, Run True, Run True, Run True, Run True])) = CONNECTED"
    by code_simp+
  then show ?thesis using keep [of es "after [Control StartPush, Control StopPush]"]
    unfolding Let_def after_append by blast
qed

lemma stop_is_lost_witness:
  "returned (after ([Control StartPush, Control StopPush] @ [Run True, Run True])) = [StartPush, StopPush]"
  using stop_is_lost [of "[Run True, Run True]"] by (simp add: Let_def)

end
