(* ===== verification/H264File.thy ===== *)
theory H264File
  imports CPrelude "HOL-Library.Monad_Syntax"
begin

text \<open>
  The reader of H.264 files that feeds the RTSP server (\<open>rtsp_h264_file.cpp\<close>): it reads a window of the
  file into its buffer, looks for the start of a picture and then for the start of the next unit, hands
  out what is before it, and goes on from there; at the end it begins again.  A read outside the buffer
  is \<open>None\<close>.  Sizes are below \<open>2 ^ 31\<close>, so \<open>int\<close> is exact.
\<close>

subsection \<open>Start codes\<close>

definition start_code :: "bytes \<Rightarrow> nat \<Rightarrow> nat option option" where
  \<comment> \<open>the length of the start code at \<open>i\<close>, if there is one\<close>
  "start_code b i = do {
     x0 \<leftarrow> read_at b i;
     x1 \<leftarrow> read_at b (i + 1);
     x2 \<leftarrow> read_at b (i + 2);
     x3 \<leftarrow> read_at b (i + 3);
     Some (if x0 = 0 \<and> x1 = 0 \<and> x2 = 1 then Some 3
           else if x0 = 0 \<and> x1 = 0 \<and> x2 = 0 \<and> x3 = 1 then Some 4
           else None) }"

definition unit_type :: "u8 \<Rightarrow> u8" where
  "unit_type x = x AND 0x1F"

definition picture_starts :: "u8 \<Rightarrow> u8 \<Rightarrow> bool" where
  \<comment> \<open>a slice that is the first of its picture\<close>
  "picture_starts x y \<longleftrightarrow> (unit_type x = 5 \<or> unit_type x = 1) \<and> y AND 0x80 = 0x80"

definition access_starts :: "u8 \<Rightarrow> u8 \<Rightarrow> bool" where
  "access_starts x y \<longleftrightarrow> unit_type x = 7 \<or> unit_type x = 8 \<or> unit_type x = 6 \<or> picture_starts x y"

definition found_at :: "(u8 \<Rightarrow> u8 \<Rightarrow> bool) \<Rightarrow> bytes \<Rightarrow> nat \<Rightarrow> bool option" where
  \<comment> \<open>the body of the two loops\<close>
  "found_at test b i = do {
     code \<leftarrow> start_code b i;
     case code of
       None \<Rightarrow> Some False
     | Some startCode \<Rightarrow> do {
         x \<leftarrow> read_at b (i + startCode);
         y \<leftarrow> read_at b (i + startCode + 1);
         Some (test x y) } }"

function scan :: "(u8 \<Rightarrow> u8 \<Rightarrow> bool) \<Rightarrow> bytes \<Rightarrow> nat \<Rightarrow> nat \<Rightarrow> (nat \<times> bool) option" where
  \<comment> \<open>\<open>for (; i < bytesRead - 5; i++)\<close>: where it ends, and whether with \<open>break\<close>\<close>
  "scan test b bytesRead i =
     (if i + 5 < bytesRead
      then do { hit \<leftarrow> found_at test b i; if hit then Some (i, True) else scan test b bytesRead (i + 1) }
      else Some (i, False))"
  by pat_completeness auto
termination by (relation "measure (\<lambda>(_, _, n, i). n - i)") auto

declare scan.simps [simp del]

subsection \<open>The file\<close>

record h264file =
  m_file :: "bytes option"     \<comment> \<open>the contents, if it is open\<close>
  m_at :: nat                  \<comment> \<open>the position of the stream\<close>
  m_count :: nat
  m_bytesUsed :: nat

definition h264_open :: "bytes option \<Rightarrow> h264file \<Rightarrow> h264file \<times> bool" where
  \<comment> \<open>what \<open>fopen\<close> finds\<close>
  "h264_open found f = (f\<lparr>m_file := found, m_at := 0\<rparr>, found \<noteq> None)"

definition h264_close :: "h264file \<Rightarrow> h264file" where
  "h264_close f = (case m_file f of None \<Rightarrow> f | Some _ \<Rightarrow> f\<lparr>m_file := None, m_count := 0, m_bytesUsed := 0\<rparr>)"

definition fread :: "nat \<Rightarrow> h264file \<Rightarrow> bytes" where
  "fread m_bufSize f = (case m_file f of None \<Rightarrow> [] | Some s \<Rightarrow> take m_bufSize (drop (m_at f) s))"

definition cut_frame :: "nat \<Rightarrow> bytes \<Rightarrow> h264file \<Rightarrow> ((bytes \<times> bool) option \<times> h264file) option" where
  \<comment> \<open>the part of \<open>readFrame\<close> behind the reading: the frame and \<open>*bEndOfFrame\<close>, or nothing (\<open>-1\<close>)\<close>
  "cut_frame inBufSize m_buf f = do {
     let bytesRead = length m_buf;
     (i, bFindStart) \<leftarrow> scan picture_starts m_buf bytesRead 0;
     (i, bFindEnd) \<leftarrow> scan access_starts m_buf bytesRead (if bFindStart then i + 4 else i);
     let flag = (bFindStart \<and> \<not> bFindEnd \<and> 0 < m_count f);
     let i = (if flag then bytesRead else i);
     if \<not> bFindStart \<or> \<not> (bFindEnd \<or> flag) then Some (None, h264_close f)
     else do {
       inBuf \<leftarrow> read_range m_buf 0 (min i inBufSize);
       let f = (if \<not> flag then f\<lparr>m_count := m_count f + 1, m_bytesUsed := m_bytesUsed f + i\<rparr>
                else f\<lparr>m_count := 0, m_bytesUsed := 0\<rparr>);
       Some (Some (inBuf, flag), f\<lparr>m_at := m_bytesUsed f\<rparr>) } }"

definition readFrame :: "nat \<Rightarrow> nat \<Rightarrow> h264file \<Rightarrow> ((bytes \<times> bool) option \<times> h264file) option" where
  "readFrame m_bufSize inBufSize f =
     (if m_file f = None then Some (None, f)
      else if fread m_bufSize f \<noteq> [] then cut_frame inBufSize (fread m_bufSize f) f
      else
        let f = f\<lparr>m_at := 0, m_count := 0, m_bytesUsed := 0\<rparr>
        in if fread m_bufSize f = [] then Some (None, h264_close f)
           else cut_frame inBufSize (fread m_bufSize f) f)"

fun sendFrames :: "nat \<Rightarrow> nat \<Rightarrow> nat \<Rightarrow> h264file \<Rightarrow> (bytes list \<times> bool \<times> h264file) option" where
  \<comment> \<open>the loop of \<open>snedFrameThread\<close> up to the end of the file: the frames, whether the last was flagged, and
     the reader; it runs on with the next pass, so there is fuel here\<close>
  "sendFrames 0 m_bufSize bufSize f = None"
| "sendFrames (Suc n) m_bufSize bufSize f = do {
     (r, f) \<leftarrow> readFrame m_bufSize bufSize f;
     case r of
       None \<Rightarrow> Some ([], False, f)
     | Some (frame, end_of_file) \<Rightarrow>
         if end_of_file then Some ([frame], True, f)
         else do { (fs, e, f) \<leftarrow> sendFrames n m_bufSize bufSize f; Some (frame # fs, e, f) } }"

subsection \<open>The loops stay in the buffer\<close>

definition starts :: "bytes \<Rightarrow> bool" where
  \<comment> \<open>with a start code\<close>
  "starts b \<longleftrightarrow> take 3 b = [0, 0, 1] \<or> take 4 b = [0, 0, 0, 1]"

lemma found_at_in: "i + 5 < length b \<Longrightarrow> \<exists>hit. found_at test b i = Some hit \<and> (hit \<longrightarrow> starts (drop i b))"
proof -
  assume i: "i + 5 < length b"
  have d: "drop i b = b ! i # b ! (i + 1) # b ! (i + 2) # b ! (i + 3) # drop (i + 4) b"
    using i by (simp add: Cons_nth_drop_Suc [symmetric] numeral_eq_Suc)
  show ?thesis using i unfolding found_at_def start_code_def starts_def read_at_def d by auto
qed

lemma scan_in:
  "n \<le> length b \<Longrightarrow> \<exists>j hit. scan test b n i = Some (j, hit) \<and> i \<le> j
    \<and> (if hit then j + 5 < n \<and> starts (drop j b) else n \<le> j + 5)"
proof (induction test b n i rule: scan.induct)
  case (1 test b n i)
  show ?case
  proof (cases "i + 5 < n")
    case True
    then obtain hit where h: "found_at test b i = Some hit" "hit \<longrightarrow> starts (drop i b)"
      using found_at_in [of i b test] "1.prems" by auto
    show ?thesis
    proof (cases hit)
      case True
      then have "scan test b n i = Some (i, True)" using h \<open>i + 5 < n\<close> by (subst scan.simps) simp
      then show ?thesis using h True \<open>i + 5 < n\<close> by (intro exI [of _ i] exI [of _ True]) simp
    next
      case False
      then have "scan test b n i = scan test b n (i + 1)" using h \<open>i + 5 < n\<close> by (subst scan.simps) simp
      moreover obtain j hit' where "scan test b n (i + 1) = Some (j, hit')" "i + 1 \<le> j"
        "if hit' then j + 5 < n \<and> starts (drop j b) else n \<le> j + 5"
        using "1.IH" [OF \<open>i + 5 < n\<close> h(1) False "1.prems"] by blast
      ultimately show ?thesis by (intro exI [of _ j] exI [of _ hit']) simp
    qed
  next
    case False
    then have "scan test b n i = Some (i, False)" by (subst scan.simps) simp
    then show ?thesis using False by (intro exI [of _ i] exI [of _ False]) simp
  qed
qed

lemma cut_frame_in:
  "\<exists>r f'. cut_frame inBufSize w f = Some (r, f') \<and> (case r of
      None \<Rightarrow> f' = h264_close f
    | Some (frame, True) \<Rightarrow> frame = take inBufSize w \<and> 5 < length w \<and> f' = f\<lparr>m_count := 0, m_bytesUsed := 0, m_at := 0\<rparr>
    | Some (frame, False) \<Rightarrow> \<exists>j. 4 \<le> j \<and> j + 5 < length w \<and> starts (drop j w) \<and> frame = take inBufSize (take j w)
        \<and> f' = f\<lparr>m_count := m_count f + 1, m_bytesUsed := m_bytesUsed f + j, m_at := m_bytesUsed f + j\<rparr>)"
proof -
  obtain i found where a: "scan picture_starts w (length w) 0 = Some (i, found)"
    "if found then i + 5 < length w \<and> starts (drop i w) else length w \<le> i + 5"
    using scan_in [of "length w" w picture_starts 0] by blast
  obtain j found' where b: "scan access_starts w (length w) (if found then i + 4 else i) = Some (j, found')"
    "(if found then i + 4 else i) \<le> j" "if found' then j + 5 < length w \<and> starts (drop j w) else length w \<le> j + 5"
    using scan_in [of "length w" w access_starts "if found then i + 4 else i"] by blast
  have range: "read_range w 0 (min k inBufSize) = Some (take inBufSize (take k w))" if "k \<le> length w" for k
    using that by (simp add: read_range_def min.commute)
  let ?f = "f\<lparr>m_count := m_count f + 1, m_bytesUsed := m_bytesUsed f + j, m_at := m_bytesUsed f + j\<rparr>"
  consider "\<not> found \<or> \<not> found' \<and> m_count f = 0" | "found" "found'" | "found" "\<not> found'" "0 < m_count f"
    by blast
  then show ?thesis
  proof cases
    case 1
    then have "cut_frame inBufSize w f = Some (None, h264_close f)" using a(1) b(1) by (cases found) (simp_all add: cut_frame_def)
    then show ?thesis by simp
  next
    case 2
    then have "cut_frame inBufSize w f = Some (Some (take inBufSize (take j w), False), ?f)"
      using a(1) b(1,3) range [of j] by (simp add: cut_frame_def)
    moreover have "4 \<le> j \<and> j + 5 < length w \<and> starts (drop j w)" using 2 b(2,3) by simp
    ultimately show ?thesis by (intro exI conjI) (assumption, simp, blast)
  next
    case 3
    then have "cut_frame inBufSize w f
        = Some (Some (take inBufSize w, True), f\<lparr>m_count := 0, m_bytesUsed := 0, m_at := 0\<rparr>)"
      using a(1) b(1) range [of "length w"] by (simp add: cut_frame_def)
    then show ?thesis using 3(1) a(2) by simp
  qed
qed


subsection \<open>A pass over a file\<close>

definition closed_file :: h264file where
  \<comment> \<open>a new reader\<close>
  "closed_file = \<lparr>m_file = None, m_at = 0, m_count = 0, m_bytesUsed = 0\<rparr>"

definition opened :: "bytes \<Rightarrow> h264file" where
  "opened s = fst (h264_open (Some s) closed_file)"

lemma opened_simps: "opened s = \<lparr>m_file = Some s, m_at = 0, m_count = 0, m_bytesUsed = 0\<rparr>"
  by (simp add: opened_def h264_open_def closed_file_def)

lemma starts_take: "4 \<le> j \<Longrightarrow> starts (take j b) \<longleftrightarrow> starts b"
  by (simp add: starts_def min_def)

lemma read_frame_at:
  \<comment> \<open>one call, the reader standing at \<open>p\<close>\<close>
  assumes f: "f = \<lparr>m_file = Some s, m_at = p, m_count = c, m_bytesUsed = p\<rparr>"
    and "p < length s" and "0 < bufSize" and "bufSize \<le> inBufSize"
  shows "\<exists>r f'. readFrame bufSize inBufSize f = Some (r, f') \<and> (case r of
      None \<Rightarrow> m_file f' = None
    | Some (frame, True) \<Rightarrow> frame = take bufSize (drop p s) \<and> 5 < length frame \<and> f' = opened s
    | Some (frame, False) \<Rightarrow> \<exists>j. 4 \<le> j \<and> p + j < length s \<and> starts (drop (p + j) s) \<and> frame = take j (drop p s)
        \<and> f' = \<lparr>m_file = Some s, m_at = p + j, m_count = c + 1, m_bytesUsed = p + j\<rparr>)"
proof -
  let ?w = "take bufSize (drop p s)"
  have w: "fread bufSize f = ?w" "?w \<noteq> []" "length ?w \<le> inBufSize" using assms by (simp_all add: fread_def)
  obtain r f' where r: "cut_frame inBufSize ?w f = Some (r, f')" "case r of
      None \<Rightarrow> f' = h264_close f
    | Some (frame, True) \<Rightarrow> frame = take inBufSize ?w \<and> 5 < length ?w \<and> f' = f\<lparr>m_count := 0, m_bytesUsed := 0, m_at := 0\<rparr>
    | Some (frame, False) \<Rightarrow> \<exists>j. 4 \<le> j \<and> j + 5 < length ?w \<and> starts (drop j ?w) \<and> frame = take inBufSize (take j ?w)
        \<and> f' = f\<lparr>m_count := m_count f + 1, m_bytesUsed := m_bytesUsed f + j, m_at := m_bytesUsed f + j\<rparr>"
    using cut_frame_in by blast
  have call: "readFrame bufSize inBufSize f = Some (r, f')" using w(1,2) r(1) by (simp add: readFrame_def f)
  show ?thesis
  proof (cases r)
    case None
    then show ?thesis using call r(2) by (simp add: h264_close_def f)
  next
    case (Some x)
    obtain frame e where x: "r = Some (frame, e)" using Some by (cases x) simp
    show ?thesis
    proof (cases e)
      case True
      moreover have "take inBufSize ?w = ?w" using w(3) by (rule take_all)
      ultimately show ?thesis using call r(2) by (simp add: x f opened_simps del: take_take)
    next
      case False
      then obtain j where j: "4 \<le> j" "j + 5 < length ?w" "starts (drop j ?w)" "frame = take inBufSize (take j ?w)"
        "f' = f\<lparr>m_count := m_count f + 1, m_bytesUsed := m_bytesUsed f + j, m_at := m_bytesUsed f + j\<rparr>"
        using r(2) by (auto simp: x)
      have "drop j ?w = take (bufSize - j) (drop (p + j) s)" by (simp add: drop_take add.commute)
      moreover have "4 \<le> bufSize - j" using j(2) by (simp, arith)
      ultimately have "starts (drop (p + j) s)" using j(3) starts_take by metis
      moreover have "j < length s - p" "j < bufSize" "j < inBufSize" using j(2) w(3) by (simp_all, linarith)
      then have "frame = take j (drop p s)" "p + j < length s" using j(4) by (simp_all add: min_def)
      ultimately show ?thesis using call j(1,5) False by (intro exI [of _ r] exI [of _ f'] conjI) (auto simp: x f)
    qed
  qed
qed

lemma pass_from:
  assumes "p < length s" and "length s - p \<le> n" and "0 < bufSize" and "bufSize \<le> inBufSize"
  shows "\<exists>fs e f'. sendFrames n bufSize inBufSize \<lparr>m_file = Some s, m_at = p, m_count = c, m_bytesUsed = p\<rparr> = Some (fs, e, f')
    \<and> (\<exists>k. concat fs = take k (drop p s)) \<and> (\<forall>x \<in> set (tl fs). starts x) \<and> (starts (drop p s) \<longrightarrow> (\<forall>x \<in> set fs. starts x))
    \<and> (if e then fs \<noteq> [] \<and> last fs = take bufSize (drop (p + length (concat (butlast fs))) s) \<and> f' = opened s
       else m_file f' = None)"
  using assms(1,2)
proof (induction n arbitrary: p c)
  case (Suc n)
  let ?f = "\<lparr>m_file = Some s, m_at = p, m_count = c, m_bytesUsed = p\<rparr>"
  obtain r f' where r: "readFrame bufSize inBufSize ?f = Some (r, f')" "case r of
      None \<Rightarrow> m_file f' = None
    | Some (frame, True) \<Rightarrow> frame = take bufSize (drop p s) \<and> 5 < length frame \<and> f' = opened s
    | Some (frame, False) \<Rightarrow> \<exists>j. 4 \<le> j \<and> p + j < length s \<and> starts (drop (p + j) s) \<and> frame = take j (drop p s)
        \<and> f' = \<lparr>m_file = Some s, m_at = p + j, m_count = c + 1, m_bytesUsed = p + j\<rparr>"
    using read_frame_at [OF refl Suc.prems(1) assms(3,4), of c] by blast
  consider "r = None" | frame where "r = Some (frame, True)" | frame where "r = Some (frame, False)"
    by (metis (full_types) option.exhaust surj_pair)
  then show ?case
  proof cases
    case 1
    then show ?thesis using r by (intro exI [of _ "[]"] exI [of _ False] exI [of _ f']) (auto intro: exI [of _ 0])
  next
    case 2
    then have x: "frame = take bufSize (drop p s)" "5 < length frame" "f' = opened s" using r(2) by (auto simp del: length_take)
    have "starts (drop p s) \<longrightarrow> starts frame" using x(1,2) starts_take [of bufSize "drop p s"] by simp
    then show ?thesis using r(1) 2 x
      by (intro exI [of _ "[frame]"] exI [of _ True] exI [of _ f']) auto
  next
    case 3
    then obtain j where j: "4 \<le> j" "p + j < length s" "starts (drop (p + j) s)" "frame = take j (drop p s)"
      "f' = \<lparr>m_file = Some s, m_at = p + j, m_count = c + 1, m_bytesUsed = p + j\<rparr>" using r(2) by auto
    have "length s - (p + j) \<le> n" using j(1) Suc.prems by simp
    from Suc.IH [OF j(2) this, of "c + 1"] obtain fs e g where g:
      "sendFrames n bufSize inBufSize f' = Some (fs, e, g)" "\<exists>k. concat fs = take k (drop (p + j) s)" "\<forall>x \<in> set fs. starts x"
      "if e then fs \<noteq> [] \<and> last fs = take bufSize (drop (p + j + length (concat (butlast fs))) s) \<and> g = opened s
       else m_file g = None"
      using j(3,5) by blast
    obtain k where k: "concat fs = take k (drop (p + j) s)" using g(2) by blast
    have lf: "length frame = j" using j(2,4) by simp
    have "concat (frame # fs) = take (j + k) (drop p s)" using k j(4) by (simp add: take_add add.commute)
    moreover have "starts (drop p s) \<longrightarrow> starts frame" using j(1,4) by (simp add: starts_take)
    moreover have "sendFrames (Suc n) bufSize inBufSize ?f = Some (frame # fs, e, g)" using r(1) 3 g(1) by simp
    moreover have "if e then frame # fs \<noteq> [] \<and> last (frame # fs) = take bufSize (drop (p + length (concat (butlast (frame # fs)))) s) \<and> g = opened s
       else m_file g = None" using g(4) lf by (auto simp: add.assoc)
    ultimately show ?thesis using g(3) by (intro exI [of _ "frame # fs"] exI [of _ e] exI [of _ g]) auto
  qed
qed simp



definition sample_stream :: bytes where
  \<comment> \<open>parameters, a picture, and a picture behind a long start code\<close>
  "sample_stream = [0, 0, 1, 0x67, 9, 9, 0, 0, 1, 0x65, 0x88, 7, 0, 0, 0, 1, 0x41, 0x9A, 5, 5]"


lemma one_picture_refused:
  \<comment> \<open>a file with a single picture is never sent: there is no unit behind it, and \<open>m_count\<close> is still 0\<close>
  assumes "scan picture_starts s (length s) 0 = Some (i, True)" and "scan access_starts s (length s) (i + 4) = Some (j, False)"
    and "s \<noteq> []" and "length s \<le> m_bufSize"
  shows "readFrame m_bufSize inBufSize (opened s) = Some (None, \<lparr>m_file = None, m_at = 0, m_count = 0, m_bytesUsed = 0\<rparr>)"
  using assms by (simp add: readFrame_def cut_frame_def fread_def opened_simps h264_close_def)

lemma one_picture_demo: "readFrame 64 64 (opened [0, 0, 1, 0x65, 0x88, 7, 7, 7]) = Some (None, closed_file)"
  by code_simp

end
