(* ===== verification/PixelMore.thy ===== *)
theory PixelMore
  imports Pixel
begin

text \<open>
  The two frame converters of \<open>Common.c\<close> that nothing calls: \<open>__rgb24_to_yuv420p\<close>, which takes the U samples
  from the even rows and the V samples from the odd ones, and \<open>rgb32_to_i420\<close>, which averages the four pixels of
  a block and walks both of its rows at once.
\<close>

subsection \<open>\<open>__rgb24_to_yuv420p\<close>\<close>

definition clip_value :: "u8 \<Rightarrow> u8 \<Rightarrow> u8 \<Rightarrow> u8" where
  "clip_value val min_val max_val = (if val > max_val then max_val else if val < min_val then min_val else val)"

definition rgb24_step :: "bytes \<Rightarrow> nat \<Rightarrow> nat \<Rightarrow> nat \<Rightarrow> bytes \<times> nat \<times> nat \<times> nat \<Rightarrow> (bytes \<times> nat \<times> nat \<times> nat) option" where
  \<comment> \<open>column \<open>i\<close> of row \<open>j\<close>\<close>
  "rgb24_step rgb24 w j i = (\<lambda>(yuv, yp, up, vp). do {
     r \<leftarrow> read_at rgb24 (j * w * 3 + i * 3);
     g \<leftarrow> read_at rgb24 (j * w * 3 + i * 3 + 1);
     b \<leftarrow> read_at rgb24 (j * w * 3 + i * 3 + 2);
     let y = word_of_int (drop_bit 8 (66 * uint r + 129 * uint g + 25 * uint b + 128)) + 16;
     let u = word_of_int (drop_bit 8 (-38 * uint r - 74 * uint g + 112 * uint b + 128)) + 128;
     let v = word_of_int (drop_bit 8 (112 * uint r - 94 * uint g - 18 * uint b + 128)) + 128;
     yuv \<leftarrow> write_at yuv yp [clip_value y 0 255];
     if j mod 2 = 0
     then (if i mod 2 = 0 then do { yuv \<leftarrow> write_at yuv up [clip_value u 0 255]; Some (yuv, yp + 1, up + 1, vp) }
           else Some (yuv, yp + 1, up, vp))
     else (if i mod 2 = 0 then do { yuv \<leftarrow> write_at yuv vp [clip_value v 0 255]; Some (yuv, yp + 1, up, vp + 1) }
           else Some (yuv, yp + 1, up, vp)) })"

definition rgb24_to_yuv420p :: "bytes \<Rightarrow> nat \<Rightarrow> nat \<Rightarrow> bytes \<Rightarrow> bytes option" where
  "rgb24_to_yuv420p rgb24_buf w h yuv420p_buf = do {
     yuv \<leftarrow> write_at yuv420p_buf 0 (replicate ((w * h * 3) div 2) 0);
     map_option fst (for_loop 0 h (\<lambda>j. for_loop 0 w (rgb24_step rgb24_buf w j)) (yuv, 0, w * h, w * h + (w * h) div 4)) }"

subsection \<open>\<open>rgb32_to_i420\<close>\<close>

definition pixel32 :: "bytes \<Rightarrow> nat \<Rightarrow> (int \<times> int \<times> int) option" where
  \<comment> \<open>\<open>r\<close>, \<open>g\<close>, \<open>b\<close>, from the order \<open>b\<close>, \<open>g\<close>, \<open>r\<close> and a byte that is skipped\<close>
  "pixel32 src p = do {
     b \<leftarrow> read_at src p;
     g \<leftarrow> read_at src (p + 1);
     r \<leftarrow> read_at src (p + 2);
     Some (uint r, uint g, uint b) }"

record i420_state =
  dst :: bytes
  dst_y_even :: nat
  dst_y_odd :: nat
  dst_u :: nat
  dst_v :: nat
  src_even :: nat
  src_odd :: nat

definition i420_step :: "bytes \<Rightarrow> nat \<Rightarrow> i420_state \<Rightarrow> i420_state option" where
  \<comment> \<open>a block of four pixels; \<open>short\<close> holds the sums\<close>
  "i420_step src j s = do {
     (r1, g1, b1) \<leftarrow> pixel32 src (src_even s);
     d \<leftarrow> write_at (dst s) (dst_y_even s) [word_of_int (luma r1 g1 b1)];
     (r2, g2, b2) \<leftarrow> pixel32 src (src_even s + 4);
     d \<leftarrow> write_at d (dst_y_even s + 1) [word_of_int (luma r2 g2 b2)];
     (r3, g3, b3) \<leftarrow> pixel32 src (src_odd s);
     d \<leftarrow> write_at d (dst_y_odd s) [word_of_int (luma r3 g3 b3)];
     (r4, g4, b4) \<leftarrow> pixel32 src (src_odd s + 4);
     d \<leftarrow> write_at d (dst_y_odd s + 1) [word_of_int (luma r4 g4 b4)];
     let sum_r = (r1 + r2 + r3 + r4) div 4;
     let sum_g = (g1 + g2 + g3 + g4) div 4;
     let sum_b = (b1 + b2 + b3 + b4) div 4;
     d \<leftarrow> write_at d (dst_u s) [word_of_int (chroma_u sum_r sum_g sum_b)];
     d \<leftarrow> write_at d (dst_v s) [word_of_int (chroma_v sum_r sum_g sum_b)];
     Some \<lparr>dst = d, dst_y_even = dst_y_even s + 2, dst_y_odd = dst_y_odd s + 2, dst_u = dst_u s + 1, dst_v = dst_v s + 1,
       src_even = src_even s + 8, src_odd = src_odd s + 8\<rparr> }"

definition i420_row :: "nat \<Rightarrow> bytes \<Rightarrow> nat \<Rightarrow> i420_state \<Rightarrow> i420_state option" where
  "i420_row width src i s = map_option
     (\<lambda>s. s\<lparr>dst_y_even := dst_y_even s + width, dst_y_odd := dst_y_odd s + width, src_even := src_even s + width * 4,
             src_odd := src_odd s + width * 4\<rparr>)
     (for_loop 0 (width div 2) (i420_step src) s)"

definition rgb32_to_i420 :: "nat \<Rightarrow> nat \<Rightarrow> bytes \<Rightarrow> bytes \<Rightarrow> bytes option" where
  "rgb32_to_i420 width height src dst0 = map_option dst
     (for_loop 0 (height div 2) (i420_row width src)
       \<lparr>dst = dst0, dst_y_even = 0, dst_y_odd = width, dst_u = width * height,
        dst_v = width * height + drop_bit 2 (width * height), src_even = 0, src_odd = width * 4\<rparr>)"

subsection \<open>What they store\<close>

lemma clip_value_id: "clip_value val 0 255 = val"
  by (rule all_bytes) code_simp

definition v_samples :: "nat \<Rightarrow> nat \<Rightarrow> nat \<Rightarrow> nat" where
  \<comment> \<open>the V samples stored before column \<open>i\<close> of row \<open>j\<close>\<close>
  "v_samples w j i = (j div 2) * half w + (if odd j then half i else 0)"

lemma v_samples_Suc: "v_samples w j (Suc i) = v_samples w j i + (if odd j \<and> even i then 1 else 0)"
  by (auto simp: v_samples_def half_def elim!: evenE oddE)

lemma v_samples_row: "v_samples w j w = v_samples w (Suc j) 0"
  by (auto simp: v_samples_def half_def elim!: evenE oddE)

lemma v_samples_few:
  assumes "j < h" and "i < w" and "odd j" and "even i"
  shows "v_samples w j i < half h * half w"
proof -
  have "j div 2 + 1 \<le> half h" "half i < half w" using assms by (auto simp: half_def elim!: evenE oddE)
  then have "v_samples w j i < (j div 2) * half w + half w" "(j div 2 + 1) * half w \<le> half h * half w"
    using assms by (simp_all add: v_samples_def mult_le_mono1 del: mult_Suc)
  then show ?thesis by simp
qed

definition rgb24_at :: "nat \<Rightarrow> nat \<Rightarrow> nat \<Rightarrow> nat \<Rightarrow> nat \<Rightarrow> bytes \<times> nat \<times> nat \<times> nat \<Rightarrow> bool" where
  \<comment> \<open>the positions before column \<open>i\<close> of row \<open>j\<close>\<close>
  "rgb24_at n F w j i = (\<lambda>(yuv, yp, up, vp). length yuv = n \<and> yp = j * w + i \<and> up = F + samples w j i \<and> vp = F + F div 4 + v_samples w j i)"

lemma rgb24_step_in:
  assumes s: "rgb24_at n (w * h) w j i s" and "j < h" and "i < w" and src: "w * h * 3 \<le> length rgb"
    and n: "w * h + w * h div 4 + half h * half w \<le> n" "w * h + half h * half w \<le> n"
  shows "\<exists>s'. rgb24_step rgb w j i s = Some s' \<and> rgb24_at n (w * h) w j (Suc i) s'"
proof -
  have p: "j * w + i < w * h" using inside_frame assms(2,3) .
  have rd: "j * w * 3 + i * 3 + 2 < length rgb"
    using p src by linarith
  have u: "samples w j i < half h * half w" if "even j" "even i" using samples_few assms(2,3) that .
  have v: "v_samples w j i < half h * half w" if "odd j" "even i" using v_samples_few assms(2,3) that .
  obtain yuv where s: "s = (yuv, j * w + i, w * h + samples w j i, w * h + w * h div 4 + v_samples w j i)" "length yuv = n"
    using s by (auto simp: rgb24_at_def)
  have "j * w + i < n" using p n by simp
  then show ?thesis
    using rd u v n s(2) unfolding s(1)
    by (cases "even j"; cases "even i")
      (auto simp: rgb24_step_def rgb24_at_def read_at_def write_at_1 Let_def samples_Suc v_samples_Suc even_iff_mod_2_eq_zero)
qed

lemma rgb24_to_yuv420p_in:
  assumes "even w" and "even h" and src: "w * h * 3 \<le> length rgb" and "w * h * 3 div 2 \<le> length buf"
  shows "\<exists>b. rgb24_to_yuv420p rgb w h buf = Some b \<and> length b = length buf"
proof -
  let ?n = "length buf" and ?I = "rgb24_at (length buf) (w * h) w"
  have "half h * half w = w * h div 4" "4 * (half h * half w) = w * h"
    using assms(1,2) by (auto simp: half_def elim!: evenE)
  then have n: "w * h + w * h div 4 + half h * half w \<le> ?n" "w * h + half h * half w \<le> ?n" using assms(4) by linarith+
  have row: "\<exists>s'. for_loop 0 w (rgb24_step rgb w j) s = Some s' \<and> ?I (Suc j) 0 s'" if "j < h" "?I j 0 s" for j s
  proof -
    have "\<exists>s'. for_loop 0 w (rgb24_step rgb w j) s = Some s' \<and> ?I j w s'"
      by (rule for_loop_rule [where I = "?I j"]) (use rgb24_step_in [OF _ that(1) _ src n] that in auto)
    then show ?thesis by (auto simp: rgb24_at_def samples_row v_samples_row)
  qed
  obtain yuv where yuv: "write_at buf 0 (replicate ((w * h * 3) div 2) 0) = Some yuv" "length yuv = ?n"
    using write_at_in [of 0 "replicate ((w * h * 3) div 2) 0" buf] assms(4) by (auto simp: write_at_def)
  then have "?I 0 0 (yuv, 0, w * h, w * h + w * h div 4)" by (simp add: rgb24_at_def v_samples_def)
  then have "\<exists>s'. for_loop 0 h (\<lambda>j. for_loop 0 w (rgb24_step rgb w j)) (yuv, 0, w * h, w * h + w * h div 4) = Some s' \<and> ?I h 0 s'"
    by (intro for_loop_rule [where I = "\<lambda>j. ?I j 0"]) (use row in blast)+
  then show ?thesis using yuv by (auto simp: rgb24_to_yuv420p_def rgb24_at_def)
qed

definition i420_at :: "nat \<Rightarrow> nat \<Rightarrow> nat \<Rightarrow> nat \<Rightarrow> nat \<Rightarrow> i420_state \<Rightarrow> bool" where
  \<comment> \<open>the positions before block \<open>j\<close> of block row \<open>i\<close>, in a frame of \<open>2 * a\<close> by \<open>2 * c\<close>\<close>
  "i420_at n a c i j s \<longleftrightarrow> length (dst s) = n \<and> dst_y_even s = 2 * i * (2 * a) + 2 * j \<and> dst_y_odd s = (2 * i + 1) * (2 * a) + 2 * j
     \<and> dst_u s = 2 * a * (2 * c) + (i * a + j) \<and> dst_v s = 2 * a * (2 * c) + a * c + (i * a + j)
     \<and> src_even s = 4 * (2 * i * (2 * a) + 2 * j) \<and> src_odd s = 4 * ((2 * i + 1) * (2 * a) + 2 * j)"

lemma pixel32_in: "p + 2 < length src \<Longrightarrow> \<exists>x. pixel32 src p = Some x"
  by (simp add: pixel32_def read_at_def)

lemma i420_step_in:
  assumes s: "i420_at n a c i j s" and "i < c" and "j < a" and src: "2 * a * (2 * c) * 4 \<le> length src"
    and n: "2 * a * (2 * c) + a * c + a * c \<le> n"
  shows "\<exists>s'. i420_step src j s = Some s' \<and> i420_at n a c i (j + 1) s'"
proof -
  have o: "(2 * i + 1) * (2 * a) + (2 * j + 1) < 2 * a * (2 * c)" and e: "2 * i * (2 * a) + (2 * j + 1) < 2 * a * (2 * c)"
    and k: "i * a + j < a * c"
    using inside_frame [of "2 * i + 1" "2 * c" "2 * j + 1" "2 * a"] inside_frame [of "2 * i" "2 * c" "2 * j + 1" "2 * a"]
      inside_frame [of i c j a] assms(2,3) by simp_all
  have rd: "\<exists>x. pixel32 src (src_even s) = Some x" "\<exists>x. pixel32 src (src_even s + 4) = Some x"
    "\<exists>x. pixel32 src (src_odd s) = Some x" "\<exists>x. pixel32 src (src_odd s + 4) = Some x"
    using s o e src by (intro pixel32_in; simp add: i420_at_def; linarith)+
  have wr: "dst_y_even s + 1 < n" "dst_y_odd s + 1 < n" "dst_u s < n" "dst_v s < n" "length (dst s) = n"
    using s o e k n by (simp add: i420_at_def; linarith)+
  show ?thesis using rd wr s by (auto simp: i420_step_def write_at_1 i420_at_def Let_def)
qed

lemma rgb32_to_i420_in:
  assumes "even w" and "even h" and "w * h * 4 \<le> length src" and "w * h * 3 div 2 \<le> length buf"
  shows "\<exists>b. rgb32_to_i420 w h src buf = Some b \<and> length b = length buf"
proof -
  obtain a c where wh: "w = 2 * a" "h = 2 * c" using assms(1,2) by (elim evenE)
  let ?n = "length buf" and ?I = "i420_at (length buf) a c"
  have src: "2 * a * (2 * c) * 4 \<le> length src" and n: "2 * a * (2 * c) + a * c + a * c \<le> ?n"
    using assms(3,4) by (simp_all add: wh)
  have row: "\<exists>s'. i420_row w src i s = Some s' \<and> ?I (Suc i) 0 s'" if "i < c" "?I i 0 s" for i s
  proof -
    have "\<exists>s'. for_loop 0 a (i420_step src) s = Some s' \<and> ?I i a s'"
      by (rule for_loop_rule) (use i420_step_in that src n in auto)
    then show ?thesis by (auto simp: i420_row_def wh i420_at_def algebra_simps)
  qed
  have "drop_bit 2 (w * h) = a * c" by (simp add: wh drop_bit_eq_div)
  then have start: "?I 0 0 \<lparr>dst = buf, dst_y_even = 0, dst_y_odd = w, dst_u = w * h, dst_v = w * h + drop_bit 2 (w * h),
      src_even = 0, src_odd = w * 4\<rparr>"
    by (simp add: i420_at_def wh)
  have "\<exists>s'. for_loop 0 c (i420_row w src) \<lparr>dst = buf, dst_y_even = 0, dst_y_odd = w, dst_u = w * h, dst_v = w * h + drop_bit 2 (w * h),
      src_even = 0, src_odd = w * 4\<rparr> = Some s' \<and> ?I c 0 s'"
    by (rule for_loop_rule) (use row start in auto)
  then show ?thesis by (auto simp: rgb32_to_i420_def wh i420_at_def)
qed

end
