(* ===== verification/Thermal.thy ===== *)
theory Thermal
  imports Pixel
begin

text \<open>
  The frame buffers of the thermal camera (\<open>thermalUsb.cpp\<close>).  Each of its thirteen
  frames has a pointer to a block of the allocator; a block is a number, 0 is \<open>NULL\<close>, and freeing what is not
  allocated is \<open>None\<close>.  Every pattern of failures of \<open>malloc\<close> is covered by \<open>t_ok\<close>.
\<close>

subsection \<open>Frames and blocks\<close>

datatype slot = Frame nat | Raw nat | Img nat | Result nat | Filter nat

datatype pixel_format = Format_RGB24 | Format_BGR24 | Format_RGB32 | Format_BGR32 | Format_Y16

datatype rotate_mode = Rotate_0 | Rotate_90 | Rotate_180 | Rotate_270

record thermal =
  f_width :: "slot \<Rightarrow> nat"
  f_height :: "slot \<Rightarrow> nat"
  bytesPerLine :: "slot \<Rightarrow> nat"
  f_ptr :: "slot \<Rightarrow> nat"
  pixelFmt :: pixel_format
  rotateMode :: rotate_mode
  openFlag :: bool
  startFlag :: bool
  t_blocks :: "nat \<Rightarrow> nat option"   \<comment> \<open>the sizes of the allocated blocks\<close>
  t_next :: nat
  t_ok :: "nat \<Rightarrow> bool"
  t_calls :: nat

definition thermal_start :: "(nat \<Rightarrow> bool) \<Rightarrow> thermal" where
  \<comment> \<open>the constructor\<close>
  "thermal_start ok = \<lparr>f_width = (\<lambda>_. 0), f_height = (\<lambda>_. 0), bytesPerLine = (\<lambda>_. 0), f_ptr = (\<lambda>_. 0), pixelFmt = Format_RGB24,
     rotateMode = Rotate_0, openFlag = False, startFlag = False, t_blocks = (\<lambda>_. None), t_next = 1, t_ok = ok, t_calls = 0\<rparr>"

definition t_malloc :: "nat \<Rightarrow> thermal \<Rightarrow> nat \<times> thermal" where
  "t_malloc n s =
     (if t_ok s (t_calls s)
      then (t_next s, s\<lparr>t_blocks := (t_blocks s)(t_next s \<mapsto> n), t_next := t_next s + 1, t_calls := t_calls s + 1\<rparr>)
      else (0, s\<lparr>t_calls := t_calls s + 1\<rparr>))"

definition t_free :: "nat \<Rightarrow> thermal \<Rightarrow> thermal option" where
  "t_free p s = (if p = 0 then Some s else if t_blocks s p = None then None else Some (s\<lparr>t_blocks := (t_blocks s)(p := None)\<rparr>))"

definition frame_bytes :: "thermal \<Rightarrow> slot \<Rightarrow> nat" where
  "frame_bytes s x = (bytesPerLine s x * f_height s x) mod 2 ^ 32"

lemma frame_bytes_fields [simp]:
  "frame_bytes (s\<lparr>t_blocks := b\<rparr>) x = frame_bytes s x" "frame_bytes (s\<lparr>t_next := n\<rparr>) x = frame_bytes s x"
  "frame_bytes (s\<lparr>t_calls := n\<rparr>) x = frame_bytes s x" "frame_bytes (s\<lparr>f_ptr := p\<rparr>) x = frame_bytes s x"
  "frame_bytes (s\<lparr>openFlag := d\<rparr>) x = frame_bytes s x"
  by (simp_all add: frame_bytes_def)

definition release :: "slot \<Rightarrow> thermal \<Rightarrow> thermal option" where
  "release x s = (if f_ptr s x \<noteq> 0 then do { s \<leftarrow> t_free (f_ptr s x) s; Some (s\<lparr>f_ptr := (f_ptr s)(x := 0)\<rparr>) } else Some s)"

fun release_all :: "slot list \<Rightarrow> thermal \<Rightarrow> thermal option" where
  "release_all [] s = Some s"
| "release_all (x # xs) s = do { s \<leftarrow> release x s; release_all xs s }"

fun alloc_all :: "slot list \<Rightarrow> thermal \<Rightarrow> (bool \<times> thermal) option" where
  \<comment> \<open>up to the first failure, which is the \<open>break\<close>\<close>
  "alloc_all [] s = Some (True, s)"
| "alloc_all (x # xs) s = do {
     s \<leftarrow> release x s;
     let (p, s) = t_malloc (frame_bytes s x) s;
     let s = s\<lparr>f_ptr := (f_ptr s)(x := p)\<rparr>;
     if p = 0 then Some (False, s) else alloc_all xs s }"

definition image_slots :: "slot list" where
  "image_slots = [Frame 0, Raw 0, Img 0, Result 0, Frame 1, Raw 1, Img 1, Result 1]"

definition filter_slots :: "slot list" where
  "filter_slots = [Filter 0, Filter 1, Filter 2, Filter 3, Filter 4]"

definition myFreeBuffer :: "thermal \<Rightarrow> thermal option" where
  "myFreeBuffer s = release_all (image_slots @ filter_slots) s"

definition myAllocBuffer :: "thermal \<Rightarrow> (bool \<times> thermal) option" where
  "myAllocBuffer s = do {
     (ok1, s) \<leftarrow> alloc_all image_slots s;
     (ok2, s) \<leftarrow> alloc_all filter_slots s;
     if ok1 \<and> ok2 then Some (True, s) else do { s \<leftarrow> myFreeBuffer s; Some (False, s) } }"

definition line_bytes :: "pixel_format \<Rightarrow> slot \<Rightarrow> nat \<Rightarrow> nat" where
  \<comment> \<open>lines are aligned to four bytes; the arithmetic is unsigned\<close>
  "line_bytes fmt x width =
     (case x of
        Frame _ \<Rightarrow> (if fmt = Format_RGB24 \<or> fmt = Format_BGR24 then ((width * 3 + 3) mod 2 ^ 32 div 4) * 4
                    else 4 * ((width * 4 + 3) mod 2 ^ 32 div 4))
      | _ \<Rightarrow> ((width * 2 + 3) mod 2 ^ 32 div 4) * 4)"

definition set_size :: "nat \<Rightarrow> nat \<Rightarrow> thermal \<Rightarrow> thermal" where
  "set_size width height s =
     (let xs = set (image_slots @ filter_slots)
      in s\<lparr>f_width := (\<lambda>x. if x \<in> xs then width else f_width s x), f_height := (\<lambda>x. if x \<in> xs then height else f_height s x),
           bytesPerLine := (\<lambda>x. if x \<in> xs then line_bytes (pixelFmt s) x width else bytesPerLine s x)\<rparr>)"

definition uvcOpen :: "nat \<Rightarrow> nat \<Rightarrow> thermal \<Rightarrow> (bool \<times> thermal) option" where
  \<comment> \<open>the sizes are set before the old blocks go, one by one; nothing in between looks at them\<close>
  "uvcOpen w h s =
     (let (width, height) = (if rotateMode s = Rotate_0 \<or> rotateMode s = Rotate_180 then (w, h div 2) else (h div 2, w))
      in if pixelFmt s = Format_Y16
         then Some (False, s\<lparr>f_width := (f_width s)(Frame 0 := width), f_height := (f_height s)(Frame 0 := height)\<rparr>)
         else do {
           s \<leftarrow> release_all (image_slots @ filter_slots) (set_size width height s);
           (ok, s) \<leftarrow> myAllocBuffer s;
           if ok then Some (True, s\<lparr>openFlag := True\<rparr>) else Some (False, s) })"

definition close_result :: "nat \<Rightarrow> thermal \<Rightarrow> thermal option" where
  \<comment> \<open>it frees the image frame's pointer instead of its own\<close>
  "close_result i s =
     (if f_ptr s (Result i) \<noteq> 0
      then do { s \<leftarrow> t_free (f_ptr s (Img i)) s; Some (s\<lparr>f_ptr := (f_ptr s)(Result i := 0)\<rparr>) }
      else Some s)"

definition uvcClose :: "thermal \<Rightarrow> (bool \<times> thermal) option" where
  "uvcClose s = do {
     let s = s\<lparr>startFlag := False, openFlag := False, f_width := (\<lambda>_. 0), f_height := (\<lambda>_. 0), bytesPerLine := (\<lambda>_. 0)\<rparr>;
     s \<leftarrow> release_all [Frame 0, Raw 0, Img 0] s;
     s \<leftarrow> close_result 0 s;
     s \<leftarrow> release_all [Frame 1, Raw 1, Img 1] s;
     s \<leftarrow> close_result 1 s;
     s \<leftarrow> release_all filter_slots s;
     s \<leftarrow> myFreeBuffer s;
     Some (True, s) }"

definition new_format :: "pixel_format \<Rightarrow> nat \<Rightarrow> thermal \<Rightarrow> (bool \<times> thermal) option" where
  \<comment> \<open>one turn of the loop of \<open>setPixelFormat\<close>, up to the allocation\<close>
  "new_format fmt i s = do {
     let s = s\<lparr>bytesPerLine := (bytesPerLine s)(Frame i := line_bytes fmt (Frame i) (f_width s (Frame i)))\<rparr>;
     s \<leftarrow> release (Frame i) s;
     alloc_all [Frame i] s }"

definition setPixelFormat :: "pixel_format \<Rightarrow> thermal \<Rightarrow> (bool \<times> thermal) option" where
  \<comment> \<open>a failure frees the frames made before it\<close>
  "setPixelFormat fmt s =
     (if pixelFmt s = fmt then Some (True, s)
      else if fmt = Format_Y16 then Some (False, s)
      else do {
        (ok, s) \<leftarrow> new_format fmt 0 s;
        if \<not> ok then Some (False, s) else do {
          (ok, s) \<leftarrow> new_format fmt 1 s;
          if ok then Some (True, s\<lparr>pixelFmt := fmt\<rparr>)
          else do { s \<leftarrow> release (Frame 0) s; Some (False, s) } } })"

subsection \<open>Who owns the blocks\<close>

definition pointed :: "thermal \<Rightarrow> nat \<Rightarrow> bool" where
  "pointed s p \<longleftrightarrow> p \<noteq> 0 \<and> (\<exists>x. f_ptr s x = p)"

definition owns :: "nat set \<Rightarrow> thermal \<Rightarrow> bool" where
  \<comment> \<open>each block belongs to one frame, but for those of \<open>L\<close>, which no frame points to\<close>
  "owns L s \<longleftrightarrow> (\<forall>p. t_blocks s p \<noteq> None \<longleftrightarrow> pointed s p \<or> p \<in> L) \<and> (\<forall>p \<in> L. p \<noteq> 0 \<and> \<not> pointed s p)
     \<and> (\<forall>x y. f_ptr s x = f_ptr s y \<longrightarrow> f_ptr s x \<noteq> 0 \<longrightarrow> x = y) \<and> (\<forall>p. t_blocks s p \<noteq> None \<longrightarrow> p < t_next s) \<and> 0 < t_next s"

definition same_shape :: "thermal \<Rightarrow> thermal \<Rightarrow> bool" where
  "same_shape s s' \<longleftrightarrow> f_width s' = f_width s \<and> f_height s' = f_height s \<and> bytesPerLine s' = bytesPerLine s
     \<and> pixelFmt s' = pixelFmt s \<and> rotateMode s' = rotateMode s \<and> t_ok s' = t_ok s"

lemma release_owned:
  assumes "owns L s"
  shows "\<exists>s'. release x s = Some s' \<and> owns L s' \<and> f_ptr s' = (f_ptr s)(x := 0) \<and> same_shape s s'
    \<and> (\<forall>p. p \<noteq> f_ptr s x \<longrightarrow> t_blocks s' p = t_blocks s p) \<and> t_calls s' = t_calls s"
proof (cases "f_ptr s x = 0")
  case True
  then show ?thesis using assms by (auto simp: release_def same_shape_def fun_upd_idem)
next
  case False
  then have pt: "pointed s (f_ptr s x)" by (auto simp: pointed_def)
  then have d: "f_ptr s x \<in> dom (t_blocks s)" using assms by (auto simp: owns_def)
  let ?s = "s\<lparr>t_blocks := (t_blocks s)(f_ptr s x := None), f_ptr := (f_ptr s)(x := 0)\<rparr>"
  have "release x s = Some ?s" using d False by (auto simp: release_def t_free_def)
  moreover have "owns L ?s"
  proof -
    have inj: "f_ptr s y = f_ptr s x \<Longrightarrow> y = x" for y using assms False by (auto simp: owns_def)
    have "pointed ?s p \<longleftrightarrow> pointed s p \<and> p \<noteq> f_ptr s x" for p
      using inj False by (auto simp: pointed_def fun_upd_def) metis
    moreover have "f_ptr s x \<notin> L" using assms pt by (auto simp: owns_def)
    ultimately show ?thesis using assms pt inj unfolding owns_def by (auto simp: fun_upd_def)
  qed
  ultimately show ?thesis by (auto simp: same_shape_def)
qed

lemma release_all_owned:
  "owns L s \<Longrightarrow> \<exists>s'. release_all xs s = Some s' \<and> owns L s' \<and> f_ptr s' = (\<lambda>x. if x \<in> set xs then 0 else f_ptr s x)
    \<and> same_shape s s' \<and> (\<forall>x. x \<notin> set xs \<longrightarrow> f_ptr s x \<noteq> 0 \<longrightarrow> t_blocks s' (f_ptr s x) = t_blocks s (f_ptr s x))"
proof (induction xs arbitrary: s)
  case (Cons x xs)
  obtain s1 where s1: "release x s = Some s1" "owns L s1" "f_ptr s1 = (f_ptr s)(x := 0)" "same_shape s s1"
    "\<forall>p. p \<noteq> f_ptr s x \<longrightarrow> t_blocks s1 p = t_blocks s p" using release_owned [OF Cons.prems] by blast
  obtain s2 where s2: "release_all xs s1 = Some s2" "owns L s2" "f_ptr s2 = (\<lambda>y. if y \<in> set xs then 0 else f_ptr s1 y)" "same_shape s1 s2"
    "\<forall>y. y \<notin> set xs \<longrightarrow> f_ptr s1 y \<noteq> 0 \<longrightarrow> t_blocks s2 (f_ptr s1 y) = t_blocks s1 (f_ptr s1 y)" using Cons.IH [OF s1(2)] by blast
  have "f_ptr s2 = (\<lambda>y. if y \<in> set (x # xs) then 0 else f_ptr s y)" using s1(3) s2(3) by (auto simp: fun_eq_iff)
  moreover have "same_shape s s2" using s1(4) s2(4) by (simp add: same_shape_def)
  moreover have "t_blocks s2 (f_ptr s y) = t_blocks s (f_ptr s y)" if y: "y \<notin> set (x # xs)" "f_ptr s y \<noteq> 0" for y
  proof -
    have "f_ptr s y \<noteq> f_ptr s x" using Cons.prems y by (auto simp: owns_def)
    moreover have "f_ptr s1 y = f_ptr s y" using y(1) s1(3) by simp
    ultimately show ?thesis using y s1(5) s2(5) by (metis list.set_intros(2))
  qed
  ultimately show ?case using s1(1) s2(1,2) by auto
qed (simp add: same_shape_def)

definition sized :: "thermal \<Rightarrow> slot \<Rightarrow> bool" where
  "sized s x \<longleftrightarrow> f_ptr s x \<noteq> 0 \<and> t_blocks s (f_ptr s x) = Some (frame_bytes s x)"

lemma alloc_all_owned:
  "owns L s \<Longrightarrow> distinct xs \<Longrightarrow> (\<forall>x \<in> set xs. f_ptr s x = 0) \<Longrightarrow> \<exists>ok s'. alloc_all xs s = Some (ok, s') \<and> owns L s'
    \<and> (\<forall>x. x \<notin> set xs \<longrightarrow> f_ptr s' x = f_ptr s x \<and> (sized s x \<longrightarrow> sized s' x)) \<and> same_shape s s' \<and> (ok \<longrightarrow> (\<forall>x \<in> set xs. sized s' x))"
proof (induction xs arbitrary: s)
  case Nil
  then show ?case by (intro exI [of _ True] exI [of _ s]) (simp add: same_shape_def)
next
  case (Cons x xs)
  have r: "release x s = Some s" using Cons.prems(3) by (simp add: release_def)
  show ?case
  proof (cases "t_ok s (t_calls s)")
    case False
    let ?s = "s\<lparr>t_calls := t_calls s + 1, f_ptr := (f_ptr s)(x := 0)\<rparr>"
    have p: "f_ptr ?s = f_ptr s" using Cons.prems(3) by (auto simp: fun_eq_iff)
    have "alloc_all (x # xs) s = Some (False, ?s)" using r False by (simp add: t_malloc_def)
    moreover have "pointed ?s = pointed s" using p by (simp add: fun_eq_iff pointed_def)
    then have "owns L ?s" using Cons.prems(1) p unfolding owns_def by simp
    ultimately show ?thesis using p by (auto simp: same_shape_def sized_def)
  next
    case True
    let ?p = "t_next s" and ?n = "frame_bytes s x"
    let ?s = "s\<lparr>t_blocks := (t_blocks s)(?p \<mapsto> ?n), t_next := ?p + 1, t_calls := t_calls s + 1, f_ptr := (f_ptr s)(x := ?p)\<rparr>"
    have f1: "t_blocks s ?p = None" using Cons.prems(1) unfolding owns_def by (metis less_irrefl)
    then have fresh: "t_blocks s ?p = None" "?p \<noteq> 0" "\<not> pointed s ?p" "?p \<notin> L" using Cons.prems(1) by (auto simp: owns_def)
    have a: "alloc_all (x # xs) s = alloc_all xs ?s" using r True fresh(2) by (simp add: t_malloc_def)
    have pt: "pointed ?s q \<longleftrightarrow> pointed s q \<or> q = ?p" for q
    proof -
      have "f_ptr s x = 0" using Cons.prems(3) by simp
      then show ?thesis using fresh(2) unfolding pointed_def by (auto simp: fun_upd_def) (metis less_irrefl)
    qed
    have o: "owns L ?s"
    proof -
      have old: "\<forall>q. t_blocks s q \<noteq> None \<longleftrightarrow> pointed s q \<or> q \<in> L" "\<forall>q \<in> L. q \<noteq> 0 \<and> \<not> pointed s q"
        "\<forall>y z. f_ptr s y = f_ptr s z \<longrightarrow> f_ptr s y \<noteq> 0 \<longrightarrow> y = z" "\<forall>q. t_blocks s q \<noteq> None \<longrightarrow> q < ?p" "0 < ?p"
        using Cons.prems(1) unfolding owns_def by blast+
      have np: "f_ptr s y \<noteq> ?p" for y using fresh(2,3) unfolding pointed_def by blast
      have "\<forall>q. t_blocks ?s q \<noteq> None \<longleftrightarrow> pointed ?s q \<or> q \<in> L" using old(1) unfolding pt by simp
      moreover have "\<forall>q \<in> L. q \<noteq> 0 \<and> \<not> pointed ?s q" using old(2) fresh(4) unfolding pt by blast
      moreover have "\<forall>y z. f_ptr ?s y = f_ptr ?s z \<longrightarrow> f_ptr ?s y \<noteq> 0 \<longrightarrow> y = z" using old(3) np by simp metis
      moreover have "\<forall>q. t_blocks ?s q \<noteq> None \<longrightarrow> q < t_next ?s" using old(4) by (simp add: less_Suc_eq)
      moreover have "0 < t_next ?s" by simp
      ultimately show ?thesis unfolding owns_def by blast
    qed
    have "\<forall>y \<in> set xs. f_ptr ?s y = 0" using Cons.prems(2,3) by auto
    with Cons.IH [OF o] Cons.prems(2) obtain ok s' where s': "alloc_all xs ?s = Some (ok, s')" "owns L s'"
      "\<forall>y. y \<notin> set xs \<longrightarrow> f_ptr s' y = f_ptr ?s y \<and> (sized ?s y \<longrightarrow> sized s' y)" "same_shape ?s s'" "ok \<longrightarrow> (\<forall>y \<in> set xs. sized s' y)"
      by auto
    have x: "sized ?s x" using fresh(2) by (simp add: sized_def)
    have keep: "sized s y \<longrightarrow> sized ?s y" if "y \<noteq> x" for y
      using that fresh(3) by (auto simp: sized_def pointed_def)
    have "ok \<longrightarrow> (\<forall>y \<in> set (x # xs). sized s' y)" using s'(3,5) x Cons.prems(2) by auto
    moreover have "\<forall>y. y \<notin> set (x # xs) \<longrightarrow> f_ptr s' y = f_ptr s y \<and> (sized s y \<longrightarrow> sized s' y)" using s'(3) keep by auto
    moreover have "same_shape s s'" using s'(4) by (simp add: same_shape_def)
    ultimately show ?thesis using a s'(1,2) by auto
  qed
qed

lemma owns_none: "owns L s \<Longrightarrow> f_ptr s = (\<lambda>_. 0) \<Longrightarrow> t_blocks s p \<noteq> None \<longleftrightarrow> p \<in> L"
  by (auto simp: owns_def pointed_def)

lemma slots_distinct: "distinct image_slots" "distinct filter_slots" "set image_slots \<inter> set filter_slots = {}"
  by (simp_all add: image_slots_def filter_slots_def)

lemma slots_of_start: "f_ptr (thermal_start ok) = (\<lambda>_. 0)" by (simp add: thermal_start_def)

definition unused :: "thermal \<Rightarrow> bool" where
  \<comment> \<open>nothing but the thirteen frames is used\<close>
  "unused s \<longleftrightarrow> (\<forall>x. x \<notin> set (image_slots @ filter_slots) \<longrightarrow> f_ptr s x = 0)"

lemma myFreeBuffer_owned:
  assumes "owns L s" and "unused s"
  shows "\<exists>s'. myFreeBuffer s = Some s' \<and> owns L s' \<and> f_ptr s' = (\<lambda>_. 0) \<and> same_shape s s'"
proof -
  obtain s' where s': "release_all (image_slots @ filter_slots) s = Some s'" "owns L s'"
    "f_ptr s' = (\<lambda>x. if x \<in> set (image_slots @ filter_slots) then 0 else f_ptr s x)" "same_shape s s'"
    using release_all_owned [OF assms(1)] by blast
  then show ?thesis using assms(2) by (auto simp: myFreeBuffer_def unused_def fun_eq_iff)
qed

lemma myAllocBuffer_owned:
  assumes "owns L s" and "f_ptr s = (\<lambda>_. 0)"
  shows "\<exists>ok s'. myAllocBuffer s = Some (ok, s') \<and> owns L s' \<and> unused s' \<and> same_shape s s'
    \<and> (if ok then \<forall>x \<in> set (image_slots @ filter_slots). sized s' x else f_ptr s' = (\<lambda>_. 0))"
proof -
  obtain ok1 s1 where s1: "alloc_all image_slots s = Some (ok1, s1)" "owns L s1"
    "\<forall>x. x \<notin> set image_slots \<longrightarrow> f_ptr s1 x = f_ptr s x" "same_shape s s1" "ok1 \<longrightarrow> (\<forall>x \<in> set image_slots. sized s1 x)"
    using alloc_all_owned [OF assms(1) slots_distinct(1)] assms(2) by auto
  have "\<forall>x \<in> set filter_slots. f_ptr s1 x = 0" using s1(3) slots_distinct(3) assms(2) by auto
  then obtain ok2 s2 where s2: "alloc_all filter_slots s1 = Some (ok2, s2)" "owns L s2"
    "\<forall>x. x \<notin> set filter_slots \<longrightarrow> f_ptr s2 x = f_ptr s1 x \<and> (sized s1 x \<longrightarrow> sized s2 x)" "same_shape s1 s2"
    "ok2 \<longrightarrow> (\<forall>x \<in> set filter_slots. sized s2 x)"
    using alloc_all_owned [OF s1(2) slots_distinct(2)] by blast
  have u: "unused s2" using s1(3) s2(3) assms(2) by (simp add: unused_def)
  have sh: "same_shape s s2" using s1(4) s2(4) by (simp add: same_shape_def)
  show ?thesis
  proof (cases "ok1 \<and> ok2")
    case True
    then have "\<forall>x \<in> set (image_slots @ filter_slots). sized s2 x" using s1(5) s2(3,5) slots_distinct(3) by auto
    then show ?thesis using True s1(1) s2(1,2) u sh by (intro exI [of _ True] exI [of _ s2]) (simp add: myAllocBuffer_def)
  next
    case False
    obtain s3 where "myFreeBuffer s2 = Some s3" "owns L s3" "f_ptr s3 = (\<lambda>_. 0)" "same_shape s2 s3"
      using myFreeBuffer_owned [OF s2(2) u] by blast
    then show ?thesis using False s1(1) s2(1) sh
      by (intro exI [of _ False] exI [of _ s3]) (auto simp: myAllocBuffer_def unused_def same_shape_def)
  qed
qed

lemma owns_fields:
  "owns L (s\<lparr>f_width := a, f_height := b, bytesPerLine := c\<rparr>) \<longleftrightarrow> owns L s" "owns L (s\<lparr>openFlag := d\<rparr>) \<longleftrightarrow> owns L s"
  "owns L (s\<lparr>startFlag := d, openFlag := e, f_width := a, f_height := b, bytesPerLine := c\<rparr>) \<longleftrightarrow> owns L s"
  by (simp_all add: owns_def pointed_def)

lemma start_owned: "owns {} (thermal_start ok)"
  by (auto simp: owns_def pointed_def thermal_start_def)

lemma uvcOpen_owned:
  assumes "owns L s" and "unused s" and "pixelFmt s \<noteq> Format_Y16"
  shows "\<exists>ok s'. uvcOpen w h s = Some (ok, s') \<and> owns L s' \<and> unused s' \<and> pixelFmt s' = pixelFmt s
    \<and> (if ok then \<forall>x \<in> set (image_slots @ filter_slots). sized s' x else f_ptr s' = (\<lambda>_. 0))"
proof -
  obtain width height where wh: "(if rotateMode s = Rotate_0 \<or> rotateMode s = Rotate_180 then (w, h div 2) else (h div 2, w)) = (width, height)"
    by (cases "if rotateMode s = Rotate_0 \<or> rotateMode s = Rotate_180 then (w, h div 2) else (h div 2, w)") blast
  let ?s = "set_size width height s"
  have "owns L ?s" using assms(1) by (simp add: set_size_def Let_def owns_fields)
  moreover have "unused ?s" "f_ptr ?s = f_ptr s" using assms(2) by (simp_all add: set_size_def Let_def unused_def)
  ultimately obtain s1 where s1: "release_all (image_slots @ filter_slots) ?s = Some s1" "owns L s1" "f_ptr s1 = (\<lambda>_. 0)" "same_shape ?s s1"
    using myFreeBuffer_owned [of L ?s] by (auto simp: myFreeBuffer_def)
  obtain ok s2 where s2: "myAllocBuffer s1 = Some (ok, s2)" "owns L s2" "unused s2" "same_shape s1 s2"
    "if ok then \<forall>x \<in> set (image_slots @ filter_slots). sized s2 x else f_ptr s2 = (\<lambda>_. 0)"
    using myAllocBuffer_owned [OF s1(2,3)] by blast
  have fmt: "pixelFmt s2 = pixelFmt s" using s1(4) s2(4) by (simp add: same_shape_def set_size_def Let_def)
  show ?thesis
  proof (cases ok)
    case True
    have "uvcOpen w h s = Some (True, s2\<lparr>openFlag := True\<rparr>)"
      using wh assms(3) s1(1) s2(1) True unfolding uvcOpen_def by (simp add: Let_def)
    moreover have "\<forall>x \<in> set (image_slots @ filter_slots). sized (s2\<lparr>openFlag := True\<rparr>) x"
      using s2(5) True by (simp add: sized_def)
    ultimately show ?thesis using s2(2,3) fmt
      by (intro exI [of _ True] exI [of _ "s2\<lparr>openFlag := True\<rparr>"]) (simp add: owns_fields unused_def)
  next
    case False
    have "uvcOpen w h s = Some (False, s2)"
      using wh assms(3) s1(1) s2(1) False unfolding uvcOpen_def by (simp add: Let_def)
    then show ?thesis using s2(2,3,5) fmt False by (intro exI [of _ False] exI [of _ s2]) simp
  qed
qed

lemma close_result_owned:
  assumes "owns L s" and "f_ptr s (Img i) = 0" and "f_ptr s (Result i) \<noteq> 0"
  shows "\<exists>s'. close_result i s = Some s' \<and> owns (insert (f_ptr s (Result i)) L) s' \<and> f_ptr s' = (f_ptr s)(Result i := 0)"
proof -
  let ?p = "f_ptr s (Result i)" and ?s = "s\<lparr>f_ptr := (f_ptr s)(Result i := 0)\<rparr>"
  have old: "\<forall>q. t_blocks s q \<noteq> None \<longleftrightarrow> pointed s q \<or> q \<in> L" "\<forall>q \<in> L. q \<noteq> 0 \<and> \<not> pointed s q"
    "\<forall>y z. f_ptr s y = f_ptr s z \<longrightarrow> f_ptr s y \<noteq> 0 \<longrightarrow> y = z" "\<forall>q. t_blocks s q \<noteq> None \<longrightarrow> q < t_next s" "0 < t_next s"
    using assms(1) unfolding owns_def by blast+
  have pt: "pointed ?s q \<longleftrightarrow> pointed s q \<and> q \<noteq> ?p" for q
    using old(3) assms(3) by (auto simp: pointed_def fun_upd_def) metis
  have "pointed s ?p" using assms(3) by (auto simp: pointed_def)
  then have "owns (insert ?p L) ?s" using old assms(3) unfolding owns_def pt by (auto simp: fun_upd_def)
  moreover have "close_result i s = Some ?s" using assms(2,3) by (simp add: close_result_def t_free_def)
  ultimately show ?thesis by (intro exI [of _ ?s]) simp
qed

lemma uvcClose_owned:
  assumes "owns L s" and "unused s" and "f_ptr s (Result 0) \<noteq> 0" and "f_ptr s (Result 1) \<noteq> 0"
  shows "\<exists>s'. uvcClose s = Some (True, s') \<and> owns ({f_ptr s (Result 0), f_ptr s (Result 1)} \<union> L) s' \<and> f_ptr s' = (\<lambda>_. 0)"
proof -
  define t where "t = s\<lparr>startFlag := False, openFlag := False, f_width := (\<lambda>_. 0), f_height := (\<lambda>_. 0), bytesPerLine := (\<lambda>_. 0)\<rparr>"
  have t: "f_ptr t = f_ptr s" "t_blocks t = t_blocks s" "t_next t = t_next s" by (simp_all add: t_def)
  then have "pointed t = pointed s" by (simp add: pointed_def fun_eq_iff)
  then have "owns L t" using assms(1) t by (simp add: owns_def)
  from release_all_owned [OF this, of "[Frame 0, Raw 0, Img 0]"] obtain s1 where
    s1: "release_all [Frame 0, Raw 0, Img 0] t = Some s1" "owns L s1"
      "f_ptr s1 = (\<lambda>x. if x \<in> set [Frame 0, Raw 0, Img 0] then 0 else f_ptr s x)" unfolding t by blast
  from close_result_owned [OF s1(2), of 0] obtain s2 where
    s2: "close_result 0 s1 = Some s2" "owns (insert (f_ptr s (Result 0)) L) s2" "f_ptr s2 = (f_ptr s1)(Result 0 := 0)"
    using s1(3) assms(3) by auto
  from release_all_owned [OF s2(2), of "[Frame 1, Raw 1, Img 1]"] obtain s3 where
    s3: "release_all [Frame 1, Raw 1, Img 1] s2 = Some s3" "owns (insert (f_ptr s (Result 0)) L) s3"
      "f_ptr s3 = (\<lambda>x. if x \<in> set [Frame 1, Raw 1, Img 1] then 0 else f_ptr s2 x)" by blast
  from close_result_owned [OF s3(2), of 1] obtain s4 where
    s4: "close_result 1 s3 = Some s4" "owns (insert (f_ptr s (Result 1)) (insert (f_ptr s (Result 0)) L)) s4"
      "f_ptr s4 = (f_ptr s3)(Result 1 := 0)"
    using s1(3) s2(3) s3(3) assms(4) by auto
  from release_all_owned [OF s4(2), of filter_slots] obtain s5 where
    s5: "release_all filter_slots s4 = Some s5" "owns (insert (f_ptr s (Result 1)) (insert (f_ptr s (Result 0)) L)) s5"
      "f_ptr s5 = (\<lambda>x. if x \<in> set filter_slots then 0 else f_ptr s4 x)" by blast
  have "f_ptr s x = 0 \<Longrightarrow> f_ptr s5 x = 0" for x using s5(3) s4(3) s3(3) s2(3) s1(3) by simp
  then have "unused s5" using assms(2) by (simp add: unused_def)
  from myFreeBuffer_owned [OF s5(2) this] obtain s6 where
    s6: "myFreeBuffer s5 = Some s6" "owns (insert (f_ptr s (Result 1)) (insert (f_ptr s (Result 0)) L)) s6" "f_ptr s6 = (\<lambda>_. 0)"
    by blast
  have "uvcClose s = Some (True, s6)"
    using s1(1) s2(1) s3(1) s4(1) s5(1) s6(1) unfolding uvcClose_def Let_def t_def [symmetric] by (simp del: release_all.simps One_nat_def)
  then show ?thesis using s6(2,3) by (auto simp: insert_commute)
qed

lemma owns_format: "owns L (s\<lparr>bytesPerLine := c\<rparr>) \<longleftrightarrow> owns L s" "owns L (s\<lparr>pixelFmt := fmt\<rparr>) \<longleftrightarrow> owns L s"
  by (simp_all add: owns_def pointed_def)

lemma new_format_owned:
  assumes "owns L s"
  shows "\<exists>ok s'. new_format fmt i s = Some (ok, s') \<and> owns L s' \<and> (\<forall>x. x \<noteq> Frame i \<longrightarrow> f_ptr s' x = f_ptr s x)
    \<and> (if ok then sized s' (Frame i) else f_ptr s' (Frame i) = 0)"
proof -
  let ?s = "s\<lparr>bytesPerLine := (bytesPerLine s)(Frame i := line_bytes fmt (Frame i) (f_width s (Frame i)))\<rparr>"
  have "owns L ?s" using assms by (simp add: owns_format)
  from release_owned [OF this] obtain s1 where s1: "release (Frame i) ?s = Some s1" "owns L s1" "f_ptr s1 = (f_ptr s)(Frame i := 0)"
    by (metis thermal.ext_inject thermal.surjective thermal.update_convs(3) thermal.select_convs(4))
  from alloc_all_owned [OF s1(2), of "[Frame i]"] obtain ok s2 where s2: "alloc_all [Frame i] s1 = Some (ok, s2)" "owns L s2"
    "\<forall>x. x \<noteq> Frame i \<longrightarrow> f_ptr s2 x = f_ptr s1 x" "ok \<longrightarrow> sized s2 (Frame i)" using s1(3) by auto
  have "f_ptr s2 (Frame i) = 0" if "\<not> ok"
    using s2(1) that s1(3) by (auto simp: release_def t_malloc_def Let_def split: if_splits bind_splits)
  then show ?thesis using s1 s2 by (intro exI [of _ ok] exI [of _ s2]) (auto simp: new_format_def Let_def)
qed

lemma setPixelFormat_owned:
  \<comment> \<open>neither a leak nor a double release, whatever fails\<close>
  assumes "owns L s"
  shows "\<exists>ok s'. setPixelFormat fmt s = Some (ok, s') \<and> owns L s' \<and> (ok \<longrightarrow> pixelFmt s' = fmt)"
proof (cases "pixelFmt s = fmt \<or> fmt = Format_Y16")
  case True
  then show ?thesis using assms by (auto simp: setPixelFormat_def)
next
  case False
  obtain ok1 s1 where s1: "new_format fmt 0 s = Some (ok1, s1)" "owns L s1" using new_format_owned [OF assms] by blast
  obtain ok2 s2 where s2: "new_format fmt 1 s1 = Some (ok2, s2)" "owns L s2" using new_format_owned [OF s1(2)] by blast
  obtain s3 where s3: "release (Frame 0) s2 = Some s3" "owns L s3" using release_owned [OF s2(2)] by blast
  show ?thesis using False s1 s2 s3 by (cases ok1; cases ok2) (auto simp: setPixelFormat_def owns_format)
qed

lemma release_keeps: "release x s = Some s' \<Longrightarrow> t_ok s' = t_ok s \<and> t_next s' = t_next s"
  by (auto simp: release_def t_free_def split: if_splits)

lemma release_all_keeps: "release_all xs s = Some s' \<Longrightarrow> t_ok s' = t_ok s \<and> t_next s' = t_next s"
  by (induction xs arbitrary: s) (auto dest: release_keeps split: bind_splits)

lemma alloc_all_constant:
  \<comment> \<open>with an allocator that always works, or never\<close>
  "alloc_all xs s = Some (b, s') \<Longrightarrow> t_ok s = (\<lambda>_. v) \<Longrightarrow> 0 < t_next s \<Longrightarrow> b = (v \<or> xs = []) \<and> t_ok s' = t_ok s \<and> 0 < t_next s'"
proof (induction xs arbitrary: s)
  case (Cons x xs)
  from Cons.prems(1) obtain s1 where s1: "release x s = Some s1" by (auto split: bind_splits)
  note k = release_keeps [OF s1]
  show ?case
  proof (cases v)
    case True
    let ?s = "(snd (t_malloc (frame_bytes s1 x) s1))\<lparr>f_ptr := (f_ptr s1)(x := t_next s1)\<rparr>"
    have "alloc_all xs ?s = Some (b, s')" using Cons.prems s1 k True by (simp add: t_malloc_def)
    moreover have "t_ok ?s = (\<lambda>_. v)" "0 < t_next ?s" using Cons.prems(2,3) k True by (simp_all add: t_malloc_def)
    ultimately show ?thesis using Cons.IH True Cons.prems(2) by metis
  qed (use Cons.prems s1 k in \<open>auto simp: t_malloc_def\<close>)
qed simp

lemma uvcOpen_constant:
  assumes "uvcOpen w h (thermal_start (\<lambda>_. v)) = Some (b, s)"
  shows "b = v"
proof -
  obtain width height s1 where s1: "release_all (image_slots @ filter_slots) (set_size width height (thermal_start (\<lambda>_. v))) = Some s1"
      "(do { (ok, s) \<leftarrow> myAllocBuffer s1; if ok then Some (True, s\<lparr>openFlag := True\<rparr>) else Some (False, s) }) = Some (b, s)"
    using assms by (auto simp: uvcOpen_def thermal_start_def Let_def split: bind_splits)
  have "t_ok s1 = (\<lambda>_. v)" "0 < t_next s1"
    using release_all_keeps [OF s1(1)] by (simp_all add: set_size_def thermal_start_def Let_def)
  moreover obtain ok1 s2 ok2 s3 where s2: "alloc_all image_slots s1 = Some (ok1, s2)" and s3: "alloc_all filter_slots s2 = Some (ok2, s3)"
      and "b \<longleftrightarrow> ok1 \<and> ok2"
    using s1(2) by (auto simp: myAllocBuffer_def split: bind_splits if_splits)
  ultimately show ?thesis using alloc_all_constant [OF s2, of v] alloc_all_constant [OF s3, of v]
    by (auto simp: image_slots_def filter_slots_def)
qed



end
