(* ===== verification/ThermalFilter.thy ===== *)
theory ThermalFilter
  imports Pixel
begin

text \<open>
  The temperature filter of the thermal camera, \<open>processTemperature\<close> of \<open>thermalUsb.cpp\<close>: a mean over the nine
  neighbours of each pixel into one of five filter frames, then a mean over the five frames.  A frame is the list
  of its 16-bit values, \<open>l\<close> per line of \<open>w\<close> pixels.
\<close>

type_synonym i16 = "16 word"

definition K_SIZE :: nat where "K_SIZE = 1"
definition T_SIZE :: nat where "T_SIZE = 5"

definition c_div :: "int \<Rightarrow> int \<Rightarrow> int" where
  \<comment> \<open>the division of C, towards zero, by a positive number\<close>
  "c_div a b = (if a < 0 then - ((- a) div b) else a div b)"

definition inner :: "nat \<Rightarrow> nat" where
  \<comment> \<open>\<open>height - K_SIZE\<close>, which is unsigned\<close>
  "inner n = unat ((of_nat n :: u32) - of_nat K_SIZE)"

definition window_sum :: "i16 list \<Rightarrow> nat \<Rightarrow> nat \<Rightarrow> nat \<Rightarrow> int option" where
  "window_sum raw l i j =
     for_loop 0 (2 * K_SIZE + 1) (\<lambda>m. for_loop 0 (2 * K_SIZE + 1) (\<lambda>n sum. do {
       x \<leftarrow> read_at raw ((i - K_SIZE + m) * l + (j - K_SIZE) + n);
       Some (sum + sint x) })) 0"

definition filter_frame :: "i16 list \<Rightarrow> nat \<Rightarrow> nat \<Rightarrow> nat \<Rightarrow> i16 list \<Rightarrow> i16 list option" where
  "filter_frame raw l h w =
     for_loop K_SIZE (inner h) (\<lambda>i. for_loop K_SIZE (inner w) (\<lambda>j dst. do {
       sum \<leftarrow> window_sum raw l i j;
       write_at dst (i * l + j) [word_of_int (c_div sum (int ((2 * K_SIZE + 1) * (2 * K_SIZE + 1))))] }))"

definition result_frame :: "i16 list list \<Rightarrow> nat \<Rightarrow> nat \<Rightarrow> nat \<Rightarrow> i16 list \<Rightarrow> i16 list option" where
  "result_frame filters l h w =
     for_loop 0 h (\<lambda>i. for_loop 0 w (\<lambda>j dst. do {
       sum \<leftarrow> for_loop 0 T_SIZE (\<lambda>m sum. do { f \<leftarrow> read_at filters m; x \<leftarrow> read_at f (i * l); Some (sum + sint x) }) 0;
       write_at dst (i * l + j) [word_of_int (c_div sum (int T_SIZE))] }))"

record thermal_frames =
  filters :: "i16 list list"
  frameCnt :: nat
  results :: "i16 list list"
  frameIndex :: nat

definition processTemperature :: "nat \<Rightarrow> nat \<Rightarrow> nat \<Rightarrow> i16 list \<Rightarrow> thermal_frames \<Rightarrow> thermal_frames option" where
  "processTemperature l h w raw c = do {
     f \<leftarrow> read_at (filters c) (frameCnt c);
     f \<leftarrow> filter_frame raw l h w f;
     let c = c\<lparr>filters := (filters c)[frameCnt c := f], frameCnt := (if T_SIZE \<le> frameCnt c + 1 then 0 else frameCnt c + 1)\<rparr>;
     r \<leftarrow> read_at (results c) (frameIndex c);
     r \<leftarrow> result_frame (filters c) l h w r;
     Some (c\<lparr>results := (results c)[frameIndex c := r]\<rparr>) }"

fun temperature_images :: "nat \<Rightarrow> nat \<Rightarrow> nat \<Rightarrow> i16 list list \<Rightarrow> thermal_frames \<Rightarrow> i16 list list option" where
  \<comment> \<open>the result frames of successive raw frames; the camera's callback swaps the two frames\<close>
  "temperature_images l h w [] c = Some []"
| "temperature_images l h w (raw # raws) c = do {
     c \<leftarrow> processTemperature l h w raw c;
     rest \<leftarrow> temperature_images l h w raws (c\<lparr>frameIndex := 1 - frameIndex c\<rparr>);
     Some (results c ! frameIndex c # rest) }"

subsection \<open>What the loops touch\<close>

lemma for_loop_cong: "(\<And>j s. i \<le> j \<Longrightarrow> j < n \<Longrightarrow> body j s = body' j s) \<Longrightarrow> for_loop i n body s = for_loop i n body' s"
proof (induction i n body s rule: for_loop.induct)
  case (1 i n body s)
  then show ?case by (subst (1 2) for_loop.simps) (simp split: option.split)
qed

lemma for_loop_empty: "n \<le> i \<Longrightarrow> for_loop i n body = Some"
  by (rule ext, subst for_loop.simps) simp

lemma for_loop_Some: "for_loop i n (\<lambda>_. Some) s = Some s"
proof (cases "i \<le> n")
  case True
  then have "\<exists>s'. for_loop i n (\<lambda>_. Some) s = Some s' \<and> s' = s" by (intro for_loop_rule [where I = "\<lambda>_ s'. s' = s"]) auto
  then show ?thesis by simp
qed (simp add: for_loop_empty)

definition same_column :: "nat \<Rightarrow> nat \<Rightarrow> i16 list \<Rightarrow> i16 list \<Rightarrow> bool" where
  \<comment> \<open>frames that agree where the lines begin\<close>
  "same_column l h f g \<longleftrightarrow> length f = l * h \<and> length g = l * h \<and> (\<forall>i < h. f ! (i * l) = g ! (i * l))"

lemma inner_eq: "0 < n \<Longrightarrow> n < 2 ^ 32 \<Longrightarrow> inner n = n - 1"
proof -
  assume n: "0 < n" "n < 2 ^ 32"
  then have "unat (of_nat n :: u32) = n" by (simp add: unat_of_nat)
  then show ?thesis using n by (simp add: inner_def K_SIZE_def unat_sub_if' unat_of_nat)
qed

lemma write_at_column:
  assumes "same_column l h f g" and "i < h" and "0 < j" and "j < l"
  shows "\<exists>f'. write_at f (i * l + j) [x] = Some f' \<and> same_column l h f' g"
proof -
  have p: "i * l + j < l * h" using inside_frame [OF assms(2,4)] .
  have "i * l + j \<noteq> k * l" for k
  proof
    assume "i * l + j = k * l"
    then have "(i * l + j) mod l = 0" by simp
    then show False using assms(3,4) by simp
  qed
  then show ?thesis using p assms(1) by (auto simp: write_at_1 same_column_def)
qed

lemma window_sum_in:
  assumes "length raw = l * h" and "0 < i" "i + 1 < h" and "0 < j" "j + 1 < l"
  shows "\<exists>sum. window_sum raw l i j = Some sum"
proof -
  have rd: "\<exists>x. read_at raw ((i - 1 + m) * l + (j - 1) + n) = Some x" if "m < 3" "n < 3" for m n
  proof -
    have "(i - 1 + m) * l + (j - 1 + n) < l * h" using inside_frame [of "i - 1 + m" h "j - 1 + n" l] assms that by simp
    then show ?thesis using assms(1) by (simp add: read_at_def add.assoc)
  qed
  have row: "\<exists>s'. for_loop 0 3 (\<lambda>n sum. do { x \<leftarrow> read_at raw ((i - 1 + m) * l + (j - 1) + n); Some (sum + sint x) }) s = Some s' \<and> True"
    if "m < 3" for m s
    by (rule for_loop_rule [where I = "\<lambda>_ _. True"]) (use rd that in force)+
  have "\<exists>s'. for_loop 0 3 (\<lambda>m. for_loop 0 3 (\<lambda>n sum. do {
       x \<leftarrow> read_at raw ((i - 1 + m) * l + (j - 1) + n); Some (sum + sint x) })) 0 = Some s' \<and> True"
    by (rule for_loop_rule [where I = "\<lambda>_ _. True"]) (use row in blast)+
  then show ?thesis by (simp add: window_sum_def K_SIZE_def numeral_3_eq_3)
qed

lemma filter_frame_column:
  assumes "length raw = l * h" and "same_column l h f g" and "w \<le> l" and "0 < w" "w < 2 ^ 32" "0 < h" "h < 2 ^ 32"
  shows "\<exists>f'. filter_frame raw l h w f = Some f' \<and> same_column l h f' g"
proof (cases "1 < h \<and> 1 < w")
  case True
  have row: "\<exists>d'. for_loop 1 (w - 1) (\<lambda>j dst. do { sum \<leftarrow> window_sum raw l i j; write_at dst (i * l + j) [word_of_int (c_div sum 9)] }) d = Some d'
      \<and> same_column l h d' g" if i: "1 \<le> i" "i < h - 1" "same_column l h d g" for i d
  proof (rule for_loop_rule [where I = "\<lambda>_ d. same_column l h d g"])
    fix j s assume j: "1 \<le> j" "j < w - 1" "same_column l h s g"
    then obtain sum where "window_sum raw l i j = Some sum" 
      using window_sum_in [OF assms(1), of i j] i(1,2) assms(3) by (auto simp: less_diff_conv)
    then show "\<exists>s'. do { sum \<leftarrow> window_sum raw l i j; write_at s (i * l + j) [word_of_int (c_div sum 9)] } = Some s' \<and> same_column l h s' g"
      using write_at_column [OF j(3), of i j] i j assms(3) by auto
  qed (use True i in auto)
  have "\<exists>d'. for_loop 1 (h - 1) (\<lambda>i. for_loop 1 (w - 1) (\<lambda>j dst. do {
      sum \<leftarrow> window_sum raw l i j; write_at dst (i * l + j) [word_of_int (c_div sum 9)] })) f = Some d' \<and> same_column l h d' g"
    by (rule for_loop_rule [where I = "\<lambda>_ d. same_column l h d g"]) (use row True assms(2) in auto)
  then show ?thesis using inner_eq assms(4-7) by (simp add: filter_frame_def K_SIZE_def)
next
  case False
  then have "h = 1 \<or> w = 1" using assms(4,6) by linarith
  moreover have "inner h = h - 1" "inner w = w - 1" using inner_eq assms(4-7) by blast+
  ultimately show ?thesis using assms(2) by (auto simp: filter_frame_def K_SIZE_def for_loop_empty for_loop_Some)
qed

lemma result_frame_cong:
  assumes "\<And>m i. m < T_SIZE \<Longrightarrow> i < h \<Longrightarrow> do { f \<leftarrow> read_at fs m; read_at f (i * l) } = do { g \<leftarrow> read_at gs m; read_at g (i * l) }"
  shows "result_frame fs l h w d = result_frame gs l h w d"
proof -
  have "for_loop 0 T_SIZE (\<lambda>m sum. do { f \<leftarrow> read_at fs m; x \<leftarrow> read_at f (i * l); Some (sum + sint x) }) 0
      = for_loop 0 T_SIZE (\<lambda>m sum. do { f \<leftarrow> read_at gs m; x \<leftarrow> read_at f (i * l); Some (sum + sint x) }) 0"
    if i: "i < h" for i
  proof (rule for_loop_cong)
    fix m s assume "m < T_SIZE"
    then have "do { f \<leftarrow> read_at fs m; read_at f (i * l) } = do { g \<leftarrow> read_at gs m; read_at g (i * l) }" using assms i by blast
    then show "do { f \<leftarrow> read_at fs m; x \<leftarrow> read_at f (i * l); Some (s + sint x) }
        = do { f \<leftarrow> read_at gs m; x \<leftarrow> read_at f (i * l); Some (s + sint x) }"
      by (cases "read_at fs m"; cases "read_at gs m") (auto split: bind_splits)
  qed
  then show ?thesis unfolding result_frame_def by (intro for_loop_cong) simp
qed


lemma result_frame_in:
  assumes "length d = l * h" and "w \<le> l" and "0 < w" and "\<And>m. m < T_SIZE \<Longrightarrow> \<exists>f. read_at fs m = Some f \<and> length f = l * h"
  shows "\<exists>d'. result_frame fs l h w d = Some d' \<and> length d' = l * h"
proof -
  let ?sum = "\<lambda>i. for_loop 0 T_SIZE (\<lambda>m sum. do { f \<leftarrow> read_at fs m; x \<leftarrow> read_at f (i * l); Some (sum + sint x) }) 0"
  have sum: "\<exists>x. ?sum i = Some x \<and> True" if i: "i < h" for i
  proof (rule for_loop_rule [where I = "\<lambda>_ _. True"])
    fix m :: nat and s :: int
    assume "m < T_SIZE"
    then obtain f where f: "read_at fs m = Some f" "length f = l * h" using assms(4) by blast
    have "i * l + 0 < l * h" using i assms(2,3) by (intro inside_frame) auto
    then show "\<exists>s'. do { f \<leftarrow> read_at fs m; x \<leftarrow> read_at f (i * l); Some (s + sint x) } = Some s' \<and> True"
      using f by (simp add: read_at_in)
  qed auto
  have row: "\<exists>d'. for_loop 0 w (\<lambda>j dst. do { sum \<leftarrow> ?sum i; write_at dst (i * l + j) [word_of_int (c_div sum (int T_SIZE))] }) d = Some d'
      \<and> length d' = l * h" if i: "i < h" "length d = l * h" for i and d :: "i16 list"
  proof (rule for_loop_rule [where I = "\<lambda>_ d. length d = l * h"])
    fix j and s :: "i16 list" assume j: "j < w" "length s = l * h"
    obtain x where "?sum i = Some x" using sum i(1) by blast
    moreover have "i * l + j < l * h" using i(1) j(1) assms(2) by (intro inside_frame) auto
    ultimately show "\<exists>s'. do { sum \<leftarrow> ?sum i; write_at s (i * l + j) [word_of_int (c_div sum (int T_SIZE))] } = Some s' \<and> length s' = l * h"
      using j(2) by (simp add: write_at_1)
  qed (use i in auto)
  show ?thesis unfolding result_frame_def
    by (rule for_loop_rule [where I = "\<lambda>_ d. length d = l * h"]) (use row assms(1) in auto)
qed

subsection \<open>The images\<close>

definition frames_ok :: "nat \<Rightarrow> nat \<Rightarrow> thermal_frames \<Rightarrow> bool" where
  "frames_ok l h c \<longleftrightarrow> length (filters c) = T_SIZE \<and> list_all (\<lambda>f. length f = l * h) (filters c) \<and> frameCnt c < T_SIZE
     \<and> length (results c) = 2 \<and> list_all (\<lambda>f. length f = l * h) (results c) \<and> frameIndex c < 2"

definition alike :: "nat \<Rightarrow> nat \<Rightarrow> thermal_frames \<Rightarrow> thermal_frames \<Rightarrow> bool" where
  "alike l h c d \<longleftrightarrow> frames_ok l h c \<and> frames_ok l h d \<and> list_all2 (same_column l h) (filters c) (filters d)
     \<and> frameCnt c = frameCnt d \<and> results c = results d \<and> frameIndex c = frameIndex d"

lemma same_column_refl: "length f = l * h \<Longrightarrow> same_column l h f f"
  by (simp add: same_column_def)

lemma same_column_sym: "same_column l h f g \<Longrightarrow> same_column l h g f"
  by (simp add: same_column_def)

lemma same_column_trans: "same_column l h f g \<Longrightarrow> same_column l h g k \<Longrightarrow> same_column l h f k"
  by (simp add: same_column_def)

lemma alike_refl: "frames_ok l h c \<Longrightarrow> alike l h c c"
  by (auto simp: alike_def frames_ok_def list_all2_conv_all_nth list_all_length same_column_refl)

lemma filter_step:
  assumes "alike l h c d" and "length raw = l * h" and "length raw' = l * h" and "w \<le> l"
    and "0 < w" "w < 2 ^ 32" "0 < h" "h < 2 ^ 32"
  shows "\<exists>f f' g g'. read_at (filters c) (frameCnt c) = Some f \<and> filter_frame raw l h w f = Some f'
    \<and> read_at (filters d) (frameCnt c) = Some g \<and> filter_frame raw' l h w g = Some g' \<and> same_column l h f' g'"
proof -
  let ?f = "filters c ! frameCnt c" and ?g = "filters d ! frameCnt c"
  have m: "frameCnt c < length (filters c)" "frameCnt c < length (filters d)" "same_column l h ?f ?g"
    using assms(1) by (auto simp: alike_def frames_ok_def list_all2_conv_all_nth)
  obtain f' where f': "filter_frame raw l h w ?f = Some f'" "same_column l h f' ?g"
    using filter_frame_column [OF assms(2) m(3) assms(4-8)] by blast
  obtain g' where g': "filter_frame raw' l h w ?g = Some g'" "same_column l h g' f'"
    using filter_frame_column [OF assms(3) same_column_sym [OF f'(2)] assms(4-8)] by blast
  show ?thesis using m(1,2) f'(1) g'(1) same_column_sym [OF g'(2)] by (auto simp: read_at_in)
qed

lemma processTemperature_alike:
  assumes "alike l h c d" and "length raw = l * h" and "length raw' = l * h" and "w \<le> l"
    and "0 < w" "w < 2 ^ 32" "0 < h" "h < 2 ^ 32"
  shows "\<exists>c' d'. processTemperature l h w raw c = Some c' \<and> processTemperature l h w raw' d = Some d' \<and> alike l h c' d'"
proof -
  obtain f f' g g' where s: "read_at (filters c) (frameCnt c) = Some f" "filter_frame raw l h w f = Some f'"
    "read_at (filters d) (frameCnt c) = Some g" "filter_frame raw' l h w g = Some g'" "same_column l h f' g'"
    using filter_step [OF assms] by blast
  define fs gs where "fs = (filters c)[frameCnt c := f']" and "gs = (filters d)[frameCnt c := g']"
  have same: "list_all2 (same_column l h) fs gs" using assms(1) s(5) unfolding fs_def gs_def alike_def by (intro list_all2_update_cong) auto
  have n: "length fs = T_SIZE" "length gs = T_SIZE" using assms(1) by (simp_all add: fs_def gs_def alike_def frames_ok_def)
  have fl: "length (fs ! m) = l * h" "length (gs ! m) = l * h" "i < h \<Longrightarrow> fs ! m ! (i * l) = gs ! m ! (i * l)" if "m < T_SIZE" for m i
    using list_all2_nthD [OF same, of m] that n by (auto simp: same_column_def)
  have r: "frameIndex c < length (results c)" "length (results c ! frameIndex c) = l * h" "results d = results c" "frameIndex d = frameIndex c"
    "frameCnt d = frameCnt c" using assms(1) by (auto simp: alike_def frames_ok_def list_all_length)
  obtain r' where r': "result_frame fs l h w (results c ! frameIndex c) = Some r'" "length r' = l * h"
    using result_frame_in [OF r(2) assms(4,5), of fs] fl(1) n(1) by (auto simp: read_at_in)
  have "result_frame gs l h w (results c ! frameIndex c) = result_frame fs l h w (results c ! frameIndex c)"
  proof (rule result_frame_cong)
    fix m i assume mi: "m < T_SIZE" "i < h"
    have "i * l + 0 < l * h" using mi(2) assms(4,5) by (intro inside_frame) auto
    then show "do { f \<leftarrow> read_at gs m; read_at f (i * l) } = do { g \<leftarrow> read_at fs m; read_at g (i * l) }"
      using mi fl n by (simp add: read_at_in)
  qed
  note res = r'(1) this
  let ?next = "if T_SIZE \<le> frameCnt c + 1 then 0 else frameCnt c + 1"
  let ?c = "c\<lparr>filters := fs, frameCnt := ?next, results := (results c)[frameIndex c := r']\<rparr>"
    and ?d = "d\<lparr>filters := gs, frameCnt := ?next, results := (results c)[frameIndex c := r']\<rparr>"
  have "processTemperature l h w raw c = Some ?c" "processTemperature l h w raw' d = Some ?d"
    using s(1-4) res r by (simp_all add: processTemperature_def read_at_in fs_def gs_def Let_def)
  moreover have rs: "list_all (\<lambda>f. length f = l * h) ((results c)[frameIndex c := r'])"
    using assms(1) r'(2) by (auto simp: alike_def frames_ok_def list_all_length nth_list_update)
  have old: "frames_ok l h c" "frames_ok l h d" using assms(1) by (simp_all add: alike_def)
  have nx: "?next < T_SIZE" by (simp add: T_SIZE_def)
  have "list_all (\<lambda>f. length f = l * h) fs" "list_all (\<lambda>f. length f = l * h) gs" using fl(1,2) n by (simp_all add: list_all_length)
  then have "frames_ok l h ?c" "frames_ok l h ?d" using old n rs nx r(4) r(3) unfolding frames_ok_def by (simp_all split del: if_split)
  then have "alike l h ?c ?d" unfolding alike_def using same r(4) by simp
  ultimately show ?thesis by blast
qed

lemma images_alike:
  "length raws = length raws' \<Longrightarrow> alike l h c d \<Longrightarrow> list_all (\<lambda>r. length r = l * h) raws \<Longrightarrow> list_all (\<lambda>r. length r = l * h) raws'
   \<Longrightarrow> w \<le> l \<Longrightarrow> 0 < w \<Longrightarrow> w < 2 ^ 32 \<Longrightarrow> 0 < h \<Longrightarrow> h < 2 ^ 32
   \<Longrightarrow> \<exists>out. temperature_images l h w raws c = Some out \<and> temperature_images l h w raws' d = Some out"
proof (induction raws raws' arbitrary: c d rule: list_induct2)
  case (Cons raw raws raw' raws')
  obtain c' d' where p: "processTemperature l h w raw c = Some c'" "processTemperature l h w raw' d = Some d'" "alike l h c' d'"
    using processTemperature_alike [of l h c d raw raw' w] Cons.prems by auto
  then have "alike l h (c'\<lparr>frameIndex := 1 - frameIndex c'\<rparr>) (d'\<lparr>frameIndex := 1 - frameIndex d'\<rparr>)"
    by (auto simp: alike_def frames_ok_def)
  with Cons.IH Cons.prems obtain out where
    "temperature_images l h w raws (c'\<lparr>frameIndex := 1 - frameIndex c'\<rparr>) = Some out"
    "temperature_images l h w raws' (d'\<lparr>frameIndex := 1 - frameIndex d'\<rparr>) = Some out" by auto
  then show ?case using p by (auto simp: alike_def)
qed simp

text \<open>
  C40: the temperatures are not in the temperature image.  For raw frames of the right size and any contents of
  the frame buffers, the filter runs through with every access inside its buffer, but two sequences of raw
  frames, however different, give the same result frames: the mean over the five filter frames reads the first
  value of a line for every pixel of it, and the filter never writes the first value.\<close>

theorem temperature_ignored:
  assumes "frames_ok l h c" and "w \<le> l" and "0 < w" "w < 2 ^ 32" and "0 < h" "h < 2 ^ 32"
    and "list_all (\<lambda>r. length r = l * h) raws" and "list_all (\<lambda>r. length r = l * h) raws'" and "length raws = length raws'"
  shows "temperature_images l h w raws c = temperature_images l h w raws' c \<and> temperature_images l h w raws c \<noteq> None"
  using images_alike [OF assms(9) alike_refl [OF assms(1)] assms(7,8) assms(2-6)] by auto

definition demo_frames :: thermal_frames where
  \<comment> \<open>three lines of four pixels, as the allocator may leave them\<close>
  "demo_frames = \<lparr>filters = replicate 5 (replicate 12 7), frameCnt = 0, results = replicate 2 (replicate 12 0), frameIndex = 0\<rparr>"

theorem temperature_ignored_witness:
  "temperature_images 4 3 4 [replicate 12 300, replicate 12 301] demo_frames
    = temperature_images 4 3 4 [replicate 12 (- 40), [1, 2, 3, 4, 5, 6, 7, 8, 9, 10, 11, 12]] demo_frames"
proof -
  have "frames_ok 4 3 demo_frames" by code_simp
  then show ?thesis
    using temperature_ignored [of 4 3 demo_frames 4 "[replicate 12 300, replicate 12 301]"
        "[replicate 12 (- 40), [1, 2, 3, 4, 5, 6, 7, 8, 9, 10, 11, 12]]"] by simp
qed

lemma filter_demo:
  "processTemperature 4 3 4 (replicate 12 300) demo_frames =
     Some (demo_frames\<lparr>filters := [7, 7, 7, 7, 7, 300, 300, 7, 7, 7, 7, 7] # replicate 4 (replicate 12 7), frameCnt := 1,
       results := [replicate 12 7, replicate 12 0]\<rparr>)"
  by code_simp

end
