(* ===== verification/ThermalTurn.thy ===== *)
theory ThermalTurn
  imports Thermal ThermalFilter
begin

text \<open>
  How a frame of the thermal camera becomes an image and a temperature frame: the first part of \<open>uvc_cb\<close> in
  \<open>thermalUsb.cpp\<close>.  The camera sends the image above the temperatures; both are turned as \<open>uvcOpen\<close> sized the
  frames.  A frame is the list of its 16-bit values, \<open>l\<close> to a line of \<open>2 * l\<close> bytes; positions are computed in
  the unsigned 32-bit arithmetic of the code.
\<close>

datatype temperature_mode = KelvinMode | CentigradeMode | FahrenheitMode

definition fahrenheit :: "i16 \<Rightarrow> i16 option" where
  \<comment> \<open>\<open>(int16_t)(x * 1.8 - 7354)\<close>, fifths truncated towards zero; the conversion of a value that does not fit is
     undefined.  The rounding of the double product does not matter: it is exact for the multiples of five,
     and every other value is a fifth or more away from an integer\<close>
  "fahrenheit x =
     (let t = c_div (9 * sint x - 5 * 7354) 5 in if - (2 ^ 15) \<le> t \<and> t < 2 ^ 15 then Some (word_of_int t) else None)"

fun in_mode :: "temperature_mode \<Rightarrow> i16 \<Rightarrow> i16 option" where
  "in_mode KelvinMode x = Some x"
| "in_mode CentigradeMode x = Some (word_of_int (sint x - 4370))"
| "in_mode FahrenheitMode x = fahrenheit x"

fun img_pos :: "rotate_mode \<Rightarrow> nat \<Rightarrow> u32 \<Rightarrow> u32 \<Rightarrow> u32 \<Rightarrow> u32 \<Rightarrow> nat" where
  "img_pos Rotate_0 l h w i j = unat (of_nat (2 * l) * i) div 2 + unat j"
| "img_pos Rotate_180 l h w i j = unat (of_nat (2 * l) * (h - 1 - i)) div 2 + unat (w - 1 - j)"
| "img_pos Rotate_90 l h w i j = unat (j * of_nat (2 * l) div 2 + w - 1 - i)"
| "img_pos Rotate_270 l h w i j = unat ((h - 1 - j) * of_nat (2 * l) div 2 + i)"

fun temp_pos :: "rotate_mode \<Rightarrow> temperature_mode \<Rightarrow> nat \<Rightarrow> u32 \<Rightarrow> u32 \<Rightarrow> u32 \<Rightarrow> u32 \<Rightarrow> nat" where
  "temp_pos Rotate_0 mode l h w i j = unat (of_nat (2 * l) * i) div 2 + unat j"
| "temp_pos Rotate_180 mode l h w i j = unat (of_nat (2 * l) * (h - 1 - i)) div 2 + unat (w - 1 - j)"
| "temp_pos Rotate_90 mode l h w i j =
     (case mode of
        KelvinMode \<Rightarrow> unat (j * of_nat (2 * l) + w - 1 - i)   \<comment> \<open>not halved\<close>
      | _ \<Rightarrow> unat (j * of_nat (2 * l) div 2 + w - 1 - i))"
| "temp_pos Rotate_270 mode l h w i j = unat ((h - 1 - j) * of_nat (2 * l) div 2 + w - 1 - i)"

record uvc_frame =
  uvc_data :: "i16 list"
  uvc_width :: nat
  uvc_height :: nat
  uvc_step :: nat   \<comment> \<open>in values\<close>

definition turn_pixel :: "rotate_mode \<Rightarrow> temperature_mode \<Rightarrow> nat \<Rightarrow> nat \<Rightarrow> nat \<Rightarrow> uvc_frame \<Rightarrow> nat \<Rightarrow> nat
    \<Rightarrow> i16 list \<times> i16 list \<Rightarrow> (i16 list \<times> i16 list) option" where
  "turn_pixel r mode l h w f i j = (\<lambda>(img, temp). do {
     x \<leftarrow> read_at (uvc_data f) (uvc_step f * i + j);
     img \<leftarrow> write_at img (img_pos r l (of_nat h) (of_nat w) (of_nat i) (of_nat j)) [x];
     t \<leftarrow> read_at (uvc_data f) (uvc_step f * (i + uvc_height f div 2) + j);
     t \<leftarrow> in_mode mode t;
     temp \<leftarrow> write_at temp (temp_pos r mode l (of_nat h) (of_nat w) (of_nat i) (of_nat j)) [t];
     Some (img, temp) })"

definition turn_frame :: "rotate_mode \<Rightarrow> temperature_mode \<Rightarrow> nat \<Rightarrow> nat \<Rightarrow> nat \<Rightarrow> uvc_frame
    \<Rightarrow> i16 list \<times> i16 list \<Rightarrow> (i16 list \<times> i16 list) option" where
  "turn_frame r mode l h w f = for_loop 0 (uvc_height f div 2) (\<lambda>i. for_loop 0 (uvc_width f) (turn_pixel r mode l h w f i))"

subsection \<open>Where the pixels go\<close>

fun turned :: "rotate_mode \<Rightarrow> nat \<Rightarrow> nat \<Rightarrow> nat \<Rightarrow> nat \<Rightarrow> nat \<times> nat" where
  \<comment> \<open>line and column of the pixel \<open>j\<close> of line \<open>i\<close> in a frame of \<open>h\<close> lines of \<open>w\<close>\<close>
  "turned Rotate_0 h w i j = (i, j)"
| "turned Rotate_180 h w i j = (h - 1 - i, w - 1 - j)"
| "turned Rotate_90 h w i j = (j, w - 1 - i)"
| "turned Rotate_270 h w i j = (h - 1 - j, i)"

definition temp_turned :: "rotate_mode \<Rightarrow> nat \<Rightarrow> nat \<Rightarrow> nat \<Rightarrow> nat \<Rightarrow> nat \<times> nat" where
  \<comment> \<open>the temperatures of the last mode are mirrored\<close>
  "temp_turned r h w i j = (let (y, x) = turned r h w i j in (y, if r = Rotate_270 then w - 1 - x else x))"

definition at_line :: "nat \<Rightarrow> nat \<times> nat \<Rightarrow> nat" where
  "at_line l = (\<lambda>(y, x). y * l + x)"

definition frame_size :: "rotate_mode \<Rightarrow> nat \<Rightarrow> nat \<Rightarrow> nat \<times> nat" where
  \<comment> \<open>height and width that \<open>uvcOpen\<close> gives the frames for \<open>H\<close> lines of \<open>W\<close> pixels\<close>
  "frame_size r H W = (if r = Rotate_0 \<or> r = Rotate_180 then (H, W) else (W, H))"

lemma turned_inside:
  assumes "(h, w) = frame_size r H W" and "i < H" and "j < W"
  shows "fst (turned r h w i j) < h" "snd (turned r h w i j) < w"
  using assms by (cases r; auto simp: frame_size_def)+

lemma turned_inj:
  assumes "(h, w) = frame_size r H W" and "i < H" "j < W" "i' < H" "j' < W" and "turned r h w i j = turned r h w i' j'"
  shows "i = i' \<and> j = j'"
  using assms by (cases r) (auto simp: frame_size_def)

lemma temp_turned_inside:
  assumes "(h, w) = frame_size r H W" and "i < H" and "j < W"
  shows "fst (temp_turned r h w i j) < h" "snd (temp_turned r h w i j) < w"
  using turned_inside [OF assms] by (auto simp: temp_turned_def split_beta)

lemma temp_turned_inj:
  assumes "(h, w) = frame_size r H W" and "i < H" "j < W" "i' < H" "j' < W" and "temp_turned r h w i j = temp_turned r h w i' j'"
  shows "i = i' \<and> j = j'"
proof -
  have "turned r h w i j = turned r h w i' j'"
    using assms(6) turned_inside(2) [OF assms(1-3)] turned_inside(2) [OF assms(1,4,5)]
    by (auto simp: temp_turned_def split_beta prod_eq_iff split: if_splits)
  then show ?thesis using turned_inj [OF assms(1-5)] by blast
qed

lemma at_line_inj:
  assumes "snd p < l" and "snd q < l" and "at_line l p = at_line l q"
  shows "p = q"
proof -
  have "at_line l p div l = fst p" "at_line l p mod l = snd p" if "snd p < l" for p :: "nat \<times> nat"
    using that by (auto simp: at_line_def split_beta)
  then show ?thesis using assms by (metis prod_eq_iff)
qed

lemma unat_of: "n < 2 ^ 32 \<Longrightarrow> unat (of_nat n :: u32) = n"
  by (simp add: unat_of_nat)

lemma word_minus: "i < n \<Longrightarrow> of_nat n - 1 - of_nat i = (of_nat (n - 1 - i) :: u32)"
  by (simp add: of_nat_diff)

lemma half_line:
  assumes "2 * (l * k) < 2 ^ 32"
  shows "of_nat k * of_nat (2 * l) div 2 = (of_nat (k * l) :: u32)"
proof -
  have "of_nat k * of_nat (2 * l) = (of_nat (2 * (k * l)) :: u32)" by (simp add: algebra_simps)
  moreover have "unat (of_nat (2 * (k * l)) :: u32) = 2 * (k * l)" by (rule unat_of) (use assms in \<open>simp add: mult.commute\<close>)
  ultimately have "unat (of_nat k * of_nat (2 * l) div 2 :: u32) = k * l" by (simp only: unat_div) simp
  moreover have "unat (of_nat (k * l) :: u32) = k * l" by (rule unat_of) (use assms in \<open>simp add: mult.commute\<close>)
  ultimately show ?thesis by (simp only: word_unat_eq_iff)
qed

lemma line_start:
  assumes "2 * (l * k) < 2 ^ 32"
  shows "unat (of_nat (2 * l) * of_nat k :: u32) div 2 = k * l"
proof -
  have "of_nat (2 * l) * of_nat k = (of_nat (2 * (k * l)) :: u32)" by (simp add: algebra_simps)
  moreover have "unat (of_nat (2 * (k * l)) :: u32) = 2 * (k * l)" by (rule unat_of) (use assms in \<open>simp add: mult.commute\<close>)
  ultimately show ?thesis by (simp only:)
qed

lemma in_line:
  assumes "2 * (l * h) < 2 ^ 32" and "k < h" and "w \<le> l" and "x < w"
  shows "unat (of_nat (k * l) + of_nat x :: u32) = k * l + x" and "2 * (l * k) < 2 ^ 32" and "x < 2 ^ 32"
proof -
  have p: "k * l + x < l * h" using inside_frame [of k h x l] assms by simp
  then have "unat (of_nat (k * l + x) :: u32) = k * l + x" using assms(1) by (intro unat_of) linarith
  then show "unat (of_nat (k * l) + of_nat x :: u32) = k * l + x" by simp
  show "2 * (l * k) < 2 ^ 32" "x < 2 ^ 32" using p assms(1) by (auto simp: mult.commute)
qed

lemma line_end:
  assumes "2 * (l * h) < 2 ^ 32" and "k < h" and "w \<le> l" and "i < w"
  shows "unat (of_nat k * of_nat (2 * l) div 2 + of_nat w - 1 - of_nat i :: u32) = k * l + (w - 1 - i)"
proof -
  have "w - 1 - i < w" using assms(4) by simp
  note l = in_line [OF assms(1-3) this]
  have "of_nat (k * l) + of_nat w - 1 - of_nat i = (of_nat (k * l) + of_nat (w - 1 - i) :: u32)"
    using word_minus [OF assms(4)] by (simp only: add_diff_eq [symmetric])
  then show ?thesis using l(1) half_line [OF l(2)] by (simp only:)
qed

lemma img_pos_turned:
  assumes "(h, w) = frame_size r H W" and "i < H" "j < W" and "w \<le> l" and "2 * (l * h) < 2 ^ 32"
  shows "img_pos r l (of_nat h) (of_nat w) (of_nat i) (of_nat j) = at_line l (turned r h w i j)"
proof -
  obtain y x where yx: "turned r h w i j = (y, x)" "y < h" "x < w"
    using turned_inside [OF assms(1-3)] by (cases "turned r h w i j") auto
  note l = in_line [OF assms(5) yx(2) assms(4) yx(3)]
  show ?thesis
  proof (cases "r = Rotate_90")
    case True
    then have "i < w" "j < h" using assms(1-3) by (auto simp: frame_size_def)
    then show ?thesis using True line_end [OF assms(5) _ assms(4)] by (simp only: img_pos.simps turned.simps at_line_def split_conv)
  qed (cases r; use yx assms(1-3) l half_line [OF l(2)] line_start [OF l(2)] unat_of [OF l(3)] in
      \<open>auto simp: at_line_def frame_size_def word_minus simp del: of_nat_mult\<close>)+
qed

lemma temp_pos_turned:
  assumes "(h, w) = frame_size r H W" and "i < H" "j < W" and "w \<le> l" and "2 * (l * h) < 2 ^ 32"
    and "\<not> (r = Rotate_90 \<and> mode = KelvinMode)"
  shows "temp_pos r mode l (of_nat h) (of_nat w) (of_nat i) (of_nat j) = at_line l (temp_turned r h w i j)"
proof (cases "r = Rotate_270")
  case True
  then have ij: "i < w" "j < h" "h - 1 - j < h" using assms(1-3) by (auto simp: frame_size_def)
  then have "w - 1 - i < w" by simp
  have "unat ((of_nat h - 1 - of_nat j) * of_nat (2 * l) div 2 + of_nat w - 1 - of_nat i :: u32) = (h - 1 - j) * l + (w - 1 - i)"
    unfolding word_minus [OF ij(2)] by (rule line_end [OF assms(5) ij(3) assms(4) ij(1)])
  then show ?thesis using True by (simp only: temp_pos.simps temp_turned_def turned.simps at_line_def split_conv Let_def simp_thms if_True)
next
  case False
  have "temp_pos r mode l (of_nat h) (of_nat w) (of_nat i) (of_nat j) = img_pos r l (of_nat h) (of_nat w) (of_nat i) (of_nat j)"
    using False assms(6) by (cases r; cases mode; simp)
  then show ?thesis using False img_pos_turned [OF assms(1-5)] by (simp add: temp_turned_def split_beta)
qed

subsection \<open>The turned frame\<close>

lemma grid_rule:
  assumes "\<And>i j s. i < H \<Longrightarrow> j < W \<Longrightarrow> P (i * W + j) s \<Longrightarrow> \<exists>s'. body i j s = Some s' \<and> P (i * W + j + 1) s'" and "P 0 s"
  shows "\<exists>s'. for_loop 0 H (\<lambda>i. for_loop 0 W (body i)) s = Some s' \<and> P (H * W) s'"
proof -
  have "\<exists>s'. for_loop 0 W (body i) s = Some s' \<and> P (i * W + W) s'" if i: "i < H" "P (i * W + 0) s" for i s
    by (rule for_loop_rule [where I = "\<lambda>j. P (i * W + j)"]) (use assms(1) [OF i(1)] i(2) in auto)
  then show ?thesis by (intro for_loop_rule [where I = "\<lambda>i. P (i * W)"]) (use assms(2) in \<open>auto simp: add.commute\<close>)
qed

lemma for_loop_fails:
  assumes "\<And>j s s'. I s \<Longrightarrow> body j s = Some s' \<Longrightarrow> I s'" and "\<And>s. I s \<Longrightarrow> body k s = None"
  shows "I s \<Longrightarrow> i \<le> k \<Longrightarrow> k < n \<Longrightarrow> for_loop i n body s = None"
  using assms
proof (induction i n body s rule: for_loop.induct)
  case (1 i n body s)
  show ?case
  proof (cases "body i s")
    case None
    then show ?thesis using "1.prems"(2,3) by (subst for_loop.simps) simp
  next
    case (Some s')
    then have "i \<noteq> k" using "1.prems"(1,5) by auto
    then have "for_loop (i + 1) n body s' = None"
      using "1.prems" Some by (intro "1.IH") auto
    then show ?thesis using Some "1.prems"(2,3) by (subst for_loop.simps) simp
  qed
qed

definition image_at :: "uvc_frame \<Rightarrow> nat \<Rightarrow> nat \<Rightarrow> i16" where
  "image_at f i j = uvc_data f ! (uvc_step f * i + j)"

definition temp_at :: "uvc_frame \<Rightarrow> nat \<Rightarrow> nat \<Rightarrow> i16" where
  "temp_at f i j = uvc_data f ! (uvc_step f * (i + uvc_height f div 2) + j)"

definition frame_ok :: "temperature_mode \<Rightarrow> uvc_frame \<Rightarrow> bool" where
  "frame_ok mode f \<longleftrightarrow> length (uvc_data f) = uvc_step f * uvc_height f \<and> uvc_width f \<le> uvc_step f
     \<and> list_all (\<lambda>t. in_mode mode t \<noteq> None) (uvc_data f)"

lemma frame_read:
  assumes "frame_ok mode f" and "i < uvc_height f div 2" and "j < uvc_width f"
  shows "read_at (uvc_data f) (uvc_step f * i + j) = Some (image_at f i j)"
    and "read_at (uvc_data f) (uvc_step f * (i + uvc_height f div 2) + j) = Some (temp_at f i j)"
    and "\<exists>t. in_mode mode (temp_at f i j) = Some t"
proof -
  have "i * uvc_step f + j < uvc_step f * uvc_height f" "(i + uvc_height f div 2) * uvc_step f + j < uvc_step f * uvc_height f"
    using inside_frame [of _ "uvc_height f" j "uvc_step f"] assms by (auto simp: frame_ok_def)
  then have "uvc_step f * i + j < length (uvc_data f)" "uvc_step f * (i + uvc_height f div 2) + j < length (uvc_data f)"
    using assms(1) by (simp_all add: frame_ok_def mult.commute)
  then show "read_at (uvc_data f) (uvc_step f * i + j) = Some (image_at f i j)"
    "read_at (uvc_data f) (uvc_step f * (i + uvc_height f div 2) + j) = Some (temp_at f i j)"
    "\<exists>t. in_mode mode (temp_at f i j) = Some t"
    using assms(1) by (auto simp: image_at_def temp_at_def read_at_in frame_ok_def list_all_length)
qed

lemma at_line_inside: "fst p < h \<Longrightarrow> snd p < l \<Longrightarrow> at_line l p < l * h"
  using inside_frame [of "fst p" h "snd p" l] by (simp add: at_line_def split_beta)

definition copied :: "rotate_mode \<Rightarrow> temperature_mode \<Rightarrow> nat \<Rightarrow> nat \<Rightarrow> nat \<Rightarrow> uvc_frame \<Rightarrow> nat \<Rightarrow> i16 list \<times> i16 list \<Rightarrow> bool" where
  \<comment> \<open>the first \<open>k\<close> pixels are in the two frames\<close>
  "copied r mode l h w f k = (\<lambda>(img, temp). length img = l * h \<and> length temp = l * h
     \<and> (\<forall>i < uvc_height f div 2. \<forall>j < uvc_width f. i * uvc_width f + j < k \<longrightarrow>
          img ! at_line l (turned r h w i j) = image_at f i j
          \<and> in_mode mode (temp_at f i j) = Some (temp ! at_line l (temp_turned r h w i j))))"

lemma pixel_index_inj:
  assumes "j < W" and "j' < W" and "i * W + j = i' * W + (j' :: nat)"
  shows "i = i' \<and> j = j'"
  using at_line_inj [of "(i, j)" W "(i', j')"] assms by (simp add: at_line_def)

lemma turn_pixel_copied:
  assumes sz: "(h, w) = frame_size r (uvc_height f div 2) (uvc_width f)" "w \<le> l" "2 * (l * h) < 2 ^ 32"
    and f: "frame_ok mode f" and k: "\<not> (r = Rotate_90 \<and> mode = KelvinMode)"
    and ij: "i < uvc_height f div 2" "j < uvc_width f" and s: "copied r mode l h w f (i * uvc_width f + j) s"
  shows "\<exists>s'. turn_pixel r mode l h w f i j s = Some s' \<and> copied r mode l h w f (i * uvc_width f + j + 1) s'"
proof -
  obtain img temp where it: "s = (img, temp)" "length img = l * h" "length temp = l * h"
    using s by (cases s) (auto simp: copied_def)
  obtain t where t: "in_mode mode (temp_at f i j) = Some t" using frame_read(3) [OF f ij] by blast
  let ?p = "\<lambda>i j. at_line l (turned r h w i j)" and ?q = "\<lambda>i j. at_line l (temp_turned r h w i j)"
  have cols: "snd (turned r h w a b) < l" "snd (temp_turned r h w a b) < l"
    if "a < uvc_height f div 2" "b < uvc_width f" for a b
    using turned_inside(2) [OF sz(1) that] temp_turned_inside(2) [OF sz(1) that] sz(2) by linarith+
  have inside: "?p i j < l * h" "?q i j < l * h"
    using turned_inside(1) [OF sz(1) ij] temp_turned_inside(1) [OF sz(1) ij] cols [OF ij] by (intro at_line_inside; simp)+
  have other: "?p a b \<noteq> ?p i j" "?q a b \<noteq> ?q i j" if ab: "a < uvc_height f div 2" "b < uvc_width f" "(a, b) \<noteq> (i, j)" for a b
    using at_line_inj [OF cols(1) [OF ab(1,2)] cols(1) [OF ij]] at_line_inj [OF cols(2) [OF ab(1,2)] cols(2) [OF ij]]
      turned_inj [OF sz(1) ab(1,2) ij] temp_turned_inj [OF sz(1) ab(1,2) ij] ab(3) by auto
  have "turn_pixel r mode l h w f i j s = Some (img[?p i j := image_at f i j], temp[?q i j := t])"
    using it inside t frame_read(1,2) [OF f ij] img_pos_turned [OF sz(1) ij sz(2,3)] temp_pos_turned [OF sz(1) ij sz(2,3) k]
    by (simp add: turn_pixel_def write_at_1)
  moreover have "copied r mode l h w f (i * uvc_width f + j + 1) (img[?p i j := image_at f i j], temp[?q i j := t])"
    unfolding copied_def split_conv
  proof (intro conjI allI impI)
    fix a b assume ab: "a < uvc_height f div 2" "b < uvc_width f" "a * uvc_width f + b < i * uvc_width f + j + 1"
    have new: "img[?p i j := image_at f i j] ! ?p i j = image_at f i j" "in_mode mode (temp_at f i j) = Some (temp[?q i j := t] ! ?q i j)"
      using it inside t by simp_all
    have old: "img[?p i j := image_at f i j] ! ?p a b = image_at f a b \<and> in_mode mode (temp_at f a b) = Some (temp[?q i j := t] ! ?q a b)"
      if ne: "(a, b) \<noteq> (i, j)"
    proof -
      have "a * uvc_width f + b < i * uvc_width f + j"
        using ab(3) pixel_index_inj [OF ab(2) ij(2)] ne by (metis Suc_eq_plus1 less_Suc_eq)
      then show ?thesis using s other [OF ab(1,2) ne] ab(1,2) by (auto simp: copied_def it(1))
    qed
    show "img[?p i j := image_at f i j] ! ?p a b = image_at f a b" using new old by (cases "(a, b) = (i, j)") auto
    show "in_mode mode (temp_at f a b) = Some (temp[?q i j := t] ! ?q a b)" using new old by (cases "(a, b) = (i, j)") auto
  qed (use it in simp_all)
  ultimately show ?thesis by blast
qed

lemma kelvin_quarter_turn_fails:
  assumes sz: "w = uvc_height f div 2" "w \<le> l" "2 * (l * uvc_width f) < 2 ^ 32" and f: "frame_ok KelvinMode f"
    and n: "0 < w" "1 < uvc_width f" and s: "length temp = l * uvc_width f"
  shows "turn_frame Rotate_90 KelvinMode l (uvc_width f) w f (img, temp) = None"
proof -
  let ?h = "uvc_width f" and ?I = "\<lambda>s :: i16 list \<times> i16 list. length (snd s) = l * uvc_width f"
  define k where "k = uvc_width f - 1"
  let ?body = "turn_pixel Rotate_90 KelvinMode l ?h w f 0"
  have keep: "?I s \<Longrightarrow> ?body j s = Some s' \<Longrightarrow> ?I s'" for j s s'
    by (auto simp: turn_pixel_def split: bind_splits prod.splits dest!: length_write_at)
  have k: "1 \<le> k" "k < ?h" "?h = k + 1" using n(2) by (auto simp: k_def)
  have kl: "k * l + l = l * ?h" "l \<le> k * l" using k by (simp_all add: algebra_simps)
  then have out: "l * ?h \<le> 2 * (k * l) + (w - 1)" and small: "2 * (k * l) + (w - 1) < 2 ^ 32" using sz(2,3) by linarith+
  have "of_nat k * of_nat (2 * l) + of_nat w - 1 - of_nat 0 = (of_nat (2 * (k * l) + (w - 1)) :: u32)"
    using n(1) by (simp add: of_nat_diff algebra_simps)
  then have pos: "temp_pos Rotate_90 KelvinMode l (of_nat ?h) (of_nat w) (of_nat 0) (of_nat k) = 2 * (k * l) + (w - 1)"
    using unat_of [OF small] by (simp only: temp_pos.simps temperature_mode.case)
  have fails: "?body k s = None" if "?I s" for s
  proof -
    have "write_at (snd s) (2 * (k * l) + (w - 1)) [t] = None" for t using that out by (simp add: write_at_def)
    then show ?thesis unfolding turn_pixel_def pos by (cases s) (auto split: bind_splits)
  qed
  have "for_loop 0 ?h ?body (img, temp) = None"
    by (rule for_loop_fails [where I = ?I and k = k]) (use keep fails s k(2) in auto)
  then show ?thesis using sz(1) n(1) unfolding turn_frame_def by (subst for_loop.simps) simp
qed


definition demo_uvc :: uvc_frame where
  \<comment> \<open>two lines of three pixels, above their temperatures in sixteenths of a kelvin\<close>
  "demo_uvc = \<lparr>uvc_data = [1, 2, 3, 4, 5, 6, 4801, 4802, 4803, 4804, 4805, 4806], uvc_width = 3, uvc_height = 4, uvc_step = 3\<rparr>"

lemma turn_demo:
  "turn_frame Rotate_270 KelvinMode 2 3 2 demo_uvc (replicate 6 0, replicate 6 0) = Some ([3, 6, 2, 5, 1, 4], [4806, 4803, 4805, 4802, 4804, 4801])"
  "turn_frame Rotate_90 CentigradeMode 2 3 2 demo_uvc (replicate 6 0, replicate 6 0) = Some ([4, 1, 5, 2, 6, 3], [434, 431, 435, 432, 436, 433])"
  "turn_frame Rotate_90 KelvinMode 2 3 2 demo_uvc (replicate 6 0, replicate 6 0) = None"
  by code_simp+


end
