(* ===== verification/Spec2Isabelle.thy ===== *)
theory Spec2Isabelle
  imports MqttSign JsonParseSafe JsonPrintSafe JsonMake JsonCompare JsonMinify JsonRoundtrip Pixel BlockQueue MqttProcess
    IniConfig Config MainStart Serial RtmpPush H264File PixelMore ThermalTurn
begin

text \<open>
  A verification library for the firmware of an IoT camera: a 32-bit ARM Linux program in C and C++ around the SDK
  of the camera.  The library models the program's own code under \<open>src/\<close>, not the SDK, the MQTT, RTMP and RTSP
  libraries, or the kernel, which it calls.

  \<^bold>\<open>The program.\<close>  \<open>main\<close> (\<open>main.cpp\<close>) reads an INI file (\<open>readInifile\<close>, \<open>GetProfileString\<close>), starts the network, the
  message queue and the media services the settings ask for, and ends in a loop.  A server reaches the device by
  MQTT: \<open>aliyun_auth.c\<close> derives the credentials with HMAC-SHA-256, \<open>mqtt.c\<close> keeps the connection and publishes,
  \<open>MQTTProcess.cpp\<close> copies each message into a queue (\<open>PCM/pcm.h\<close>), whose consumer thread parses it with
  \<open>JSON/cJSON.c\<close>, and answers a heartbeat by building, printing and publishing a JSON object.  Pictures go out as RTMP
  (\<open>CRtmpPush.cpp\<close>) or RTSP (\<open>rtsp_h264_file.cpp\<close>), those of a thermal camera (\<open>thermalUsb.cpp\<close>) after a conversion
  (\<open>Common.c\<close>).  \<open>config.cpp\<close> keeps a structure on the flash, \<open>serialport.cpp\<close> and \<open>SerialPortSrv.cpp\<close> echo a serial
  port.

  \<^bold>\<open>Conventions.\<close>  A C object is the list of its bytes (\<open>CPrelude\<close>); an access outside it, through \<open>NULL\<close> or a freed
  address, is the value \<open>None\<close>, so a theorem that a function gives \<open>Some\<close> says that its accesses are inside their
  objects.  An error of the code (\<open>-1\<close>, \<open>false\<close>, \<open>NULL\<close>) is a value inside the \<open>Some\<close>.  Unsigned integers of 8, 16, 32
  bits are words; \<open>size_t\<close> and \<open>int\<close> are words where they can wrap around, else \<open>nat\<close> and \<open>int\<close> with the reason
  at the definition.  Allocation may fail at any call: the schedule of failures is part of the state, and the
  theorems hold for all schedules.  Answers of libraries and of the kernel are arguments or are free.

  \<^bold>\<open>Shared theories.\<close>
  \<^item> \<open>CPrelude\<close>: words, buffers, C strings, their lemmas, and the collections \<open>buf_simps\<close> and \<open>word_defs\<close>.
  \<^item> \<open>Transition\<close>: the locale \<open>invariant_of\<close> (an invariant of a step relation holds in all reachable states), which
    \<open>BlockQueue\<close> and \<open>MqttClient\<close> interpret.

  \<^bold>\<open>Credentials\<close> (\<open>mqtt/aliyun_auth.c\<close>).
  \<^item> \<open>Sha256\<close>: \<open>utils_sha256_init\<close> to \<open>_finish\<close>, macro by macro.  \<open>Sha256Spec\<close>: FIPS 180-4, and the refinement of the
    block function to it.  \<open>Sha256Stream\<close>: the context as the bytes absorbed so far, the locale \<open>stream_hash\<close> of the
    laws of streaming, interpreted by the code's functions.
  \<^item> \<open>MqttSign\<close>: HMAC, \<open>hex2str\<close>, \<open>aiotMqttSign\<close>, refined to RFC 2104 with every fixed-size buffer.

  \<^bold>\<open>JSON values\<close> (\<open>JSON/cJSON.c\<close>).
  \<^item> \<open>CDouble\<close>, \<open>CDoubleFacts\<close>: \<open>double\<close>, \<open>strtod\<close> and \<open>%.Pg\<close> on exact integers, and their correctness.
  \<^item> \<open>JsonBase\<close>: items as trees, the allocator, the cursors, \<open>cJSON_Delete\<close>.
  \<^item> \<open>JsonString\<close>, \<open>JsonParse\<close>: strings both ways, the parser; \<open>JsonScan\<close>, \<open>JsonParseSafe\<close>: it is safe on every input,
    within its fuel of three for each byte plus three, which is enough because every third call consumes a byte.
  \<^item> \<open>JsonPrint\<close>: the printer.  \<open>JsonEmit\<close>, \<open>JsonEscape\<close>, \<open>JsonRender\<close>: the contract of a print routine, and that each
    writes the text \<open>render\<close>; \<open>JsonPrintSafe\<close>: the locale \<open>emitter\<close>, its five interpretations, the entry points.
  \<^item> \<open>JsonRoundtrip\<close>: the parser reads back what the printer writes.  \<open>JsonMinify\<close>: \<open>cJSON_Minify\<close> in place; its loops
    may run off the buffer, so they are partial functions that are proved to return.

  \<^bold>\<open>JSON on pointers\<close> (\<open>JSON/cJSON.c\<close>).
  \<^item> \<open>JsonHeap\<close>: the store and the operations on it; walks along a list are partial functions.  \<open>JsonChain\<close>: child lists.
    \<open>JsonLists\<close>: the locales \<open>list_editor\<close> and \<open>list_builder\<close> with their interpretations, and the lookups.
  \<^item> \<open>JsonOwn\<close>: what an item owns; deletion refines that of \<open>JsonBase\<close>.  \<open>JsonMake\<close>: the locale \<open>item_maker\<close>, interpreted
    by \<open>cJSON_CreateNumber\<close> and \<open>cJSON_CreateString\<close>, the \<open>cJSON_Add..ToObject\<close> functions and the array constructors.
    \<open>JsonObject\<close>: its extension \<open>json_maker\<close>, which says what the built object means as a JSON value.
  \<^item> \<open>JsonMisc\<close>: hooks, type tests, \<open>cJSON_Duplicate\<close>.  \<open>JsonCompare\<close>: \<open>cJSON_Compare\<close> with fuel; it decides equality of
    values, and the sizes of the two values bound the fuel.  \<open>JsonPlace\<close>: the parser's items put on the store, and the
    printer on an item of the store.

  \<^bold>\<open>Messages.\<close>
  \<^item> \<open>BlockQueue\<close> (\<open>PCM/pcm.h\<close>, \<open>PCM/pcm.cpp\<close>): the queue as steps of any number of threads; order, capacity, progress.
  \<^item> \<open>MqttClient\<close> (\<open>mqtt/mqtt.c\<close>): the connection thread, the callback and the publishers as steps; what holds with and
    without spurious wake-ups.  \<open>MqttProcess\<close> (\<open>MQTTProcess.cpp\<close>, \<open>Common.h\<close>): from the arrival of a message to its
    answer, with the JSON code on one store, for all allocation failures.

  \<^bold>\<open>Configuration and start.\<close>
  \<^item> \<open>IniConfig\<close> (\<open>Common.c\<close>, \<open>main.cpp\<close>): \<open>GetProfileString\<close> refines a lookup in the lines of the file; the loop ends as each
    turn consumes a line.  \<open>Config\<close> (\<open>config.cpp\<close>): saving and reading over histories of restarts and edits.
    \<open>MainStart\<close> (\<open>main.cpp\<close>): which services \<open>main\<close> starts for a configuration.
  \<^item> \<open>Serial\<close> (\<open>serialport.cpp\<close>, \<open>SerialPortSrv.cpp\<close>): the flag words of the port, and the echo.

  \<^bold>\<open>Pictures.\<close>
  \<^item> \<open>RtmpPush\<close> (\<open>CRtmpPush.cpp\<close>): the publisher's thread and its callers as events, with the locale \<open>event_invariant\<close> and
    two interpretations; eight accesses of the thread are enough for a stop.
  \<^item> \<open>H264File\<close> (\<open>rtsp_h264_file.cpp\<close>): the reader and the loop over its frames.  The fuel of a pass is the size of the file,
    as every frame has a byte at least.
  \<^item> \<open>Pixel\<close>, \<open>PixelMore\<close> (\<open>Common.c\<close>): the converters; the locale \<open>chroma_writer\<close> is the store of the chroma samples, with
    its two layouts as interpretations.
  \<^item> \<open>Thermal\<close>, \<open>ThermalFilter\<close>, \<open>ThermalTurn\<close> (\<open>thermalUsb.cpp\<close>): the frame buffers, the temperature filter, and the turning
    of a frame.

  \<^bold>\<open>Defects.\<close>  Where the code does not do what it means to, the theorem says what it does: a list whose last item was
  replaced or detached keeps a pointer to it (\<open>JsonOwn\<close>), \<open>pubmsg\<close> keeps the mutex when the connection is down
  (\<open>MqttClient\<close>), \<open>rgb_to_yuv420p\<close> needs more room than a caller expects at odd sizes (\<open>Pixel\<close>), the modes of the
  program cannot be configured (\<open>MainStart\<close>), a failed save is never repeated (\<open>Config\<close>), a stop can be lost (\<open>RtmpPush\<close>), and
  the temperature image does not depend on the temperatures (\<open>ThermalFilter\<close>).

  \<^bold>\<open>Not modelled.\<close>  \<open>v4l2dev.cpp\<close> (one \<open>ioctl\<close> after the other, with no state of its own), \<open>hi3516ev200_gpio.cpp\<close> and
  \<open>devmem.cpp\<close> (writes to device registers), \<open>videopush.cpp\<close>, \<open>globaldata.cpp\<close>, \<open>timeutil.c\<close> (constructors of SDK objects,
  global pointers, the clock), the loop of \<open>irchannel.cpp\<close> that hands frames to OpenCV, the pseudo colours of
  \<open>thermalUsb.cpp\<close> (single-precision arithmetic) and its command functions with empty bodies, the \<open>/proc\<close> statistics of
  \<open>Common.c\<close>, which only disabled code uses, and the forwarding callbacks of \<open>main.cpp\<close>.  The headers of the SDK,
  of OpenSSL, zlib, the MQTT client and others declare code that is not under \<open>src/\<close>.
\<close>

end
